(* ===== verification/Prelude.thy ===== *)
theory Prelude
  imports Main "HOL-Library.Word" "HOL-Library.Char_ord" "HOL-Library.List_Lexorder"
    "HOL-Library.Product_Lexorder" "HOL-Library.Multiset"
begin

text \<open>
  The vocabulary every other theory shares: the model of Rust's machine integers with the
  saturating and checked operations the merge crate is written with, slices read by
  \<open>slice::get\<close>, byte strings, the \<open>Result\<close> type, and the generic list lemmas.

  A \<open>u64\<close> or a \<open>usize\<close> is a \<open>nat\<close> with the width written out where the code saturates
  or checks (the shipped targets are 64-bit, so \<open>usize::try_from\<close> of a \<open>u64\<close> never
  fails). \<open>saturating_sub\<close> is the subtraction of \<open>nat\<close>. A byte is an \<open>8 word\<close>, a
  \<open>String\<close> is a \<open>string\<close> of its UTF-8 bytes and is compared bytewise, as \<open>Ord for str\<close> does.
\<close>

named_theorems sat_simps \<open>saturating arithmetic below the width\<close>
named_theorems slice_simps \<open>slices in range\<close>
named_theorems codec \<open>a decoder run over the bytes its encoder wrote\<close>

section \<open>Machine integers\<close>

type_synonym byte = "8 word"
type_synonym path = string
type_synonym ver = nat

definition u64_max :: nat where
  "u64_max = 18446744073709551615"

definition u32_max :: nat where
  "u32_max = 4294967295"

definition u16_max :: nat where
  "u16_max = 65535"

lemma u64_max_pow: "u64_max = 2 ^ 64 - 1"
  by (simp add: u64_max_def)

lemma u64_max_256: "u64_max = 256 ^ 8 - 1" "u32_max = 256 ^ 4 - 1" "u16_max = 256 ^ 2 - 1"
  by (simp_all add: u64_max_def u32_max_def u16_max_def)

text \<open>\<open>a.saturating_add(b)\<close> and \<open>a.checked_add(b)\<close>.\<close>

definition sat_add :: "nat \<Rightarrow> nat \<Rightarrow> nat" where
  "sat_add a b = min (a + b) u64_max"

definition checked_add :: "nat \<Rightarrow> nat \<Rightarrow> nat option" where
  "checked_add a b = (if a + b \<le> u64_max then Some (a + b) else None)"

text \<open>\<open>a.saturating_mul(b)\<close>.\<close>

definition sat_mul :: "nat \<Rightarrow> nat \<Rightarrow> nat" where
  "sat_mul a b = min (a * b) u64_max"

text \<open>\<open>iter.sum::<u64>()\<close>, which wraps in the release profile.\<close>

definition wrap_sum :: "nat list \<Rightarrow> nat" where
  "wrap_sum ns = sum_list ns mod 2 ^ 64"

text \<open>\<open>u32::try_from(n).unwrap_or(u32::MAX)\<close> and \<open>u16::try_from(n).unwrap_or(u16::MAX)\<close>.\<close>

definition to_u32 :: "nat \<Rightarrow> nat" where
  "to_u32 n = (if n \<le> u32_max then n else u32_max)"

definition to_u16 :: "nat \<Rightarrow> nat" where
  "to_u16 n = (if n \<le> u16_max then n else u16_max)"

lemma sat_add_small [sat_simps]: "a + b \<le> u64_max \<Longrightarrow> sat_add a b = a + b"
  by (simp add: sat_add_def)

lemma wrap_sum_small [sat_simps]: "sum_list ns \<le> u64_max \<Longrightarrow> wrap_sum ns = sum_list ns"
  by (simp add: wrap_sum_def u64_max_def)

lemma sat_add_0 [simp]: "a \<le> u64_max \<Longrightarrow> sat_add a 0 = a" "a \<le> u64_max \<Longrightarrow> sat_add 0 a = a"
  by (simp_all add: sat_add_def)

lemma sat_add_le [simp]: "sat_add a b \<le> u64_max"
  by (simp add: sat_add_def)

lemma sat_add_mono: "a \<le> c \<Longrightarrow> b \<le> d \<Longrightarrow> sat_add a b \<le> sat_add c d"
  by (auto simp: sat_add_def)

lemma sat_add_le_sum: "sat_add a b \<le> a + b"
  by (simp add: sat_add_def)

lemma checked_add_Some [simp]: "checked_add a b = Some c \<longleftrightarrow> c = a + b \<and> a + b \<le> u64_max"
  by (auto simp: checked_add_def)

lemma to_u32_small [simp]: "n \<le> u32_max \<Longrightarrow> to_u32 n = n"
  by (simp add: to_u32_def)

lemma to_u16_small [simp]: "n \<le> u16_max \<Longrightarrow> to_u16 n = n"
  by (simp add: to_u16_def)

lemma to_u16_le: "to_u16 n \<le> u16_max"
  by (simp add: to_u16_def)

section \<open>Results\<close>

text \<open>\<open>Result<T, E>\<close> is \<open>'e + 'a\<close>; \<open>?\<close> is \<open>rbind\<close>, which stops at the first error.\<close>

definition rbind :: "'e + 'a \<Rightarrow> ('a \<Rightarrow> 'e + 'b) \<Rightarrow> 'e + 'b" where
  "rbind r f = (case r of Inl e \<Rightarrow> Inl e | Inr a \<Rightarrow> f a)"

lemma rbind_simps [simp]: "rbind (Inl e) f = Inl e" "rbind (Inr a) f = f a"
  by (simp_all add: rbind_def)

lemma rbind_Inr_iff: "rbind r f = Inr b \<longleftrightarrow> (\<exists>a. r = Inr a \<and> f a = Inr b)"
  by (cases r) simp_all

lemma rbind_InrE:
  assumes "rbind r f = Inr b"
  obtains a where "r = Inr a" "f a = Inr b"
  using assms by (auto simp: rbind_Inr_iff)

text \<open>\<open>option.ok_or(e)\<close>.\<close>

definition ok_or :: "'a option \<Rightarrow> 'e \<Rightarrow> 'e + 'a" where
  "ok_or x e = (case x of None \<Rightarrow> Inl e | Some a \<Rightarrow> Inr a)"

lemma ok_or_simps [simp]: "ok_or None e = Inl e" "ok_or (Some a) e = Inr a"
  by (simp_all add: ok_or_def)

lemma ok_or_Inr [simp]: "ok_or x e = Inr a \<longleftrightarrow> x = Some a"
  by (cases x) simp_all

lemma rbind_ok_or [simp]: "rbind (ok_or x e) f = Inr b \<longleftrightarrow> (\<exists>a. x = Some a \<and> f a = Inr b)"
  by (cases x) simp_all

text \<open>\<open>map.get(k).copied().unwrap_or(d)\<close>.\<close>

definition unwrap_or :: "'a option \<Rightarrow> 'a \<Rightarrow> 'a" where
  "unwrap_or x d = (case x of None \<Rightarrow> d | Some a \<Rightarrow> a)"

lemma unwrap_or_simps [simp]: "unwrap_or None d = d" "unwrap_or (Some a) d = a"
  by (simp_all add: unwrap_or_def)

section \<open>Slices\<close>

text \<open>\<open>xs.get(a..b)\<close> and \<open>xs.get(a..)\<close>: \<open>None\<close> when the range does not lie in the slice.\<close>

definition slice_get :: "'a list \<Rightarrow> nat \<Rightarrow> nat \<Rightarrow> 'a list option" where
  "slice_get xs a b = (if a \<le> b \<and> b \<le> length xs then Some (take (b - a) (drop a xs)) else None)"

definition slice_from :: "'a list \<Rightarrow> nat \<Rightarrow> 'a list option" where
  "slice_from xs a = (if a \<le> length xs then Some (drop a xs) else None)"

text \<open>\<open>xs.get(i)\<close>.\<close>

definition list_get :: "'a list \<Rightarrow> nat \<Rightarrow> 'a option" where
  "list_get xs i = (if i < length xs then Some (xs ! i) else None)"

text \<open>\<open>xs.iter().position(p)\<close>.\<close>

fun position :: "('a \<Rightarrow> bool) \<Rightarrow> 'a list \<Rightarrow> nat option" where
  "position P [] = None"
| "position P (x # xs) = (if P x then Some 0 else map_option Suc (position P xs))"

lemma position_None: "position P xs = None \<longleftrightarrow> (\<forall>x \<in> set xs. \<not> P x)"
  by (induction xs) auto

lemma position_Some: "position P xs = Some i \<Longrightarrow> i < length xs \<and> P (xs ! i)"
  by (induction xs arbitrary: i) (auto split: if_splits)

lemma position_nth: "distinct xs \<Longrightarrow> i < length xs \<Longrightarrow> position (\<lambda>y. y = xs ! i) xs = Some i"
proof (induction xs arbitrary: i)
  case (Cons x xs)
  then show ?case by (cases i) (auto simp: nth_mem)
qed simp

lemma position_mem: "x \<in> set xs \<Longrightarrow> \<exists>i. position (\<lambda>y. y = x) xs = Some i \<and> i < length xs \<and> xs ! i = x"
  using position_None [of "\<lambda>y. y = x" xs] position_Some [of "\<lambda>y. y = x" xs] by fastforce

text \<open>The mathematical slice the theorems speak about: the \<open>n\<close> elements from \<open>a\<close>.\<close>

definition seg :: "'a list \<Rightarrow> nat \<Rightarrow> nat \<Rightarrow> 'a list" where
  "seg xs a n = take n (drop a xs)"

lemma slice_get_in [slice_simps]: "a \<le> b \<Longrightarrow> b \<le> length xs \<Longrightarrow> slice_get xs a b = Some (seg xs a (b - a))"
  by (simp add: slice_get_def seg_def)

lemma slice_get_Some: "slice_get xs a b = Some ys \<longleftrightarrow> a \<le> b \<and> b \<le> length xs \<and> ys = seg xs a (b - a)"
  by (auto simp: slice_get_def seg_def)

lemma slice_from_in [slice_simps]: "a \<le> length xs \<Longrightarrow> slice_from xs a = Some (drop a xs)"
  by (simp add: slice_from_def)

lemma length_seg [simp]: "length (seg xs a n) = min n (length xs - a)"
  by (simp add: seg_def)

lemma seg_0 [simp]: "seg xs a 0 = []"
  by (simp add: seg_def)

lemma seg_Nil [simp]: "seg [] a n = []"
  by (simp add: seg_def)

lemma seg_all: "length xs \<le> n \<Longrightarrow> seg xs 0 n = xs"
  by (simp add: seg_def)

lemma nth_seg: "i < n \<Longrightarrow> a + i < length xs \<Longrightarrow> seg xs a n ! i = xs ! (a + i)"
  by (simp add: seg_def add.commute)

lemma seg_add: "seg xs a (m + n) = seg xs a m @ seg xs (a + m) n"
  by (simp add: seg_def take_add add.commute)

lemma seg_append_left: "a + n \<le> length xs \<Longrightarrow> seg (xs @ ys) a n = seg xs a n"
  by (simp add: seg_def)

lemma seg_append_right: "length xs \<le> a \<Longrightarrow> seg (xs @ ys) a n = seg ys (a - length xs) n"
  by (simp add: seg_def)

lemma seg_append_cross:
  "a \<le> length xs \<Longrightarrow> length xs \<le> a + n \<Longrightarrow>
    seg (xs @ ys) a n = drop a xs @ take (a + n - length xs) ys"
  by (simp add: seg_def add.commute)

lemma seg_drop: "seg (drop k xs) a n = seg xs (k + a) n"
  by (simp add: seg_def add.commute)

lemma seg_seg: "a + n \<le> m \<Longrightarrow> seg (seg xs k m) a n = seg xs (k + a) n"
  by (simp add: seg_def drop_take take_take min_absorb1 add.commute)

lemma take_eq_seg: "take n xs = seg xs 0 n"
  by (simp add: seg_def)

lemma seg_drop_split: "a \<le> b \<Longrightarrow> seg xs a (b - a) @ drop b xs = drop a xs"
proof -
  assume "a \<le> b"
  then have "drop b xs = drop (b - a) (drop a xs)" by simp
  then show ?thesis by (simp only: seg_def append_take_drop_id)
qed

lemma seg_take_split: "a \<le> b \<Longrightarrow> take a xs @ seg xs a (b - a) = take b xs"
  using seg_add [of xs 0 a "b - a"] by (simp add: take_eq_seg)

section \<open>Strings and bytes\<close>

text \<open>\<open>str::as_bytes\<close>, and \<open>std::str::from_utf8\<close> with the validity table of the standard library.\<close>

definition as_bytes :: "string \<Rightarrow> byte list" where
  "as_bytes s = map (\<lambda>c. word_of_nat (of_char c)) s"

definition utf8_cont :: "byte \<Rightarrow> bool" where
  "utf8_cont b \<longleftrightarrow> 0x80 \<le> b \<and> b \<le> 0xBF"

fun utf8_valid :: "byte list \<Rightarrow> bool" where
  "utf8_valid [] = True"
| "utf8_valid (a # bs) =
     (if a < 0x80 then utf8_valid bs
      else if 0xC2 \<le> a \<and> a \<le> 0xDF then
        (case bs of b # r \<Rightarrow> utf8_cont b \<and> utf8_valid r | _ \<Rightarrow> False)
      else if 0xE0 \<le> a \<and> a \<le> 0xEF then
        (case bs of b # c # r \<Rightarrow>
            (if a = 0xE0 then 0xA0 \<le> b \<and> b \<le> 0xBF
             else if a = 0xED then 0x80 \<le> b \<and> b \<le> 0x9F
             else utf8_cont b) \<and> utf8_cont c \<and> utf8_valid r
         | _ \<Rightarrow> False)
      else if 0xF0 \<le> a \<and> a \<le> 0xF4 then
        (case bs of b # c # d # r \<Rightarrow>
            (if a = 0xF0 then 0x90 \<le> b \<and> b \<le> 0xBF
             else if a = 0xF4 then 0x80 \<le> b \<and> b \<le> 0x8F
             else utf8_cont b) \<and> utf8_cont c \<and> utf8_cont d \<and> utf8_valid r
         | _ \<Rightarrow> False)
      else False)"

definition bytes_str :: "byte list \<Rightarrow> string" where
  "bytes_str bs = map (\<lambda>b. char_of (unat b)) bs"

definition from_utf8 :: "byte list \<Rightarrow> string option" where
  "from_utf8 bs = (if utf8_valid bs then Some (bytes_str bs) else None)"

text \<open>What the type \<open>String\<close> guarantees of its bytes.\<close>

definition str_ok :: "string \<Rightarrow> bool" where
  "str_ok s \<longleftrightarrow> utf8_valid (as_bytes s)"

lemma length_as_bytes [simp]: "length (as_bytes s) = length s"
  by (simp add: as_bytes_def)

lemma bytes_str_as_bytes [simp]: "bytes_str (as_bytes s) = s"
  by (simp add: bytes_str_def as_bytes_def comp_def unat_of_nat)

lemma as_bytes_bytes_str [simp]: "as_bytes (bytes_str bs) = bs"
proof -
  have "word_of_nat (of_char (char_of (unat b) :: char)) = b" for b :: byte
  proof -
    have "unat b < 256" using unsigned_less [of b] by simp
    then show ?thesis by simp
  qed
  then show ?thesis by (simp add: bytes_str_def as_bytes_def comp_def)
qed

lemma from_utf8_as_bytes [simp]: "str_ok s \<Longrightarrow> from_utf8 (as_bytes s) = Some s"
  by (simp add: from_utf8_def str_ok_def)

lemma from_utf8_Some: "from_utf8 bs = Some s \<longleftrightarrow> str_ok s \<and> bs = as_bytes s"
  by (auto simp: from_utf8_def str_ok_def split: if_splits)

end
