(* ===== verification/Ordered_Maps.thy ===== *)
theory Ordered_Maps
  imports Prelude
begin

text \<open>
  \<open>BTreeMap\<close> and \<open>BTreeSet\<close> of the standard library, as the strictly sorted association list
  and the strictly sorted list their iterators yield. Iteration order is observable in the
  code (it fixes the order of effects, of conflict windows and of the encoded tables), so
  the model keeps it. The locale \<open>ordered_map\<close> is the contract the components rely on; it
  is interpreted on the model below.
\<close>

type_synonym ('k, 'v) btmap = "('k \<times> 'v) list"
type_synonym 'k btset = "'k list"

section \<open>Operations\<close>

text \<open>\<open>BTreeMap::get\<close>, \<open>insert\<close>, \<open>remove\<close>, \<open>contains_key\<close>, \<open>keys\<close>, \<open>values\<close>.\<close>

definition bt_get :: "('k, 'v) btmap \<Rightarrow> 'k \<Rightarrow> 'v option" where
  "bt_get m k = map_of m k"

fun bt_insert :: "'k::linorder \<Rightarrow> 'v \<Rightarrow> ('k, 'v) btmap \<Rightarrow> ('k, 'v) btmap" where
  "bt_insert k v [] = [(k, v)]"
| "bt_insert k v ((a, b) # m) =
     (if k < a then (k, v) # (a, b) # m
      else if k = a then (k, v) # m
      else (a, b) # bt_insert k v m)"

definition bt_remove :: "'k \<Rightarrow> ('k, 'v) btmap \<Rightarrow> ('k, 'v) btmap" where
  "bt_remove k m = filter (\<lambda>e. fst e \<noteq> k) m"

definition bt_contains :: "('k, 'v) btmap \<Rightarrow> 'k \<Rightarrow> bool" where
  "bt_contains m k \<longleftrightarrow> bt_get m k \<noteq> None"

definition bt_keys :: "('k, 'v) btmap \<Rightarrow> 'k list" where
  "bt_keys m = map fst m"

definition bt_values :: "('k, 'v) btmap \<Rightarrow> 'v list" where
  "bt_values m = map snd m"

text \<open>\<open>map.entry(k).or_default().push(x)\<close> on a map of vectors.\<close>

definition bt_push :: "'k::linorder \<Rightarrow> 'x \<Rightarrow> ('k, 'x list) btmap \<Rightarrow> ('k, 'x list) btmap" where
  "bt_push k x m = bt_insert k (unwrap_or (bt_get m k) [] @ [x]) m"

text \<open>\<open>iter().collect()\<close> into a map (a later entry of a key replaces an earlier one).\<close>

definition bt_of_list :: "('k::linorder \<times> 'v) list \<Rightarrow> ('k, 'v) btmap" where
  "bt_of_list es = foldl (\<lambda>m (k, v). bt_insert k v m) [] es"

text \<open>\<open>BTreeSet::insert\<close>, \<open>remove\<close>, \<open>contains\<close>, \<open>extend\<close>.\<close>

definition bs_insert :: "'k::linorder \<Rightarrow> 'k btset \<Rightarrow> 'k btset" where
  "bs_insert k s = insort_insert k s"

definition bs_remove :: "'k \<Rightarrow> 'k btset \<Rightarrow> 'k btset" where
  "bs_remove k s = filter (\<lambda>x. x \<noteq> k) s"

definition bs_mem :: "'k btset \<Rightarrow> 'k \<Rightarrow> bool" where
  "bs_mem s k \<longleftrightarrow> k \<in> set s"

definition bs_extend :: "'k::linorder list \<Rightarrow> 'k btset \<Rightarrow> 'k btset" where
  "bs_extend ks s = foldl (\<lambda>s k. bs_insert k s) s ks"

text \<open>The representation invariant: keys strictly increasing.\<close>

definition bt_ok :: "('k::linorder, 'v) btmap \<Rightarrow> bool" where
  "bt_ok m \<longleftrightarrow> sorted_wrt (<) (map fst m)"

definition bs_ok :: "'k::linorder btset \<Rightarrow> bool" where
  "bs_ok s \<longleftrightarrow> sorted_wrt (<) s"

section \<open>Maps\<close>

lemma bt_get_Nil [simp]: "bt_get [] k = None"
  by (simp add: bt_get_def)

lemma bt_get_Cons [simp]: "bt_get ((a, b) # m) k = (if a = k then Some b else bt_get m k)"
  by (simp add: bt_get_def)

lemma bt_get_insert [simp]: "bt_get (bt_insert k v m) j = (if j = k then Some v else bt_get m j)"
  by (induction k v m rule: bt_insert.induct) auto

lemma bt_get_remove [simp]: "bt_get (bt_remove k m) j = (if j = k then None else bt_get m j)"
  by (induction m) (auto simp: bt_remove_def)

lemma bt_get_push [simp]:
  "bt_get (bt_push k x m) j = (if j = k then Some (unwrap_or (bt_get m k) [] @ [x]) else bt_get m j)"
  by (simp add: bt_push_def)

lemma bt_contains_insert [simp]: "bt_contains (bt_insert k v m) j \<longleftrightarrow> j = k \<or> bt_contains m j"
  by (simp add: bt_contains_def)

lemma bt_contains_remove [simp]: "bt_contains (bt_remove k m) j \<longleftrightarrow> j \<noteq> k \<and> bt_contains m j"
  by (simp add: bt_contains_def)

lemma bt_contains_Nil [simp]: "\<not> bt_contains [] k"
  by (simp add: bt_contains_def)

lemma bt_ok_Nil [simp]: "bt_ok []"
  by (simp add: bt_ok_def)

lemma bt_ok_Cons: "bt_ok ((a, b) # m) \<longleftrightarrow> (\<forall>k \<in> fst ` set m. a < k) \<and> bt_ok m"
  by (simp add: bt_ok_def)

lemma fst_set_bt_insert: "fst ` set (bt_insert k v m) = insert k (fst ` set m)"
  by (induction k v m rule: bt_insert.induct) auto

lemma bt_ok_insert [simp]: "bt_ok m \<Longrightarrow> bt_ok (bt_insert k v m)"
  by (induction k v m rule: bt_insert.induct) (auto simp: bt_ok_Cons fst_set_bt_insert)

lemma bt_ok_remove [simp]: "bt_ok m \<Longrightarrow> bt_ok (bt_remove k m)"
  by (induction m) (auto simp: bt_remove_def bt_ok_Cons)

lemma bt_ok_push [simp]: "bt_ok m \<Longrightarrow> bt_ok (bt_push k x m)"
  by (simp add: bt_push_def)

lemma bt_ok_distinct: "bt_ok m \<Longrightarrow> distinct (map fst m)"
  by (simp add: bt_ok_def strict_sorted_iff)

lemma bt_get_in: "bt_ok m \<Longrightarrow> bt_get m k = Some v \<longleftrightarrow> (k, v) \<in> set m"
  by (simp add: bt_get_def bt_ok_distinct)

lemma bt_get_NoneD: "bt_get m k = None \<longleftrightarrow> k \<notin> fst ` set m"
  by (simp add: bt_get_def map_of_eq_None_iff)

lemma bt_contains_fst: "bt_contains m k \<longleftrightarrow> k \<in> fst ` set m"
  by (simp add: bt_contains_def bt_get_NoneD)

lemma set_bt_keys: "set (bt_keys m) = {k. bt_contains m k}"
  by (auto simp: bt_keys_def bt_contains_fst)

lemma bt_remove_absent: "bt_get m k = None \<Longrightarrow> bt_remove k m = m"
  by (auto simp: bt_remove_def bt_get_NoneD filter_id_conv image_iff)

text \<open>Two maps with the same lookups are the same list.\<close>

lemma bt_keys_values: "bt_ok m \<Longrightarrow> m = map (\<lambda>k. (k, the (bt_get m k))) (bt_keys m)"
proof -
  assume ok: "bt_ok m"
  have "map (\<lambda>e. (fst e, the (bt_get m (fst e)))) m = map (\<lambda>e. e) m"
  proof (rule map_cong)
    fix e assume "e \<in> set m"
    with ok have "bt_get m (fst e) = Some (snd e)" by (simp add: bt_get_in)
    then show "(fst e, the (bt_get m (fst e))) = e" by simp
  qed simp
  then show ?thesis by (simp add: bt_keys_def comp_def)
qed

lemma bt_ext:
  assumes "bt_ok m" "bt_ok n" and eq: "\<And>k. bt_get m k = bt_get n k"
  shows "m = n"
proof -
  have "set (bt_keys m) = set (bt_keys n)"
    by (simp add: set_bt_keys bt_contains_def eq)
  then have keys: "bt_keys m = bt_keys n"
    using assms(1,2) by (intro strict_sorted_equal) (simp_all add: bt_keys_def bt_ok_def)
  have "m = map (\<lambda>k. (k, the (bt_get m k))) (bt_keys m)"
    by (rule bt_keys_values [OF assms(1)])
  also have "\<dots> = map (\<lambda>k. (k, the (bt_get n k))) (bt_keys n)"
    by (simp only: keys eq)
  also have "\<dots> = n"
    by (rule bt_keys_values [OF assms(2), symmetric])
  finally show ?thesis .
qed

lemma bt_remove_insert_absent:
  assumes "bt_ok m" "bt_get m k = None"
  shows "bt_remove k (bt_insert k v m) = m"
  using assms by (intro bt_ext) auto

section \<open>Sums over a map\<close>

text \<open>
  The running totals of the code (retained bytes, the lanes of the set hash) are sums over
  the entries of a map; these say how one insertion or removal moves such a sum.
\<close>

lemma sum_bt_insert_absent:
  fixes f :: "'k::linorder \<times> 'v \<Rightarrow> 'a::comm_monoid_add"
  shows "bt_get m k = None \<Longrightarrow> sum_list (map f (bt_insert k v m)) = f (k, v) + sum_list (map f m)"
  by (induction k v m rule: bt_insert.induct) (auto simp: ac_simps split: if_splits)

lemma sum_bt_insert_present:
  fixes f :: "'k::linorder \<times> 'v \<Rightarrow> 'a::comm_monoid_add"
  assumes "bt_ok m" "bt_get m k = Some w"
  shows "sum_list (map f (bt_insert k v m)) + f (k, w) = f (k, v) + sum_list (map f m)"
  using assms
proof (induction k v m rule: bt_insert.induct)
  case (2 k v a b m)
  consider "k < a" | "k = a" | "a < k" by force
  then show ?case
  proof cases
    case 1
    with "2.prems" have "bt_get m k = Some w" by (auto split: if_splits)
    with "2.prems" 1 have False by (auto simp: bt_ok_Cons bt_get_in image_iff)
    then show ?thesis ..
  next
    case 2
    with "2.prems" show ?thesis by (auto simp: ac_simps)
  next
    case 3
    with "2.prems" have "bt_get m k = Some w" "bt_ok m"
      by (auto simp: bt_ok_Cons split: if_splits)
    with 3 have "sum_list (map f (bt_insert k v m)) + f (k, w) = f (k, v) + sum_list (map f m)"
      by (intro "2.IH") auto
    then have "f (a, b) + (sum_list (map f (bt_insert k v m)) + f (k, w))
        = f (a, b) + (f (k, v) + sum_list (map f m))" by simp
    moreover from 3 have "\<not> k < a" "k \<noteq> a" by auto
    ultimately show ?thesis by (simp add: ac_simps)
  qed
qed simp

lemma sum_bt_remove:
  fixes f :: "'k::linorder \<times> 'v \<Rightarrow> 'a::comm_monoid_add"
  assumes "bt_ok m" "bt_get m k = Some w"
  shows "f (k, w) + sum_list (map f (bt_remove k m)) = sum_list (map f m)"
  using assms
proof (induction m)
  case (Cons e m)
  obtain a b where e: "e = (a, b)" by force
  show ?case
  proof (cases "a = k")
    case True
    with Cons.prems e have "bt_remove k m = m"
      by (intro bt_remove_absent) (auto simp: bt_ok_Cons bt_get_NoneD)
    with True e Cons.prems show ?thesis by (simp add: bt_remove_def)
  next
    case False
    with Cons e have "f (k, w) + sum_list (map f (bt_remove k m)) = sum_list (map f m)"
      by (simp add: bt_ok_Cons)
    then have "f (a, b) + (f (k, w) + sum_list (map f (bt_remove k m))) = f (a, b) + sum_list (map f m)"
      by simp
    with False e show ?thesis by (simp add: bt_remove_def ac_simps)
  qed
qed simp

section \<open>Sets\<close>

lemma set_bs_insert [simp]: "set (bs_insert k s) = insert k (set s)"
  by (simp add: bs_insert_def set_insort_insert)

lemma set_bs_remove [simp]: "set (bs_remove k s) = set s - {k}"
  by (auto simp: bs_remove_def)

lemma set_bs_extend [simp]: "set (bs_extend ks s) = set ks \<union> set s"
  by (induction ks arbitrary: s) (auto simp: bs_extend_def)

lemma bs_mem_simps [simp]:
  "bs_mem (bs_insert k s) j \<longleftrightarrow> j = k \<or> bs_mem s j"
  "bs_mem (bs_remove k s) j \<longleftrightarrow> j \<noteq> k \<and> bs_mem s j"
  "bs_mem (bs_extend ks s) j \<longleftrightarrow> j \<in> set ks \<or> bs_mem s j"
  "\<not> bs_mem [] j"
  by (auto simp: bs_mem_def)

lemma bs_ok_Nil [simp]: "bs_ok []"
  by (simp add: bs_ok_def)

lemma bs_ok_insert [simp]: "bs_ok s \<Longrightarrow> bs_ok (bs_insert k s)"
  by (simp add: bs_ok_def bs_insert_def strict_sorted_iff sorted_insort_insert distinct_insort_insert)

lemma bs_ok_remove [simp]: "bs_ok s \<Longrightarrow> bs_ok (bs_remove k s)"
  by (simp add: bs_ok_def bs_remove_def sorted_wrt_filter)

lemma bs_ok_extend [simp]: "bs_ok s \<Longrightarrow> bs_ok (bs_extend ks s)"
  by (induction ks arbitrary: s) (auto simp: bs_extend_def)

lemma bs_ext: "bs_ok s \<Longrightarrow> bs_ok t \<Longrightarrow> set s = set t \<Longrightarrow> s = t"
  unfolding bs_ok_def by (rule strict_sorted_equal) auto

lemma bs_insert_present: "bs_ok s \<Longrightarrow> k \<in> set s \<Longrightarrow> bs_insert k s = s"
  by (rule bs_ext) auto

section \<open>The contract of an ordered map\<close>

text \<open>
  What the components rely on: lookups after an insertion or a removal, the invariant kept,
  and iteration in increasing key order over exactly the present keys.
\<close>

locale ordered_map =
  fixes empty :: "'m"
    and get :: "'m \<Rightarrow> 'k::linorder \<Rightarrow> 'v option"
    and put :: "'k \<Rightarrow> 'v \<Rightarrow> 'm \<Rightarrow> 'm"
    and del :: "'k \<Rightarrow> 'm \<Rightarrow> 'm"
    and keys :: "'m \<Rightarrow> 'k list"
    and ok :: "'m \<Rightarrow> bool"
  assumes get_empty: "get empty k = None"
    and get_put: "ok m \<Longrightarrow> get (put k v m) j = (if j = k then Some v else get m j)"
    and get_del: "ok m \<Longrightarrow> get (del k m) j = (if j = k then None else get m j)"
    and ok_empty: "ok empty"
    and ok_put: "ok m \<Longrightarrow> ok (put k v m)"
    and ok_del: "ok m \<Longrightarrow> ok (del k m)"
    and keys_sorted: "ok m \<Longrightarrow> sorted_wrt (<) (keys m)"
    and keys_dom: "ok m \<Longrightarrow> set (keys m) = {k. get m k \<noteq> None}"
begin

lemma ok_collect_from: "ok m \<Longrightarrow> ok (foldl (\<lambda>m (k, v). put k v m) m es)"
  by (induction es arbitrary: m) (auto simp: ok_put split: prod.splits)

lemma get_collect_from:
  "ok m \<Longrightarrow> get (foldl (\<lambda>m (k, v). put k v m) m es) j =
    (case map_of (rev es) j of None \<Rightarrow> get m j | Some v \<Rightarrow> Some v)"
proof (induction es arbitrary: m)
  case (Cons e es)
  obtain k v where e: "e = (k, v)" by force
  have "ok (put k v m)" using Cons.prems by (rule ok_put)
  with Cons e show ?case
    by (auto simp: get_put map_add_def split: option.splits)
qed simp

text \<open>A collected iterator: the last entry of each key wins.\<close>

lemma get_collect: "get (foldl (\<lambda>m (k, v). put k v m) empty es) j = map_of (rev es) j"
  by (simp add: get_collect_from ok_empty get_empty split: option.splits)

lemma ok_collect: "ok (foldl (\<lambda>m (k, v). put k v m) empty es)"
  by (rule ok_collect_from) (rule ok_empty)

lemma keys_put: "ok m \<Longrightarrow> set (keys (put k v m)) = insert k (set (keys m))"
  by (auto simp: keys_dom ok_put get_put)

lemma keys_collect: "set (keys (foldl (\<lambda>m (k, v). put k v m) empty es)) = fst ` set es"
proof -
  have "get (foldl (\<lambda>m (k, v). put k v m) empty es) k \<noteq> None \<longleftrightarrow> k \<in> fst ` set es" for k
    unfolding get_collect using map_of_eq_None_iff [of "rev es" k] by simp
  then show ?thesis using ok_collect by (auto simp: keys_dom)
qed

lemma keys_distinct: "ok m \<Longrightarrow> distinct (keys m)"
  using keys_sorted [of m] by (simp add: strict_sorted_iff)

end

interpretation btmap: ordered_map "[]" bt_get bt_insert bt_remove bt_keys bt_ok
proof unfold_locales
  fix m :: "('k::linorder, 'v) btmap"
  show "bt_ok m \<Longrightarrow> sorted_wrt (<) (bt_keys m)"
    by (simp add: bt_ok_def bt_keys_def)
  show "set (bt_keys m) = {k. bt_get m k \<noteq> None}"
    by (simp add: set_bt_keys bt_contains_def)
qed simp_all

lemma bt_ok_of_list [simp]: "bt_ok (bt_of_list es)"
  unfolding bt_of_list_def by (rule btmap.ok_collect)

lemma bt_get_of_list: "bt_get (bt_of_list es) k = map_of (rev es) k"
  unfolding bt_of_list_def by (rule btmap.get_collect)

lemma bt_of_list_id: "bt_ok m \<Longrightarrow> bt_of_list m = m"
proof (rule bt_ext)
  fix k assume "bt_ok m"
  then have "distinct (map fst m)" by (rule bt_ok_distinct)
  then have "map_of (rev m) = map_of m"
    by (subst map_of_inject_set) (simp_all add: rev_map [symmetric])
  then show "bt_get (bt_of_list m) k = bt_get m k"
    by (simp add: bt_get_of_list) (simp add: bt_get_def)
qed simp_all

end
