(* ===== verification/Ranges.thy ===== *)
theory Ranges
  imports Prelude
begin

text \<open>
  \<open>crates/merge/src/range.rs\<close>: half-open byte ranges, the overlap test with its edge rule for
  zero-length anchors, and the sorted set of ranges one path's operations cover.
\<close>

record range =
  r_start :: nat
  r_len :: nat

definition range_new :: "nat \<Rightarrow> nat \<Rightarrow> range" where
  "range_new start len = \<lparr>r_start = start, r_len = len\<rparr>"

definition range_end :: "range \<Rightarrow> nat" where
  "range_end r = sat_add (r_start r) (r_len r)"

definition overlaps :: "range \<Rightarrow> range \<Rightarrow> bool" where
  "overlaps self other =
     (if r_len self = 0 \<and> r_len other = 0 then r_start self = r_start other
      else if r_len self = 0 then
        r_start self > r_start other \<and> r_start self < range_end other
      else if r_len other = 0 then
        r_start other > r_start self \<and> r_start other < range_end self
      else r_start self < range_end other \<and> r_start other < range_end self)"

definition same_span :: "range \<Rightarrow> range \<Rightarrow> bool" where
  "same_span self other \<longleftrightarrow> r_start self = r_start other \<and> r_len self = r_len other"

text \<open>\<open>RangeSet\<close>: the ranges sorted by start, then by length (a stable sort).\<close>

type_synonym range_set = "range list"

definition from_ranges :: "range list \<Rightarrow> range_set" where
  "from_ranges rs = sort_key (\<lambda>r. (r_start r, r_len r)) rs"

section \<open>The overlap test\<close>

text \<open>A range whose end is not saturated: what every range over real content satisfies.\<close>

definition range_ok :: "range \<Rightarrow> bool" where
  "range_ok r \<longleftrightarrow> r_start r + r_len r \<le> u64_max"

text \<open>The bytes a range covers.\<close>

definition bytes_of :: "range \<Rightarrow> nat set" where
  "bytes_of r = {r_start r ..< r_start r + r_len r}"

lemma range_new_simps [simp]: "r_start (range_new a n) = a" "r_len (range_new a n) = n"
  by (simp_all add: range_new_def)

lemma range_end_ok [simp]: "range_ok r \<Longrightarrow> range_end r = r_start r + r_len r"
  by (simp add: range_end_def range_ok_def sat_add_small)

lemma range_ok_new [simp]: "range_ok (range_new a n) \<longleftrightarrow> a + n \<le> u64_max"
  by (simp add: range_ok_def)

lemma overlaps_sym: "overlaps a b = overlaps b a"
  by (auto simp: overlaps_def)

lemma same_span_eq: "same_span a b \<longleftrightarrow> a = b"
  by (auto simp: same_span_def)

lemma overlaps_same: "range_ok a \<Longrightarrow> overlaps a a"
  by (simp add: overlaps_def)

text \<open>On two non-empty ranges the test is: some byte lies in both.\<close>

lemma overlaps_bytes:
  assumes "range_ok a" "range_ok b" "r_len a > 0" "r_len b > 0"
  shows "overlaps a b \<longleftrightarrow> bytes_of a \<inter> bytes_of b \<noteq> {}"
proof
  assume "overlaps a b"
  with assms have "max (r_start a) (r_start b) \<in> bytes_of a \<inter> bytes_of b"
    by (auto simp: overlaps_def bytes_of_def)
  then show "bytes_of a \<inter> bytes_of b \<noteq> {}" by blast
next
  assume "bytes_of a \<inter> bytes_of b \<noteq> {}"
  then obtain i where "i \<in> bytes_of a" "i \<in> bytes_of b" by blast
  with assms show "overlaps a b" by (auto simp: overlaps_def bytes_of_def)
qed

section \<open>Separated ranges\<close>

text \<open>\<open>sep a b\<close>: \<open>a\<close> ends at or before \<open>b\<close> and does not meet it. Transitive, so a sorted set is a chain.\<close>

definition sep :: "range \<Rightarrow> range \<Rightarrow> bool" where
  "sep a b \<longleftrightarrow> r_start a + r_len a \<le> r_start b \<and> \<not> (r_len a = 0 \<and> r_len b = 0 \<and> r_start a = r_start b)"

lemma sep_trans: "sep a b \<Longrightarrow> sep b c \<Longrightarrow> sep a c"
  by (auto simp: sep_def)

lemma sep_not_overlaps: "range_ok a \<Longrightarrow> range_ok b \<Longrightarrow> sep a b \<Longrightarrow> \<not> overlaps a b"
  by (auto simp: sep_def overlaps_def)

lemma not_overlaps_cases:
  assumes "range_ok a" "range_ok b" "\<not> overlaps a b"
  shows "sep a b \<or> sep b a"
  using assms by (auto simp: sep_def overlaps_def split: if_splits)

lemma not_overlaps_before:
  assumes "range_ok a" "range_ok b" "\<not> overlaps a b"
  shows "range_end a \<le> r_start b \<longleftrightarrow> sep a b"
  using assms by (auto simp: sep_def overlaps_def split: if_splits)

text \<open>A set built from pairwise separate ranges is a chain under \<open>sep\<close>.\<close>

lemma sorted_wrt_mset_sym:
  assumes "\<And>x y. P x y = P y x" "mset xs = mset ys" "sorted_wrt P xs"
  shows "sorted_wrt P ys"
proof -
  have "sorted_wrt P ys" if "mset xs = mset ys" "sorted_wrt P xs" for xs ys
    using that
  proof (induction xs arbitrary: ys)
    case (Cons x xs)
    then have "x \<in> set ys" by (metis list.set_intros(1) mset_eq_setD)
    then obtain us vs where ys: "ys = us @ x # vs" by (meson split_list)
    with Cons.prems have m: "mset xs = mset (us @ vs)" by simp
    then have "sorted_wrt P (us @ vs)" using Cons by simp
    moreover have "\<forall>z \<in> set (us @ vs). P x z"
      using Cons.prems(2) mset_eq_setD [OF m] by simp
    ultimately show ?case using assms(1) by (auto simp: ys sorted_wrt_append)
  qed simp
  then show ?thesis using assms(2,3) by blast
qed

lemma from_ranges_chain:
  assumes "\<forall>r \<in> set rs. range_ok r" "sorted_wrt (\<lambda>a b. \<not> overlaps a b) rs"
  shows "sorted_wrt sep (from_ranges rs)" "\<forall>r \<in> set (from_ranges rs). range_ok r"
    "set (from_ranges rs) = set rs"
proof -
  let ?ss = "from_ranges rs"
  show set: "set ?ss = set rs" by (simp add: from_ranges_def)
  then show ok: "\<forall>r \<in> set ?ss. range_ok r" using assms(1) by simp
  have "sorted_wrt (\<lambda>a b. \<not> overlaps a b) ?ss"
    by (rule sorted_wrt_mset_sym [OF _ _ assms(2)]) (auto simp: overlaps_sym from_ranges_def)
  moreover have "sorted_wrt (\<lambda>a b. (r_start a, r_len a) \<le> (r_start b, r_len b)) ?ss"
    using sorted_sort_key [of "\<lambda>r. (r_start r, r_len r)" rs]
    by (simp add: from_ranges_def sorted_wrt_map)
  ultimately have "sorted_wrt (\<lambda>a b. \<not> overlaps a b \<and> (r_start a, r_len a) \<le> (r_start b, r_len b)) ?ss"
    by (simp add: sorted_wrt_iff_nth_less)
  then show "sorted_wrt sep ?ss"
  proof (rule sorted_wrt_mono_rel [rotated])
    fix a b
    assume "a \<in> set ?ss" "b \<in> set ?ss"
      and "\<not> overlaps a b \<and> (r_start a, r_len a) \<le> (r_start b, r_len b)"
    with ok show "sep a b"
      by (auto simp: sep_def overlaps_def less_eq_prod_def split: if_splits)
  qed
qed

end
