(* ===== verification/Verdict.thy ===== *)
theory Verdict
  imports Ranges
begin

text \<open>
  \<open>crates/merge/src/verdict.rs\<close>: the two pure passes of the verdict on one path. Pass one sweeps
  the increment's ranges against the intervening effect ranges; pass two compares the bytes of
  a same-span candidate. The sweep is proved equal to the quadratic comparison of every pair.
\<close>

datatype conflict_class =
    Overlap
  | AnchoredInDelete
  | SamePositionDiffering
  | RenameRename
  | CreateCreate
  | DeleteModify
  | ModifyDelete
  | TypeChanged
  | MetaMeta

datatype verdict = Accept | AcceptIdentical | Conflict conflict_class

datatype path_outcome =
    PathAccept
  | Candidates "range list"
  | PathConflict conflict_class

text \<open>
  The loop of \<open>sweep\<close>: the indices \<open>i\<close> and \<open>j\<close> are the unswept suffixes of the two lists, and the
  accumulator is \<open>candidates\<close>.
\<close>

fun sweep_loop :: "range list \<Rightarrow> range list \<Rightarrow> range list \<Rightarrow> path_outcome" where
  "sweep_loop cands (a # mine) (b # theirs) =
     (if overlaps a b then
        if same_span a b then sweep_loop (cands @ [a]) mine theirs
        else PathConflict (if r_len a = 0 \<or> r_len b = 0 then SamePositionDiffering else Overlap)
      else if range_end a \<le> r_start b then sweep_loop cands mine (b # theirs)
      else sweep_loop cands (a # mine) theirs)"
| "sweep_loop cands mine theirs = (if cands = [] then PathAccept else Candidates cands)"

definition sweep :: "range list \<Rightarrow> range list \<Rightarrow> path_outcome" where
  "sweep mine theirs = sweep_loop [] mine theirs"

definition path_verdict :: "range_set \<Rightarrow> range_set \<Rightarrow> conflict_class option \<Rightarrow> path_outcome" where
  "path_verdict mine theirs structural =
     (case structural of
        Some c \<Rightarrow> PathConflict c
      | None \<Rightarrow>
          if theirs = [] then PathAccept
          else if mine = [] then PathAccept
          else sweep mine theirs)"

definition compare_bytes :: "byte list \<Rightarrow> byte list \<Rightarrow> verdict" where
  "compare_bytes mine theirs = (if mine = theirs then AcceptIdentical else Conflict Overlap)"

definition fast_path :: "nat list \<Rightarrow> nat \<Rightarrow> bool" where
  "fast_path last_changed base = list_all (\<lambda>v. v \<le> base) last_changed"

section \<open>The specification: every pair compared\<close>

text \<open>
  What pass one promises, with no order of traversal in it: accept when no pair meets, hand over
  exactly the spans both sides changed when every meeting pair coincides, and a conflict
  names a meeting pair of different spans.
\<close>

fun verdict_spec :: "range set \<Rightarrow> range set \<Rightarrow> path_outcome \<Rightarrow> bool" where
  "verdict_spec M T PathAccept \<longleftrightarrow> (\<forall>a \<in> M. \<forall>b \<in> T. \<not> overlaps a b)"
| "verdict_spec M T (Candidates cs) \<longleftrightarrow>
     cs \<noteq> [] \<and> set cs = M \<inter> T \<and> (\<forall>a \<in> M. \<forall>b \<in> T. overlaps a b \<longrightarrow> same_span a b)"
| "verdict_spec M T (PathConflict c) \<longleftrightarrow>
     (\<exists>a \<in> M. \<exists>b \<in> T. overlaps a b \<and> \<not> same_span a b \<and>
        c = (if r_len a = 0 \<or> r_len b = 0 then SamePositionDiffering else Overlap))"

text \<open>The same with the spans already handed over: \<open>cands\<close> are those of the parts already swept.\<close>

fun loop_spec :: "range list \<Rightarrow> range set \<Rightarrow> range set \<Rightarrow> path_outcome \<Rightarrow> bool" where
  "loop_spec cands M T (Candidates cs) \<longleftrightarrow>
     cs \<noteq> [] \<and> set cs = set cands \<union> (M \<inter> T) \<and> (\<forall>a \<in> M. \<forall>b \<in> T. overlaps a b \<longrightarrow> same_span a b)"
| "loop_spec cands M T PathAccept \<longleftrightarrow> cands = [] \<and> verdict_spec M T PathAccept"
| "loop_spec cands M T (PathConflict c) \<longleftrightarrow> verdict_spec M T (PathConflict c)"

lemma loop_spec_mine:
  assumes "loop_spec cands M T v" "\<forall>b \<in> T. \<not> overlaps a b" "a \<notin> T"
  shows "loop_spec cands (insert a M) T v"
  using assms by (cases v) auto

lemma loop_spec_theirs:
  assumes "loop_spec cands M T v" "\<forall>a \<in> M. \<not> overlaps a b" "b \<notin> M"
  shows "loop_spec cands M (insert b T) v"
  using assms by (cases v) auto

lemma loop_spec_both:
  assumes "loop_spec (cands @ [a]) M T v" "\<forall>b \<in> T. \<not> overlaps a b" "\<forall>b \<in> M. \<not> overlaps b a"
    and "overlaps a a"
  shows "loop_spec cands (insert a M) (insert a T) v"
  using assms by (cases v) (auto simp: same_span_eq)

lemma sep_all:
  assumes "sep a b" "sorted_wrt sep (b # bs)" "x \<in> set (b # bs)"
  shows "sep a x"
  using assms by (auto intro: sep_trans)

lemma sweep_loop_spec:
  assumes "sorted_wrt sep mine" "sorted_wrt sep theirs"
    and "\<forall>r \<in> set mine. range_ok r" "\<forall>r \<in> set theirs. range_ok r"
  shows "loop_spec cands (set mine) (set theirs) (sweep_loop cands mine theirs)"
  using assms
proof (induction cands mine theirs rule: sweep_loop.induct)
  case (1 cands a mine b theirs)
  have ok: "range_ok a" "range_ok b" using "1.prems" by auto
  have tails: "sorted_wrt sep mine" "sorted_wrt sep theirs" "\<forall>r \<in> set mine. range_ok r"
    "\<forall>r \<in> set theirs. range_ok r" using "1.prems" by auto
  show ?case
  proof (cases "overlaps a b")
    case ov: True
    show ?thesis
    proof (cases "same_span a b")
      case True
      then have ab: "b = a" by (simp add: same_span_eq)
      have th: "\<forall>x \<in> set theirs. \<not> overlaps a x" and "\<forall>x \<in> set mine. \<not> overlaps a x"
        using "1.prems" ab sep_not_overlaps by auto
      then have mi: "\<forall>x \<in> set mine. \<not> overlaps x a" using overlaps_sym by blast
      from loop_spec_both [OF "1.IH"(1) [OF ov True tails] th mi overlaps_same [OF ok(1)]]
      show ?thesis using ov True ab by simp
    next
      case False
      with ov show ?thesis by auto
    qed
  next
    case nov: False
    show ?thesis
    proof (cases "range_end a \<le> r_start b")
      case True
      then have "sep a b" using not_overlaps_before [OF ok nov] by simp
      then have all: "\<forall>x \<in> set (b # theirs). \<not> overlaps a x"
        using sep_all [of a b theirs] sep_not_overlaps [OF ok(1)] "1.prems"(2,4) by blast
      then have "a \<notin> set (b # theirs)" using overlaps_same [OF ok(1)] by blast
      from loop_spec_mine [OF "1.IH"(2) [OF nov True tails(1) "1.prems"(2) tails(3) "1.prems"(4)] all this]
      show ?thesis using nov True by simp
    next
      case False
      then have "sep b a"
        using not_overlaps_before [OF ok nov] not_overlaps_cases [OF ok nov] by simp
      then have all: "\<forall>x \<in> set (a # mine). \<not> overlaps x b"
        using sep_all [of b a mine] sep_not_overlaps [OF ok(2)] "1.prems"(1,3) overlaps_sym by blast
      then have "b \<notin> set (a # mine)" using overlaps_same [OF ok(2)] by blast
      from loop_spec_theirs [OF "1.IH"(3) [OF nov False "1.prems"(1) tails(2) "1.prems"(3) tails(4)] all this]
      show ?thesis using nov False by simp
    qed
  qed
qed auto

lemma sweep_spec:
  assumes "sorted_wrt sep mine" "sorted_wrt sep theirs"
    and "\<forall>r \<in> set mine. range_ok r" "\<forall>r \<in> set theirs. range_ok r"
  shows "verdict_spec (set mine) (set theirs) (sweep mine theirs)"
  using sweep_loop_spec [OF assms, of "[]"]
  by (cases "sweep_loop [] mine theirs") (simp_all add: sweep_def)

section \<open>Properties\<close>

text \<open>
  C13: the verdict on a path is the comparison of every pair of ranges. For two range sets built
  from pairwise separate ranges and no structural conflict, the linear sweep accepts exactly when
  no pair meets, hands over exactly the common spans when all meeting pairs coincide, and a
  conflict it reports names a meeting pair of different spans with that pair's class.
\<close>

theorem path_verdict_correct:
  assumes "\<forall>r \<in> set mine. range_ok r" "sorted_wrt (\<lambda>a b. \<not> overlaps a b) mine"
    and "\<forall>r \<in> set theirs. range_ok r" "sorted_wrt (\<lambda>a b. \<not> overlaps a b) theirs"
  shows "verdict_spec (set mine) (set theirs) (path_verdict (from_ranges mine) (from_ranges theirs) None)"
proof (cases "mine = [] \<or> theirs = []")
  case True
  then show ?thesis by (auto simp: path_verdict_def from_ranges_def split: if_splits)
next
  case False
  then have "from_ranges mine \<noteq> []" "from_ranges theirs \<noteq> []"
    unfolding from_ranges_def using length_sort by (metis length_0_conv)+
  with sweep_spec [OF from_ranges_chain(1) [OF assms(1,2)] from_ranges_chain(1) [OF assms(3,4)]
      from_ranges_chain(2) [OF assms(1,2)] from_ranges_chain(2) [OF assms(3,4)]]
  show ?thesis by (simp add: path_verdict_def from_ranges_chain(3) [OF assms(1,2)] from_ranges_chain(3) [OF assms(3,4)])
qed

lemma path_verdict_correct_witness:
  "verdict_spec {range_new 8 2, range_new 0 3} {range_new 2 4}
     (path_verdict (from_ranges [range_new 8 2, range_new 0 3]) (from_ranges [range_new 2 4]) None)"
  using path_verdict_correct [of "[range_new 8 2, range_new 0 3]" "[range_new 2 4]"]
  by (simp add: u64_max_def overlaps_def range_end_def sat_add_def)

end
