(* ===== verification/Codec.thy ===== *)
theory Codec
  imports Prelude
begin

text \<open>
  The little-endian, length-delimited encoding the merge crate writes and its bounds-checked
  \<open>Reader\<close> (\<open>crates/merge/src/ops_doc.rs\<close>, shared by the ops document, the origin, the increment
  and the IPC metadata). The locale \<open>codec\<close> states what an encoder and its decoder owe each other; the
  loops that read a counted table are verified once inside it.
\<close>

datatype doc_decode_error =
    Truncated
  | BadMagic
  | BadVersion
  | BadKind
  | BadPath
  | TrailingBytes

section \<open>Fixed-width words\<close>

text \<open>\<open>n.to_le_bytes()\<close> for an unsigned integer of \<open>w\<close> bytes, and \<open>from_le_bytes\<close>.\<close>

fun le_bytes :: "nat \<Rightarrow> nat \<Rightarrow> byte list" where
  "le_bytes 0 n = []"
| "le_bytes (Suc w) n = word_of_nat (n mod 256) # le_bytes w (n div 256)"

fun from_le :: "byte list \<Rightarrow> nat" where
  "from_le [] = 0"
| "from_le (b # bs) = unat b + 256 * from_le bs"

lemma length_le_bytes [simp]: "length (le_bytes w n) = w"
  by (induction w arbitrary: n) simp_all

lemma le_bytes_Nil [simp]: "le_bytes w n = [] \<longleftrightarrow> w = 0"
  by (cases w) simp_all

lemma from_le_le_bytes: "from_le (le_bytes w n) = n mod 256 ^ w"
proof (induction w arbitrary: n)
  case (Suc w)
  have "n mod 256 + 256 * (n div 256 mod 256 ^ w) = n mod 256 ^ Suc w"
    by (simp add: mod_mult2_eq)
  with Suc show ?case by (simp add: unat_of_nat)
qed simp

lemma from_le_le_bytes_small [simp]: "n < 256 ^ w \<Longrightarrow> from_le (le_bytes w n) = n"
  by (simp add: from_le_le_bytes)

lemma unat_byte_less: "unat (b :: byte) < 256"
  using unsigned_less [of b] by simp

lemma le_bytes_from_le [simp]: "le_bytes (length bs) (from_le bs) = bs"
proof (induction bs)
  case (Cons b bs)
  have "(unat b + 256 * from_le bs) mod 256 = unat b" "(unat b + 256 * from_le bs) div 256 = from_le bs"
    using unat_byte_less [of b] by simp_all
  with Cons show ?case by simp
qed simp

lemma from_le_less: "from_le bs < 256 ^ length bs"
proof (induction bs)
  case (Cons b bs)
  then show ?case using unat_byte_less [of b] by simp
qed simp

declare le_bytes.simps [simp del]

section \<open>The reader\<close>

record reader =
  rd_bytes :: "byte list"
  rd_at :: nat

definition reader_new :: "byte list \<Rightarrow> reader" where
  "reader_new bs = \<lparr>rd_bytes = bs, rd_at = 0\<rparr>"

definition reader_remaining :: "reader \<Rightarrow> nat" where
  "reader_remaining r = length (rd_bytes r) - rd_at r"

definition reader_is_empty :: "reader \<Rightarrow> bool" where
  "reader_is_empty r \<longleftrightarrow> reader_remaining r = 0"

definition reader_take :: "nat \<Rightarrow> reader \<Rightarrow> doc_decode_error + byte list \<times> reader" where
  "reader_take n r =
     rbind (ok_or (checked_add (rd_at r) n) Truncated) (\<lambda>end.
     rbind (ok_or (slice_get (rd_bytes r) (rd_at r) end) Truncated) (\<lambda>slice.
       Inr (slice, r\<lparr>rd_at := end\<rparr>)))"

text \<open>\<open>reader.u8()\<close>, \<open>u16()\<close>, \<open>u32()\<close>, \<open>u64()\<close>: the next \<open>size_of\<close> bytes, little-endian.\<close>

definition reader_u8 :: "reader \<Rightarrow> doc_decode_error + byte \<times> reader" where
  "reader_u8 r =
     rbind (reader_take 1 r) (\<lambda>(b, r).
     rbind (ok_or (list_get b 0) Truncated) (\<lambda>x. Inr (x, r)))"

definition reader_u16 :: "reader \<Rightarrow> doc_decode_error + nat \<times> reader" where
  "reader_u16 r = rbind (reader_take 2 r) (\<lambda>(b, r). Inr (from_le b, r))"

definition reader_u32 :: "reader \<Rightarrow> doc_decode_error + nat \<times> reader" where
  "reader_u32 r = rbind (reader_take 4 r) (\<lambda>(b, r). Inr (from_le b, r))"

definition reader_u64 :: "reader \<Rightarrow> doc_decode_error + nat \<times> reader" where
  "reader_u64 r = rbind (reader_take 8 r) (\<lambda>(b, r). Inr (from_le b, r))"

text \<open>\<open>for _ in 0..n { out.push(dec(reader)?) }\<close>.\<close>

fun read_n :: "(reader \<Rightarrow> 'e + 'a \<times> reader) \<Rightarrow> nat \<Rightarrow> reader \<Rightarrow> 'e + 'a list \<times> reader" where
  "read_n dec 0 r = Inr ([], r)"
| "read_n dec (Suc n) r =
     rbind (dec r) (\<lambda>(a, r). rbind (read_n dec n r) (\<lambda>(as, r). Inr (a # as, r)))"

section \<open>What a reader has in front of it\<close>

definition rd_rest :: "reader \<Rightarrow> byte list" where
  "rd_rest r = drop (rd_at r) (rd_bytes r)"

definition rd_skip :: "nat \<Rightarrow> reader \<Rightarrow> reader" where
  "rd_skip n r = r\<lparr>rd_at := rd_at r + n\<rparr>"

text \<open>A buffer a 64-bit machine can hold, and a cursor inside it.\<close>

definition reader_ok :: "reader \<Rightarrow> bool" where
  "reader_ok r \<longleftrightarrow> length (rd_bytes r) \<le> u64_max \<and> rd_at r \<le> length (rd_bytes r)"

text \<open>The bytes \<open>bs\<close> are next.\<close>

definition reads :: "reader \<Rightarrow> byte list \<Rightarrow> bool" where
  "reads r bs \<longleftrightarrow> reader_ok r \<and> take (length bs) (rd_rest r) = bs"

lemma skip_0 [simp]: "rd_skip 0 r = r"
  by (simp add: rd_skip_def)

lemma skip_skip [simp]: "rd_skip m (rd_skip n r) = rd_skip (n + m) r"
  by (simp add: rd_skip_def add.assoc)

lemma rest_skip [simp]: "rd_rest (rd_skip n r) = drop n (rd_rest r)"
  by (simp add: rd_rest_def rd_skip_def add.commute)

lemma remaining_rest: "reader_remaining r = length (rd_rest r)"
  by (simp add: reader_remaining_def rd_rest_def)

lemma is_empty_rest [simp]: "reader_is_empty r \<longleftrightarrow> rd_rest r = []"
  by (simp add: reader_is_empty_def remaining_rest)

lemma reader_ok_skip [simp]: "reader_ok r \<Longrightarrow> n \<le> length (rd_rest r) \<Longrightarrow> reader_ok (rd_skip n r)"
  by (auto simp: reader_ok_def rd_skip_def rd_rest_def)

lemma reader_ok_new [simp]: "reader_ok (reader_new bs) \<longleftrightarrow> length bs \<le> u64_max"
  by (simp add: reader_ok_def reader_new_def)

lemma rest_new [simp]: "rd_rest (reader_new bs) = bs"
  by (simp add: rd_rest_def reader_new_def)

lemma reads_length: "reads r bs \<Longrightarrow> length bs \<le> length (rd_rest r)"
proof -
  assume "reads r bs"
  then have "length (take (length bs) (rd_rest r)) = length bs" by (simp add: reads_def)
  then show ?thesis by simp
qed

lemma reads_append [simp]: "reads r (xs @ ys) \<longleftrightarrow> reads r xs \<and> reads (rd_skip (length xs) r) ys"
proof
  assume a: "reads r (xs @ ys)"
  then have eq: "take (length xs + length ys) (rd_rest r) = xs @ ys" and ok: "reader_ok r"
    by (simp_all add: reads_def)
  have len: "length xs \<le> length (rd_rest r)"
    using reads_length [OF a] by simp
  have "take (length xs) (rd_rest r) @ take (length ys) (drop (length xs) (rd_rest r)) = xs @ ys"
    using eq by (simp add: take_add)
  then have "take (length xs) (rd_rest r) = xs" "take (length ys) (drop (length xs) (rd_rest r)) = ys"
    using len by (simp_all add: append_eq_append_conv)
  with ok len show "reads r xs \<and> reads (rd_skip (length xs) r) ys"
    by (simp add: reads_def)
next
  assume "reads r xs \<and> reads (rd_skip (length xs) r) ys"
  then show "reads r (xs @ ys)"
    by (simp add: reads_def take_add)
qed

lemma reads_Cons [simp]: "xs \<noteq> [] \<Longrightarrow> reads r (x # xs) \<longleftrightarrow> reads r [x] \<and> reads (rd_skip 1 r) xs"
  using reads_append [of r "[x]" xs] by simp

lemma reads_Nil [simp]: "reads r [] \<longleftrightarrow> reader_ok r"
  by (simp add: reads_def)

lemma reads_new: "length (xs @ ys) \<le> u64_max \<Longrightarrow> reads (reader_new (xs @ ys)) xs"
  by (simp add: reads_def)

lemma reads_okD: "reads r bs \<Longrightarrow> reader_ok r"
  by (simp add: reads_def)

lemma reads_ok_skip: "reads r bs \<Longrightarrow> reader_ok (rd_skip (length bs) r)"
  using reads_length reads_okD by auto

lemma reader_take_eq:
  assumes "reader_ok r"
  shows "reader_take n r =
    (if n \<le> length (rd_rest r) then Inr (take n (rd_rest r), rd_skip n r) else Inl Truncated)"
proof (cases "n \<le> length (rd_rest r)")
  case True
  with assms have "rd_at r + n \<le> length (rd_bytes r)" "rd_at r + n \<le> u64_max"
    by (auto simp: reader_ok_def rd_rest_def)
  with True show ?thesis
    by (simp add: reader_take_def checked_add_def slice_get_def rd_rest_def rd_skip_def)
next
  case False
  with assms have "\<not> rd_at r + n \<le> length (rd_bytes r)"
    by (auto simp: reader_ok_def rd_rest_def)
  with False show ?thesis
    by (simp add: reader_take_def checked_add_def slice_get_def)
qed

lemma reader_take_reads [codec]:
  "reads r bs \<Longrightarrow> n = length bs \<Longrightarrow> reader_take n r = Inr (bs, rd_skip n r)"
  using reads_length [of r bs] by (simp add: reader_take_eq reads_def)

lemma reader_take_Inr:
  assumes "reader_ok r" "reader_take n r = Inr (bs, r')"
  shows "reads r bs" "length bs = n" "r' = rd_skip n r"
  using assms by (auto simp: reader_take_eq reads_def split: if_splits)

lemma take_exactE:
  assumes "rbind (reader_take n r) f = Inr x" "reader_ok r"
  obtains bs where "reads r bs" "length bs = n" "reader_ok (rd_skip n r)" "f (bs, rd_skip n r) = Inr x"
proof -
  from assms(1) obtain bs r' where t: "reader_take n r = Inr (bs, r')" and f: "f (bs, r') = Inr x"
    by (auto simp: rbind_Inr_iff)
  from reader_take_Inr [OF assms(2) t] f show ?thesis
    using reads_ok_skip by (intro that [of bs]) auto
qed

section \<open>The contract of a codec\<close>

text \<open>
  \<open>dec\<close> reads back what \<open>enc\<close> wrote and stops right behind it. An \<open>exact_codec\<close> accepts nothing
  else: what it decodes is the encoding of the value it returns.
\<close>

locale codec =
  fixes enc :: "'a \<Rightarrow> byte list"
    and dec :: "reader \<Rightarrow> doc_decode_error + 'a \<times> reader"
    and ok :: "'a \<Rightarrow> bool"
  assumes dec_enc: "ok a \<Longrightarrow> reads r (enc a) \<Longrightarrow> dec r = Inr (a, rd_skip (length (enc a)) r)"
begin

lemma read_n_enc:
  "list_all ok as \<Longrightarrow> reads r (concat (map enc as)) \<Longrightarrow>
    read_n dec (length as) r = Inr (as, rd_skip (length (concat (map enc as))) r)"
proof (induction as arbitrary: r)
  case (Cons a as)
  then have "dec r = Inr (a, rd_skip (length (enc a)) r)" by (simp add: dec_enc)
  moreover have "reads (rd_skip (length (enc a)) r) (concat (map enc as))" using Cons.prems by simp
  ultimately show ?case using Cons by simp
qed simp

end

locale exact_codec = codec +
  assumes dec_exact: "reader_ok r \<Longrightarrow> dec r = Inr (a, r') \<Longrightarrow>
    ok a \<and> reads r (enc a) \<and> r' = rd_skip (length (enc a)) r"
begin

lemma bind_exactE:
  assumes "rbind (dec r) f = Inr x" "reader_ok r"
  obtains a where "ok a" "reads r (enc a)" "reader_ok (rd_skip (length (enc a)) r)"
    "f (a, rd_skip (length (enc a)) r) = Inr x"
proof -
  from assms(1) obtain a r' where d: "dec r = Inr (a, r')" and f: "f (a, r') = Inr x"
    by (auto simp: rbind_Inr_iff)
  from dec_exact [OF assms(2) d] f show ?thesis
    using reads_ok_skip by (intro that [of a]) auto
qed

lemma read_n_exact:
  "reader_ok r \<Longrightarrow> read_n dec n r = Inr (as, r') \<Longrightarrow>
    length as = n \<and> list_all ok as \<and> reads r (concat (map enc as))
    \<and> r' = rd_skip (length (concat (map enc as))) r"
proof (induction n arbitrary: r as r')
  case (Suc n)
  then obtain a r1 bs where a: "dec r = Inr (a, r1)" and bs: "read_n dec n r1 = Inr (bs, r')"
    and as: "as = a # bs"
    by (auto simp: rbind_Inr_iff)
  have d: "ok a" "reads r (enc a)" "r1 = rd_skip (length (enc a)) r"
    using dec_exact [OF Suc.prems(1) a] by auto
  have "reader_ok r1" using d reads_ok_skip by simp
  from Suc.IH [OF this bs] d as show ?case by simp
qed simp

end

section \<open>The primitive fields\<close>

lemma reader_u16_reads [codec]: "reads r (le_bytes 2 n) \<Longrightarrow> n \<le> u16_max \<Longrightarrow> reader_u16 r = Inr (n, rd_skip 2 r)"
  using reader_take_reads [of r "le_bytes 2 n" 2]
  by (simp add: reader_u16_def u16_max_def)

lemma reader_u32_reads [codec]: "reads r (le_bytes 4 n) \<Longrightarrow> n \<le> u32_max \<Longrightarrow> reader_u32 r = Inr (n, rd_skip 4 r)"
  using reader_take_reads [of r "le_bytes 4 n" 4]
  by (simp add: reader_u32_def u32_max_def)

lemma reader_u64_reads [codec]: "reads r (le_bytes 8 n) \<Longrightarrow> n \<le> u64_max \<Longrightarrow> reader_u64 r = Inr (n, rd_skip 8 r)"
  using reader_take_reads [of r "le_bytes 8 n" 8]
  by (simp add: reader_u64_def u64_max_def)

lemma reader_u8_reads [codec]: "reads r [b] \<Longrightarrow> reader_u8 r = Inr (b, rd_skip 1 r)"
  using reader_take_reads [of r "[b]" 1] by (simp add: reader_u8_def list_get_def)

lemma reader_u8_Inr:
  assumes "reader_ok r" "reader_u8 r = Inr (b, r')"
  shows "reads r [b] \<and> r' = rd_skip 1 r"
proof -
  from assms(2) obtain bs r1 where t: "reader_take 1 r = Inr (bs, r1)" and b: "list_get bs 0 = Some b"
    and r': "r' = r1"
    by (auto simp: reader_u8_def rbind_Inr_iff)
  from reader_take_Inr [OF assms(1) t] have bs: "reads r bs" "length bs = 1" "r1 = rd_skip 1 r" by auto
  then obtain c where "bs = [c]" by (cases bs) auto
  with b bs r' show ?thesis by (simp add: list_get_def)
qed

lemma le_field_Inr:
  assumes "reader_ok r" "rbind (reader_take w r) (\<lambda>(b, r). Inr (from_le b, r)) = Inr (n, r')"
  shows "n < 256 ^ w \<and> reads r (le_bytes w n) \<and> r' = rd_skip w r"
proof -
  from assms(2) obtain bs where t: "reader_take w r = Inr (bs, r')" and n: "n = from_le bs"
    by (auto simp: rbind_Inr_iff)
  from reader_take_Inr [OF assms(1) t] n show ?thesis
    using from_le_less [of bs] by (metis le_bytes_from_le)
qed

interpretation u8c: exact_codec "\<lambda>b. [b]" reader_u8 "\<lambda>_. True"
  by unfold_locales (auto simp: reader_u8_reads dest: reader_u8_Inr)

interpretation u16c: exact_codec "le_bytes 2" reader_u16 "\<lambda>n. n \<le> u16_max"
proof unfold_locales
  fix r r' and a :: nat
  assume "reader_ok r" "reader_u16 r = Inr (a, r')"
  from le_field_Inr [OF this(1) this(2) [unfolded reader_u16_def]]
  show "a \<le> u16_max \<and> reads r (le_bytes 2 a) \<and> r' = rd_skip (length (le_bytes 2 a)) r"
    by (simp add: u16_max_def)
qed (simp add: reader_u16_reads)

interpretation u32c: exact_codec "le_bytes 4" reader_u32 "\<lambda>n. n \<le> u32_max"
proof unfold_locales
  fix r r' and a :: nat
  assume "reader_ok r" "reader_u32 r = Inr (a, r')"
  from le_field_Inr [OF this(1) this(2) [unfolded reader_u32_def]]
  show "a \<le> u32_max \<and> reads r (le_bytes 4 a) \<and> r' = rd_skip (length (le_bytes 4 a)) r"
    by (simp add: u32_max_def)
qed (simp add: reader_u32_reads)

interpretation u64c: exact_codec "le_bytes 8" reader_u64 "\<lambda>n. n \<le> u64_max"
proof unfold_locales
  fix r r' and a :: nat
  assume "reader_ok r" "reader_u64 r = Inr (a, r')"
  from le_field_Inr [OF this(1) this(2) [unfolded reader_u64_def]]
  show "a \<le> u64_max \<and> reads r (le_bytes 8 a) \<and> r' = rd_skip (length (le_bytes 8 a)) r"
    by (simp add: u64_max_def)
qed (simp add: reader_u64_reads)

end
