(* ===== verification/Ops_Doc.thy ===== *)
theory Ops_Doc
  imports Codec
begin

text \<open>
  \<open>crates/merge/src/ops_doc.rs\<close>: the operation kinds and records, the interned path table, the
  canonical order of a document, and its encoding. Shown here: the document round-trips through
  its bytes, and canonicalizing keeps what every operation names while erasing the order in
  which operations and paths were declared.
\<close>

section \<open>Operations\<close>

datatype opkind =
    KOverwrite
  | KExtend
  | KTruncate
  | KInsert
  | KDelete
  | KCreate
  | KUnlink
  | KMkdir
  | KRmdir
  | KRename
  | KLink
  | KSymlink
  | KSetMode
  | KSetXattr
  | KRemoveXattr
  | KMknod

fun to_wire :: "opkind \<Rightarrow> nat" where
  "to_wire KOverwrite = 0"
| "to_wire KExtend = 1"
| "to_wire KTruncate = 2"
| "to_wire KInsert = 3"
| "to_wire KDelete = 4"
| "to_wire KCreate = 5"
| "to_wire KUnlink = 6"
| "to_wire KMkdir = 7"
| "to_wire KRmdir = 8"
| "to_wire KRename = 9"
| "to_wire KLink = 10"
| "to_wire KSymlink = 11"
| "to_wire KSetMode = 12"
| "to_wire KSetXattr = 13"
| "to_wire KRemoveXattr = 14"
| "to_wire KMknod = 15"

definition all_kinds :: "opkind list" where
  "all_kinds = [KOverwrite, KExtend, KTruncate, KInsert, KDelete, KCreate, KUnlink, KMkdir,
     KRmdir, KRename, KLink, KSymlink, KSetMode, KSetXattr, KRemoveXattr, KMknod]"

definition from_wire :: "nat \<Rightarrow> opkind option" where
  "from_wire value = find (\<lambda>k. to_wire k = value) all_kinds"

record op =
  op_kind :: opkind
  op_flags :: byte
  op_path :: nat
  op_at :: nat
  op_len :: nat
  op_src :: nat

section \<open>The path table\<close>

type_synonym path_table = "path list"

definition intern :: "path \<Rightarrow> path_table \<Rightarrow> nat \<times> path_table" where
  "intern p t =
     (case position (\<lambda>q. q = p) t of
        Some i \<Rightarrow> (to_u16 i, t)
      | None \<Rightarrow> (to_u16 (length t), t @ [p]))"

text \<open>\<open>for name in names { paths.intern(name); }\<close>.\<close>

definition intern_all :: "path list \<Rightarrow> path_table \<Rightarrow> path_table" where
  "intern_all ps t = foldl (\<lambda>t p. snd (intern p t)) t ps"

definition sort_and_remap :: "path_table \<Rightarrow> path_table \<times> nat list" where
  "sort_and_remap t =
     (let order = sort_key snd (enumerate 0 t);
          new_index = fold (\<lambda>(new, (old, _)) v. if old < length v then v[old := to_u16 new] else v)
            (enumerate 0 order) (replicate (length order) 0)
      in (map snd order, new_index))"

definition path_at :: "path_table \<Rightarrow> nat \<Rightarrow> path option" where
  "path_at t i = list_get t i"

section \<open>The document\<close>

record ops_doc =
  doc_paths :: path_table
  doc_ops :: "op list"

definition doc_new :: ops_doc where
  "doc_new = \<lparr>doc_paths = [], doc_ops = []\<rparr>"

definition remap_index :: "nat list \<Rightarrow> nat \<Rightarrow> nat" where
  "remap_index remap i = (case list_get remap i of None \<Rightarrow> u64_max | Some j \<Rightarrow> j)"

definition remap_op :: "nat list \<Rightarrow> op \<Rightarrow> op" where
  "remap_op remap p =
     (let p = (if op_kind p \<in> {KRename, KLink, KSymlink}
               then p\<lparr>op_src := remap_index remap (op_src p)\<rparr> else p);
          p = (if op_kind p \<in> {KSetXattr, KRemoveXattr}
               then p\<lparr>op_at := remap_index remap (op_at p)\<rparr> else p)
      in case list_get remap (op_path p) of None \<Rightarrow> p | Some j \<Rightarrow> p\<lparr>op_path := j\<rparr>)"

definition op_key :: "op \<Rightarrow> nat \<times> nat \<times> nat" where
  "op_key p = (op_path p, op_at p, to_wire (op_kind p))"

definition canonicalize :: "ops_doc \<Rightarrow> ops_doc" where
  "canonicalize d =
     (let (paths, remap) = sort_and_remap (doc_paths d)
      in \<lparr>doc_paths = paths, doc_ops = sort_key op_key (map (remap_op remap) (doc_ops d))\<rparr>)"

definition doc_magic :: nat where
  "doc_magic = 0x444f4c53"

definition doc_version :: nat where
  "doc_version = 1"

definition encode_path :: "path \<Rightarrow> byte list" where
  "encode_path p = le_bytes 4 (to_u32 (length p)) @ as_bytes p"

definition encode_op :: "op \<Rightarrow> byte list" where
  "encode_op p =
     [word_of_nat (to_wire (op_kind p))] @ [op_flags p] @ le_bytes 2 (op_path p)
     @ le_bytes 8 (op_at p) @ le_bytes 8 (op_len p) @ le_bytes 8 (op_src p)"

definition encode :: "ops_doc \<Rightarrow> byte list" where
  "encode d =
     le_bytes 4 doc_magic @ le_bytes 4 doc_version
     @ le_bytes 4 (to_u32 (length (doc_paths d))) @ le_bytes 4 (to_u32 (length (doc_ops d)))
     @ concat (map encode_path (doc_paths d)) @ concat (map encode_op (doc_ops d))"

definition path_min_bytes :: nat where
  "path_min_bytes = 4"

definition op_bytes :: nat where
  "op_bytes = 1 + 1 + 2 + 8 + 8 + 8"

definition decode_path :: "reader \<Rightarrow> doc_decode_error + path \<times> reader" where
  "decode_path r =
     rbind (reader_u32 r) (\<lambda>(len, r).
     rbind (reader_take len r) (\<lambda>(raw, r).
     rbind (ok_or (from_utf8 raw) BadPath) (\<lambda>p. Inr (p, r))))"

definition decode_op :: "reader \<Rightarrow> doc_decode_error + op \<times> reader" where
  "decode_op r =
     rbind (reader_u8 r) (\<lambda>(k, r).
     rbind (ok_or (from_wire (unat k)) BadKind) (\<lambda>kind.
     rbind (reader_u8 r) (\<lambda>(flags, r).
     rbind (reader_u16 r) (\<lambda>(path, r).
     rbind (reader_u64 r) (\<lambda>(at, r).
     rbind (reader_u64 r) (\<lambda>(len, r).
     rbind (reader_u64 r) (\<lambda>(src, r).
       Inr (\<lparr>op_kind = kind, op_flags = flags, op_path = path, op_at = at, op_len = len,
             op_src = src\<rparr>, r))))))))"

definition decode :: "byte list \<Rightarrow> doc_decode_error + ops_doc" where
  "decode bytes =
     rbind (reader_u32 (reader_new bytes)) (\<lambda>(magic, r).
     if magic \<noteq> doc_magic then Inl BadMagic else
     rbind (reader_u32 r) (\<lambda>(version, r).
     if version \<noteq> doc_version then Inl BadVersion else
     rbind (reader_u32 r) (\<lambda>(path_count, r).
     rbind (reader_u32 r) (\<lambda>(op_count, r).
     if path_count > reader_remaining r div path_min_bytes then Inl Truncated else
     rbind (read_n decode_path path_count r) (\<lambda>(paths, r).
     if op_count > reader_remaining r div op_bytes then Inl Truncated else
     rbind (read_n decode_op op_count r) (\<lambda>(ops, r).
     if \<not> reader_is_empty r then Inl TrailingBytes else
       Inr \<lparr>doc_paths = intern_all paths [], doc_ops = ops\<rparr>))))))"

section \<open>The wire kinds\<close>

lemma from_wire_to_wire [simp]: "from_wire (to_wire k) = Some k"
  by (cases k) (simp_all add: from_wire_def all_kinds_def)

lemma to_wire_less: "to_wire k < 16"
  by (cases k) simp_all

lemma to_wire_inj: "to_wire j = to_wire k \<longleftrightarrow> j = k"
  by (metis from_wire_to_wire option.inject)

lemma from_wire_Some: "from_wire v = Some k \<Longrightarrow> v = to_wire k"
  by (auto simp: from_wire_def find_Some_iff)

lemma unat_wire [simp]: "unat (word_of_nat (to_wire k) :: byte) = to_wire k"
  using to_wire_less [of k] by (simp add: unat_of_nat)

lemma from_wire_unat: "from_wire (unat b) = Some k \<Longrightarrow> b = (word_of_nat (to_wire k) :: byte)"
proof -
  assume "from_wire (unat b) = Some k"
  then have "unat b = to_wire k" by (rule from_wire_Some)
  then show ?thesis by (simp add: word_unat_eq_iff)
qed

section \<open>The entries round-trip\<close>

definition path_ok :: "path \<Rightarrow> bool" where
  "path_ok p \<longleftrightarrow> str_ok p \<and> length p \<le> u32_max"

text \<open>The widths of an \<open>Op\<close>'s fields.\<close>

definition op_ok :: "op \<Rightarrow> bool" where
  "op_ok p \<longleftrightarrow> op_path p \<le> u16_max \<and> op_at p \<le> u64_max \<and> op_len p \<le> u64_max \<and> op_src p \<le> u64_max"

lemma reader_take_all: "reads r bs \<Longrightarrow> length bs = n \<Longrightarrow> reader_take n r = Inr (bs, rd_skip n r)"
  using reader_take_reads by blast

lemmas field_reads = reader_u8_reads reader_u16_reads reader_u32_reads reader_u64_reads
lemmas field_exactE = take_exactE u8c.bind_exactE u16c.bind_exactE u32c.bind_exactE u64c.bind_exactE

interpretation pathc: exact_codec encode_path decode_path path_ok
proof unfold_locales
  fix p r
  assume p: "path_ok p" and "reads r (encode_path p)"
  then have "reader_u32 r = Inr (length p, rd_skip 4 r)"
    "reader_take (length p) (rd_skip 4 r) = Inr (as_bytes p, rd_skip (length p) (rd_skip 4 r))"
    by (simp_all add: encode_path_def path_ok_def reader_u32_reads reader_take_all del: skip_skip)
  with p show "decode_path r = Inr (p, rd_skip (length (encode_path p)) r)"
    by (simp add: decode_path_def encode_path_def path_ok_def)
next
  fix p r r'
  assume "reader_ok r" "decode_path r = Inr (p, r')"
  then show "path_ok p \<and> reads r (encode_path p) \<and> r' = rd_skip (length (encode_path p)) r"
    unfolding decode_path_def
    by (auto elim!: field_exactE simp: from_utf8_Some encode_path_def path_ok_def)
qed

interpretation opc: exact_codec encode_op decode_op op_ok
proof unfold_locales
  fix p r
  assume "op_ok p" "reads r (encode_op p)"
  then show "decode_op r = Inr (p, rd_skip (length (encode_op p)) r)"
    by (auto simp: decode_op_def encode_op_def op_ok_def dest!: field_reads)
next
  fix p r r'
  assume "reader_ok r" "decode_op r = Inr (p, r')"
  then show "op_ok p \<and> reads r (encode_op p) \<and> r' = rd_skip (length (encode_op p)) r"
    unfolding decode_op_def
    by (auto elim!: field_exactE dest!: from_wire_unat simp: op_ok_def encode_op_def)
qed

section \<open>The document round-trips\<close>

text \<open>
  What the type guarantees of a document: the table is built by interning, so its paths are
  distinct; the counts and lengths fit the widths they are written in.
\<close>

definition doc_ok :: "ops_doc \<Rightarrow> bool" where
  "doc_ok d \<longleftrightarrow> distinct (doc_paths d) \<and> list_all path_ok (doc_paths d) \<and> list_all op_ok (doc_ops d)
     \<and> length (doc_paths d) \<le> u32_max \<and> length (doc_ops d) \<le> u32_max"

lemma intern_all_distinct:
  "distinct (t @ ps) \<Longrightarrow> intern_all ps t = t @ ps"
proof (induction ps arbitrary: t)
  case (Cons p ps)
  then have "position (\<lambda>q. q = p) t = None" by (auto simp: position_None)
  with Cons show ?case by (simp add: intern_all_def intern_def)
qed (simp add: intern_all_def)

lemma length_encode_op [simp]: "length (encode_op p) = op_bytes"
  by (simp add: encode_op_def op_bytes_def)

lemma length_concat_ops: "length (concat (map encode_op ops)) = op_bytes * length ops"
  by (induction ops) simp_all

lemma length_concat_paths: "path_min_bytes * length ps \<le> length (concat (map encode_path ps))"
  by (induction ps) (simp_all add: encode_path_def path_min_bytes_def)

lemma decode_encode:
  assumes "doc_ok d" "length (encode d) \<le> u64_max"
  shows "decode (encode d) = Inr d"
proof -
  let ?ps = "doc_paths d" and ?ops = "doc_ops d" and ?r = "reader_new (encode d)"
  let ?P = "concat (map encode_path ?ps)" and ?O = "concat (map encode_op ?ops)"
  have "reads ?r (encode d)" using assms(2) reads_new [of "encode d" "[]"] by simp
  then have r: "reads ?r (le_bytes 4 doc_magic)" "reads (rd_skip 4 ?r) (le_bytes 4 doc_version)"
      "reads (rd_skip 8 ?r) (le_bytes 4 (length ?ps))" "reads (rd_skip 12 ?r) (le_bytes 4 (length ?ops))"
      "reads (rd_skip 16 ?r) ?P" "reads (rd_skip (16 + length ?P) ?r) ?O"
    using assms(1) by (simp_all add: encode_def doc_ok_def)
  have rd_rest: "rd_rest ?r = encode d" by simp
  have small: "doc_magic \<le> u32_max" "doc_version \<le> u32_max" "length ?ps \<le> u32_max" "length ?ops \<le> u32_max"
    using assms(1) by (simp_all add: doc_magic_def doc_version_def u32_max_def doc_ok_def)
  have fields: "reader_u32 ?r = Inr (doc_magic, rd_skip 4 ?r)"
      "reader_u32 (rd_skip 4 ?r) = Inr (doc_version, rd_skip 8 ?r)"
      "reader_u32 (rd_skip 8 ?r) = Inr (length ?ps, rd_skip 12 ?r)"
      "reader_u32 (rd_skip 12 ?r) = Inr (length ?ops, rd_skip 16 ?r)"
    using r small by (simp_all add: reader_u32_reads)
  have ps: "read_n decode_path (length ?ps) (rd_skip 16 ?r) = Inr (?ps, rd_skip (16 + length ?P) ?r)"
    using pathc.read_n_enc [OF _ r(5)] assms(1) by (simp add: doc_ok_def)
  have ops: "read_n decode_op (length ?ops) (rd_skip (16 + length ?P) ?r)
      = Inr (?ops, rd_skip (16 + length ?P + length ?O) ?r)"
    using opc.read_n_enc [OF _ r(6)] assms(1) by (simp add: doc_ok_def)
  have len: "length (encode d) = 16 + length ?P + length ?O" by (simp add: encode_def)
  have c1: "\<not> length ?ps > reader_remaining (rd_skip 16 ?r) div path_min_bytes"
    using length_concat_paths [of ?ps]
    by (simp add: remaining_rest len path_min_bytes_def)
  have c2: "\<not> length ?ops > reader_remaining (rd_skip (16 + length ?P) ?r) div op_bytes"
    by (simp add: remaining_rest len length_concat_ops op_bytes_def)
  have e: "reader_is_empty (rd_skip (16 + length ?P + length ?O) ?r)"
    by (simp add: len)
  have t: "intern_all ?ps [] = ?ps" using assms(1) by (simp add: intern_all_distinct doc_ok_def)
  show ?thesis
    using c1 c2 e t by (simp add: decode_def fields ps ops del: is_empty_rest)
qed

section \<open>Canonical order\<close>

lemma fold_index:
  assumes "distinct (map fst xs)" "\<forall>x \<in> set xs. fst x < length v" "k < length xs"
  shows "fold (\<lambda>(new, (old, _)) v. if old < length v then v[old := to_u16 new] else v) (enumerate m xs) v
           ! fst (xs ! k) = to_u16 (m + k)"
    (is "fold ?f (enumerate m xs) v ! _ = _")
proof -
  have keep: "j \<notin> fst ` set ys \<Longrightarrow> fold ?f (enumerate m ys) v ! j = v ! j" for j ys m and v :: "nat list"
    by (induction ys arbitrary: m v) auto
  have len: "length (fold ?f (enumerate m ys) v) = length v" for ys m and v :: "nat list"
    by (induction ys arbitrary: m v) auto
  show ?thesis
    using assms
  proof (induction xs arbitrary: m v k)
    case (Cons x xs)
    obtain old q where x: "x = (old, q)" by force
    show ?case
    proof (cases k)
      case 0
      with Cons.prems x show ?thesis by (simp add: keep)
    next
      case (Suc j)
      with Cons.prems x have "fold ?f (enumerate (Suc m) xs) (v[old := to_u16 m]) ! fst (xs ! j) = to_u16 (Suc m + j)"
        by (intro Cons.IH) auto
      with Suc Cons.prems x show ?thesis by simp
    qed
  qed simp
qed

text \<open>The remap names, for each old index, where its path went.\<close>

lemma sort_and_remap_spec:
  assumes "length t \<le> Suc u16_max"
  shows "fst (sort_and_remap t) = sort t" (is ?paths)
    and "length (snd (sort_and_remap t)) = length t" (is ?len)
    and "i < length t \<Longrightarrow> snd (sort_and_remap t) ! i < length t \<and> sort t ! (snd (sort_and_remap t) ! i) = t ! i"
proof -
  define order where "order = sort_key snd (enumerate 0 t)"
  let ?f = "\<lambda>(new, (old, _ :: path)) v. if old < length v then v[old := to_u16 new] else v"
  have remap: "snd (sort_and_remap t) = fold ?f (enumerate 0 order) (replicate (length order) 0)"
    by (simp add: sort_and_remap_def order_def Let_def)
  have mo: "mset order = mset (enumerate 0 t)" by (simp add: order_def)
  have lo: "length order = length t" by (metis mo size_mset length_enumerate)
  have "mset (map snd order) = mset t"
    using mo by (metis map_snd_enumerate mset_map)
  moreover have "sorted (map snd order)" by (simp add: order_def)
  ultimately have paths: "sort t = map snd order" by (rule properties_for_sort)
  then show ?paths by (simp add: sort_and_remap_def order_def Let_def)
  have len: "length (fold ?f (enumerate m ys) v) = length v" for ys m and v :: "nat list"
    by (induction ys arbitrary: m v) auto
  then show ?len by (simp add: remap lo)
  have "mset (map fst order) = mset [0..<length t]"
    using mo by (metis map_fst_enumerate add_0 mset_map)
  then have dist: "distinct (map fst order)" and dom: "fst ` set order = {0..<length t}"
    by (metis distinct_upt mset_eq_imp_distinct_iff, metis atLeastLessThan_upt list.set_map mset_eq_setD)
  have range: "\<forall>x \<in> set order. fst x < length t" using dom by force
  assume i: "i < length t"
  then have "i \<in> fst ` set order" using dom by simp
  then obtain k where k: "k < length order" "fst (order ! k) = i" by (auto simp: in_set_conv_nth)
  have ok: "order ! k \<in> set (enumerate 0 t)"
    using k mo by (metis nth_mem mset_eq_setD)
  then have ti: "snd (order ! k) = t ! i"
    using k by (auto simp: in_set_enumerate_eq)
  have "snd (sort_and_remap t) ! i = to_u16 k"
    using fold_index [of order "replicate (length order) 0" k 0] dist range k lo
    by (simp add: remap)
  moreover have "to_u16 k = k" using k lo assms by simp
  ultimately show "snd (sort_and_remap t) ! i < length t \<and> sort t ! (snd (sort_and_remap t) ! i) = t ! i"
    using k lo ti paths by simp
qed

text \<open>What an operation names, with the table looked up: the meaning canonicalizing must keep.\<close>

datatype field = Num nat | Name "path option"

type_synonym named_op = "opkind \<times> byte \<times> path option \<times> field \<times> nat \<times> field"

definition named :: "path_table \<Rightarrow> op \<Rightarrow> named_op" where
  "named t p =
     (op_kind p, op_flags p, path_at t (op_path p),
      if op_kind p \<in> {KSetXattr, KRemoveXattr} then Name (path_at t (op_at p)) else Num (op_at p),
      op_len p,
      if op_kind p \<in> {KRename, KLink, KSymlink} then Name (path_at t (op_src p)) else Num (op_src p))"

text \<open>Every index an operation carries lies in the table, as interning returns them.\<close>

definition indexed :: "path_table \<Rightarrow> op \<Rightarrow> bool" where
  "indexed t p \<longleftrightarrow> op_path p < length t
     \<and> (op_kind p \<in> {KSetXattr, KRemoveXattr} \<longrightarrow> op_at p < length t)
     \<and> (op_kind p \<in> {KRename, KLink, KSymlink} \<longrightarrow> op_src p < length t)"

definition doc_indexed :: "ops_doc \<Rightarrow> bool" where
  "doc_indexed d \<longleftrightarrow> distinct (doc_paths d) \<and> length (doc_paths d) \<le> Suc u16_max
     \<and> list_all (indexed (doc_paths d)) (doc_ops d)"

lemma remap_op_named:
  assumes "length t \<le> Suc u16_max" "indexed t p"
  shows "named (sort t) (remap_op (snd (sort_and_remap t)) p) = named t p"
    and "indexed (sort t) (remap_op (snd (sort_and_remap t)) p)"
  using assms sort_and_remap_spec [OF assms(1)]
  by (auto simp: named_def indexed_def remap_op_def remap_index_def path_at_def list_get_def Let_def)

text \<open>In a table of distinct paths an operation is determined by what it names.\<close>

lemma path_at_inj:
  "distinct t \<Longrightarrow> i < length t \<Longrightarrow> j < length t \<Longrightarrow> path_at t i = path_at t j \<Longrightarrow> i = j"
  by (simp add: path_at_def list_get_def nth_eq_iff_index_eq)

lemma named_inj:
  assumes t: "distinct t" and p: "indexed t p" and q: "indexed t q" and eq: "named t p = named t q"
  shows "p = q"
proof -
  have k: "op_kind p = op_kind q" and f: "op_flags p = op_flags q" and l: "op_len p = op_len q"
    and n: "path_at t (op_path p) = path_at t (op_path q)"
    using eq by (simp_all add: named_def)
  have "op_path p = op_path q"
    using path_at_inj [OF t _ _ n] p q by (simp add: indexed_def)
  moreover have "op_at p = op_at q"
  proof (cases "op_kind p \<in> {KSetXattr, KRemoveXattr}")
    case True
    then have "path_at t (op_at p) = path_at t (op_at q)" using eq k by (simp add: named_def)
    moreover have "op_at p < length t" "op_at q < length t" using p q True k by (auto simp: indexed_def)
    ultimately show ?thesis using path_at_inj [OF t] by blast
  next
    case False
    then show ?thesis using eq k by (simp add: named_def)
  qed
  moreover have "op_src p = op_src q"
  proof (cases "op_kind p \<in> {KRename, KLink, KSymlink}")
    case True
    then have "path_at t (op_src p) = path_at t (op_src q)" using eq k by (simp add: named_def)
    moreover have "op_src p < length t" "op_src q < length t" using p q True k by (auto simp: indexed_def)
    ultimately show ?thesis using path_at_inj [OF t] by blast
  next
    case False
    then show ?thesis using eq k by (simp add: named_def)
  qed
  ultimately show ?thesis using k f l by (simp add: op.equality)
qed

lemma canonicalize_ops:
  "length (doc_paths d) \<le> Suc u16_max \<Longrightarrow>
    canonicalize d = \<lparr>doc_paths = sort (doc_paths d),
      doc_ops = sort_key op_key (map (remap_op (snd (sort_and_remap (doc_paths d)))) (doc_ops d))\<rparr>"
  using sort_and_remap_spec(1) [of "doc_paths d"]
  by (cases "sort_and_remap (doc_paths d)") (simp add: canonicalize_def)

lemma canonicalize_named:
  assumes "doc_indexed d"
  shows "mset (map (named (doc_paths (canonicalize d))) (doc_ops (canonicalize d)))
       = mset (map (named (doc_paths d)) (doc_ops d))"
proof -
  let ?t = "doc_paths d" and ?m = "remap_op (snd (sort_and_remap (doc_paths d)))"
  have t: "length ?t \<le> Suc u16_max" and ix: "\<forall>p \<in> set (doc_ops d). indexed ?t p"
    using assms by (auto simp: doc_indexed_def list_all_iff)
  have "image_mset (named (sort ?t)) (image_mset ?m (mset (doc_ops d))) = image_mset (named ?t) (mset (doc_ops d))"
    using ix remap_op_named(1) [OF t] by (auto simp: image_mset.compositionality intro!: image_mset_cong)
  then show ?thesis by (simp add: canonicalize_ops [OF t])
qed

lemma canonicalize_indexed:
  assumes "doc_indexed d"
  shows "\<forall>p \<in> set (doc_ops (canonicalize d)). indexed (sort (doc_paths d)) p"
  using assms remap_op_named(2) [of "doc_paths d"]
  by (auto simp: doc_indexed_def list_all_iff canonicalize_ops)

lemma canonicalize_order_free:
  assumes d: "doc_indexed d" and e: "doc_indexed e"
    and paths: "set (doc_paths d) = set (doc_paths e)"
    and ops: "mset (map (named (doc_paths d)) (doc_ops d)) = mset (map (named (doc_paths e)) (doc_ops e))"
    and keys: "distinct (map op_key (doc_ops (canonicalize d)))"
  shows "canonicalize d = canonicalize e"
proof -
  let ?t = "sort (doc_paths d)" and ?c = "doc_ops (canonicalize d)" and ?k = "doc_ops (canonicalize e)"
  have td: "doc_paths (canonicalize d) = ?t" and te: "doc_paths (canonicalize e) = sort (doc_paths e)"
    using d e by (simp_all add: doc_indexed_def canonicalize_ops)
  have same: "sort (doc_paths e) = ?t"
    using d e paths by (intro sorted_distinct_set_unique) (auto simp: doc_indexed_def)
  have dt: "distinct ?t" using d by (simp add: doc_indexed_def)
  have ic: "\<forall>p \<in> set ?c. indexed ?t p" and ik: "\<forall>p \<in> set ?k. indexed ?t p"
    using canonicalize_indexed [OF d] canonicalize_indexed [OF e] same by auto
  have m: "mset (map (named ?t) ?c) = mset (map (named ?t) ?k)"
    using canonicalize_named [OF d] canonicalize_named [OF e] ops td te same by simp
  have inj: "inj_on (named ?t) (set ?c \<union> set ?k)"
    using named_inj [OF dt] ic ik by (auto simp: inj_on_def)
  let ?h = "inv_into (set ?c \<union> set ?k) (named ?t)"
  have unnamed: "image_mset ?h (mset (map (named ?t) xs)) = mset xs" if "set xs \<subseteq> set ?c \<union> set ?k" for xs
    using that inj by (auto simp: image_mset.compositionality comp_def inv_into_f_f subset_eq
        intro!: multiset.map_ident_strong)
  have "mset ?c = image_mset ?h (mset (map (named ?t) ?c))" by (rule unnamed [symmetric]) simp
  also have "\<dots> = image_mset ?h (mset (map (named ?t) ?k))" by (simp only: m)
  also have "\<dots> = mset ?k" by (rule unnamed) simp
  finally have mm: "mset ?c = mset ?k" .
  have sets: "set ?c = set ?k" by (rule mset_eq_setD [OF mm])
  have sc: "sorted (map op_key ?c)" "sorted (map op_key ?k)"
    using d e by (simp_all add: doc_indexed_def canonicalize_ops)
  have dk: "distinct (map op_key ?k)"
    using keys mm by (metis mset_eq_imp_distinct_iff mset_map)
  have "?c = ?k"
    using sc keys dk sets by (intro map_sorted_distinct_set_unique [of op_key]) (auto simp: distinct_map)
  with td te same show ?thesis by (simp add: ops_doc.equality)
qed

section \<open>Properties\<close>

text \<open>
  C15: an ops document survives its encoding. Decoding the bytes of a document whose counts fit
  their fields gives the document back.
\<close>

theorem doc_round_trip:
  assumes "doc_ok d" "length (encode d) \<le> u64_max"
  shows "decode (encode d) = Inr d"
  by (rule decode_encode [OF assms])

definition demo_doc :: ops_doc where
  "demo_doc = \<lparr>doc_paths = [''b'', ''a''],
     doc_ops = [\<lparr>op_kind = KRename, op_flags = 0, op_path = 0, op_at = 0, op_len = 0, op_src = 1\<rparr>,
       \<lparr>op_kind = KInsert, op_flags = 0, op_path = 1, op_at = 7, op_len = 2, op_src = 0\<rparr>]\<rparr>"

lemma doc_round_trip_witness: "decode (encode demo_doc) = Inr demo_doc"
  by (rule doc_round_trip)
    (simp_all add: demo_doc_def doc_ok_def path_ok_def op_ok_def str_ok_def as_bytes_def u64_max_def u32_max_def
      u16_max_def encode_def encode_path_def encode_op_def)

text \<open>
  C16: the canonical form does not depend on the order of declaration. Two documents over the same
  set of paths, declaring the same operations by name in any order and with any numbering of
  the paths, canonicalize to the same document, when no two operations share a sort key.
\<close>

theorem canonical_form_unique:
  assumes "doc_indexed d" "doc_indexed e" "set (doc_paths d) = set (doc_paths e)"
    and "mset (map (named (doc_paths d)) (doc_ops d)) = mset (map (named (doc_paths e)) (doc_ops e))"
    and "distinct (map op_key (doc_ops (canonicalize d)))"
  shows "canonicalize d = canonicalize e"
  by (rule canonicalize_order_free [OF assms])

definition demo_doc2 :: ops_doc where
  "demo_doc2 = \<lparr>doc_paths = [''a'', ''b''],
     doc_ops = [\<lparr>op_kind = KInsert, op_flags = 0, op_path = 0, op_at = 7, op_len = 2, op_src = 0\<rparr>,
       \<lparr>op_kind = KRename, op_flags = 0, op_path = 1, op_at = 0, op_len = 0, op_src = 0\<rparr>]\<rparr>"

lemma canonical_form_unique_witness: "canonicalize demo_doc = canonicalize demo_doc2"
proof (rule canonical_form_unique)
  show "doc_indexed demo_doc" "doc_indexed demo_doc2"
    by (simp_all add: doc_indexed_def demo_doc_def demo_doc2_def indexed_def u16_max_def)
  show "set (doc_paths demo_doc) = set (doc_paths demo_doc2)" by (auto simp: demo_doc_def demo_doc2_def)
  show "mset (map (named (doc_paths demo_doc)) (doc_ops demo_doc))
      = mset (map (named (doc_paths demo_doc2)) (doc_ops demo_doc2))"
    by (simp add: demo_doc_def demo_doc2_def named_def path_at_def list_get_def add_mset_commute)
  show "distinct (map op_key (doc_ops (canonicalize demo_doc)))"
    by (simp add: demo_doc_def canonicalize_def sort_and_remap_def remap_op_def remap_index_def list_get_def
        to_u16_def u16_max_def op_key_def Let_def)
qed

end
