(* ===== verification/Edits.thy ===== *)
theory Edits
  imports Ranges
begin

text \<open>
  The algebra the content dimension rests on, with no machine integers in it: an edit replaces
  \<open>e_old\<close> bytes at \<open>e_at\<close> by \<open>e_new\<close>; a \<open>chain\<close> is a list of edits in file order that do not
  reach back. Two chains that do not touch each other merge, and applying them one after the
  other, the second shifted through the first, gives the merge in either order.
\<close>

datatype edit = Edit (e_at: nat) (e_old: nat) (e_new: "byte list")

fun run_edits :: "byte list \<Rightarrow> nat \<Rightarrow> edit list \<Rightarrow> byte list" where
  "run_edits b pos [] = drop pos b"
| "run_edits b pos (e # es) = seg b pos (e_at e - pos) @ e_new e @ run_edits b (e_at e + e_old e) es"

fun chain :: "nat \<Rightarrow> nat \<Rightarrow> edit list \<Rightarrow> bool" where
  "chain pos n [] \<longleftrightarrow> pos \<le> n"
| "chain pos n (e # es) \<longleftrightarrow> pos \<le> e_at e \<and> chain (e_at e + e_old e) n es"

definition touch :: "edit \<Rightarrow> range" where
  "touch e = range_new (e_at e) (e_old e)"

text \<open>How far the edits that end at or before \<open>x\<close> move it.\<close>

definition delta :: "edit \<Rightarrow> int" where
  "delta e = int (length (e_new e)) - int (e_old e)"

fun shift :: "edit list \<Rightarrow> nat \<Rightarrow> int" where
  "shift [] x = 0"
| "shift (e # es) x = (if e_at e + e_old e \<le> x then delta e else 0) + shift es x"

definition apart :: "edit list \<Rightarrow> edit list \<Rightarrow> bool" where
  "apart A I \<longleftrightarrow> (\<forall>a \<in> set A. \<forall>i \<in> set I. sep (touch a) (touch i) \<or> sep (touch i) (touch a))"

fun merge_edits :: "edit list \<Rightarrow> edit list \<Rightarrow> edit list" where
  "merge_edits [] I = I"
| "merge_edits A [] = A"
| "merge_edits (a # A) (i # I) =
     (if sep (touch a) (touch i) then a # merge_edits A (i # I) else i # merge_edits (a # A) I)"

section \<open>Chains\<close>

lemma touch_simps [simp]: "r_start (touch e) = e_at e" "r_len (touch e) = e_old e"
  by (simp_all add: touch_def)

lemma sep_touch: "sep (touch a) (touch b) \<longleftrightarrow>
    e_at a + e_old a \<le> e_at b \<and> \<not> (e_old a = 0 \<and> e_old b = 0 \<and> e_at a = e_at b)"
  by (auto simp: sep_def)

lemma chain_bounds: "chain p n es \<Longrightarrow> e \<in> set es \<Longrightarrow> p \<le> e_at e \<and> e_at e + e_old e \<le> n"
proof (induction es arbitrary: p)
  case (Cons d ds)
  have le: "chain q n ds \<Longrightarrow> q \<le> n" for q
    by (induction ds arbitrary: q) fastforce+
  from Cons show ?case using le by fastforce
qed simp

lemma chain_le: "chain p n es \<Longrightarrow> p \<le> n"
  by (induction es arbitrary: p) fastforce+

lemma chain_mono: "chain q n es \<Longrightarrow> p \<le> q \<Longrightarrow> chain p n es"
  by (cases es) auto

lemma chain_weaken: "chain p n es \<Longrightarrow> (\<And>e. e \<in> set es \<Longrightarrow> q \<le> e_at e) \<Longrightarrow> q \<le> n \<Longrightarrow> chain q n es"
  by (cases es) auto

lemma run_split:
  assumes "p \<le> m" "es = [] \<or> m \<le> e_at (hd es)"
  shows "run_edits b p es = seg b p (m - p) @ run_edits b m es"
proof (cases es)
  case Nil
  then show ?thesis using assms(1) seg_drop_split [of p m b] by simp
next
  case (Cons e ds)
  with assms have "m - p + (e_at e - m) = e_at e - p" "p + (m - p) = m" by auto
  then have "seg b p (e_at e - p) = seg b p (m - p) @ seg b m (e_at e - m)"
    using seg_add [of b p "m - p" "e_at e - m"] by simp
  with Cons show ?thesis by simp
qed

lemma length_run:
  "chain p n es \<Longrightarrow> n = length b \<Longrightarrow> int (length (run_edits b p es)) = int n - int p + sum_list (map delta es)"
proof (induction es arbitrary: p)
  case (Cons e es)
  then have "int (length (run_edits b (e_at e + e_old e) es))
      = int n - int (e_at e + e_old e) + sum_list (map delta es)" by simp
  moreover have "e_at e \<le> n" using Cons.prems chain_le by fastforce
  ultimately show ?case using Cons.prems by (simp add: delta_def [of e])
qed simp

text \<open>Edits that lie past a point do not move it, and no chain moves a point below its start.\<close>

lemma shift_past: "chain q n es \<Longrightarrow> x < q \<Longrightarrow> shift es x = 0"
proof (induction es arbitrary: q)
  case (Cons e es)
  from Cons.prems have "shift es x = 0"
    by (intro Cons.IH [of "e_at e + e_old e"]) auto
  with Cons.prems show ?case by simp
qed simp

lemma shift_apart:
  assumes "chain q n es" "x \<le> q" "\<And>e. e \<in> set es \<Longrightarrow> \<not> (e_old e = 0 \<and> e_at e = x)"
  shows "shift es x = 0"
  using assms
proof (induction es arbitrary: q)
  case (Cons e es)
  from Cons.prems have "shift es x = 0"
    by (intro Cons.IH [of "e_at e + e_old e"]) auto
  moreover have "\<not> e_at e + e_old e \<le> x" using Cons.prems by fastforce
  ultimately show ?case by simp
qed simp

lemma shift_ge: "chain p n es \<Longrightarrow> p \<le> x \<Longrightarrow> int x - int p + shift es x \<ge> 0"
proof (induction es arbitrary: p)
  case (Cons e es)
  show ?case
  proof (cases "e_at e + e_old e \<le> x")
    case True
    then have "int x - int (e_at e + e_old e) + shift es x \<ge> 0"
      using Cons.IH [of "e_at e + e_old e"] Cons.prems by simp
    with True Cons.prems show ?thesis by (simp add: delta_def [of e])
  next
    case False
    then have "shift es x = 0" using Cons.prems shift_past [of "e_at e + e_old e" n es x] by simp
    with False Cons.prems show ?thesis by simp
  qed
qed simp

section \<open>A range no edit touches keeps its bytes\<close>

lemma seg_run:
  assumes "chain p n es" "n = length b" "p \<le> s" "s + l \<le> n"
    and "\<And>e. e \<in> set es \<Longrightarrow> sep (touch e) (range_new s l) \<or> sep (range_new s l) (touch e)"
  shows "seg (out @ run_edits b p es) (nat (int (length out) - int p + int s + shift es s)) l = seg b s l"
  using assms
proof (induction es arbitrary: p out)
  case Nil
  then have "nat (int (length out) - int p + int s) = length out + (s - p)" by simp
  with Nil show ?case by (simp add: seg_append_right seg_drop)
next
  case (Cons e es)
  let ?out = "out @ seg b p (e_at e - p) @ e_new e"
  show ?case
  proof (cases "sep (touch e) (range_new s l)")
    case True
    then have es: "e_at e + e_old e \<le> s" by (simp add: sep_def)
    have "seg (?out @ run_edits b (e_at e + e_old e) es)
        (nat (int (length ?out) - int (e_at e + e_old e) + int s + shift es s)) l = seg b s l"
      by (rule Cons.IH) (use Cons.prems es in auto)
    moreover have "int (length ?out) - int (e_at e + e_old e) + int s + shift es s
        = int (length out) - int p + int s + shift (e # es) s"
      using Cons.prems es chain_le [of "e_at e + e_old e" n es] by (simp add: delta_def [of e])
    ultimately show ?thesis by (simp only: run_edits.simps append_assoc)
  next
    case False
    show ?thesis
    proof (cases "l = 0")
      case True
      then show ?thesis by simp
    next
      case l: False
      from False Cons.prems(5) [of e] have "sep (range_new s l) (touch e)" by simp
      then have le: "s + l \<le> e_at e" by (simp add: sep_def)
      then have "shift (e # es) s = 0"
        using Cons.prems(1) l shift_past [of "e_at e" n "e # es" s] by auto
      moreover have "run_edits b p (e # es) = seg b p (s + l - p) @ run_edits b (s + l) (e # es)"
        using le Cons.prems(3) by (intro run_split) auto
      moreover have "nat (int (length out) - int p + int s) = length out + (s - p)"
        using Cons.prems(3) by simp
      moreover have "seg (seg b p (s + l - p)) (s - p) l = seg b s l"
        using Cons.prems(3) by (simp add: seg_seg)
      moreover have "length (seg b p (s + l - p)) = s + l - p" using Cons.prems(2,4) by simp
      ultimately show ?thesis
        using Cons.prems(3) by (simp add: seg_append_right seg_append_left del: run_edits.simps shift.simps)
    qed
  qed
qed

section \<open>Merging\<close>

text \<open>An edit carried through a chain that does not touch it.\<close>

definition carry :: "int \<Rightarrow> edit list \<Rightarrow> edit \<Rightarrow> edit" where
  "carry k I e = Edit (nat (k + int (e_at e) + shift I (e_at e))) (e_old e) (e_new e)"

lemma apart_Cons: "apart (a # A) (i # I) \<longleftrightarrow>
    (sep (touch a) (touch i) \<or> sep (touch i) (touch a)) \<and> apart (a # A) I \<and> apart A (i # I)"
  by (auto simp: apart_def)

lemma apart_sym: "apart A I = apart I A"
  by (auto simp: apart_def)

lemma run_edits_offset:
  assumes "chain q n A" "n = length b" "p \<le> q"
  shows "run_edits (out @ drop p b) (length out + (q - p)) (map (carry (int (length out) - int p) []) A)
       = run_edits b q A"
  using assms
proof (induction A arbitrary: q)
  case Nil
  then show ?case by simp
next
  case (Cons a A)
  have at: "nat (int (length out) - int p + int (e_at a)) = length out + (e_at a - p)"
    using Cons.prems by simp
  have "run_edits (out @ drop p b) (length out + (e_at a + e_old a - p))
      (map (carry (int (length out) - int p) []) A) = run_edits b (e_at a + e_old a) A"
    using Cons.prems by (intro Cons.IH) auto
  moreover have "length out + (e_at a - p) + e_old a = length out + (e_at a + e_old a - p)"
    using Cons.prems by simp
  moreover have "seg (out @ drop p b) (length out + (q - p)) (e_at a - q) = seg b q (e_at a - q)"
    using Cons.prems by (simp add: seg_append_right seg_drop)
  moreover have "length out + (e_at a - p) - (length out + (q - p)) = e_at a - q"
    using Cons.prems by simp
  ultimately show ?case by (simp add: carry_def [of _ _ a] at add.assoc)
qed

lemma seg_mid: "seg (out @ xs @ ys) (length out) (length xs) = xs"
  by (simp add: seg_def)

lemma merge_Nil2 [simp]: "merge_edits A [] = A"
  by (cases A) auto

lemma apart_shift0:
  assumes "sep (touch a) (touch i)" "apart (a # A) (i # I)" "chain p n (i # I)"
  shows "shift (i # I) (e_at a) = 0"
proof (rule shift_apart)
  show "chain (e_at i) n (i # I)" using assms(3) by simp
  show "e_at a \<le> e_at i" using assms(1) by (simp add: sep_touch)
  fix e assume e: "e \<in> set (i # I)"
  show "\<not> (e_old e = 0 \<and> e_at e = e_at a)"
  proof
    assume z: "e_old e = 0 \<and> e_at e = e_at a"
    have "e_at a + e_old a \<le> e_at e"
      using assms(1,3) e chain_bounds [of "e_at i" n "i # I" e] by (auto simp: sep_touch)
    with z assms(2) e show False by (auto simp: apart_def sep_touch)
  qed
qed

lemma apart_after:
  assumes "sep (touch i) (touch a)" "chain p n (a # A)" "e \<in> set (a # A)"
  shows "e_at i + e_old i \<le> e_at e"
  using assms chain_bounds [of "e_at a" n "a # A" e] by (auto simp: sep_touch)

lemma carry_step:
  assumes "chain p n (i # I)" "n = length b" "e_at i + e_old i \<le> e_at e"
  shows "carry (int (length out) - int p) (i # I) e
       = carry (int (length (out @ seg b p (e_at i - p) @ e_new i)) - int (e_at i + e_old i)) I e"
proof -
  have "e_at i \<le> n" "p \<le> e_at i" using assms(1) chain_le [of "e_at i + e_old i" n I] by auto
  then have "int (length (out @ seg b p (e_at i - p) @ e_new i)) - int (e_at i + e_old i)
      = int (length out) - int p + delta i"
    using assms(2) by (simp add: delta_def)
  with assms(3) show ?thesis by (simp add: carry_def algebra_simps)
qed

lemma carry_ge:
  assumes "chain q n I" "q \<le> e_at e"
  shows "k \<le> e_at (carry (int k - int q) I e)"
  using shift_ge [OF assms] by (simp add: carry_def)

lemma run_merge:
  assumes "chain p n I" "chain p n A" "n = length b" "apart A I"
  shows "run_edits (out @ run_edits b p I) (length out) (map (carry (int (length out) - int p) I) A)
       = run_edits b p (merge_edits A I)"
  using assms
proof (induction A I arbitrary: p out rule: merge_edits.induct)
  case (1 I)
  then show ?case by simp
next
  case (2 a A)
  then show ?case using run_edits_offset [of p n "a # A" b p out] by simp
next
  case (3 a A i I)
  let ?k = "int (length out) - int p"
  show ?case
  proof (cases "sep (touch a) (touch i)")
    case True
    let ?m = "e_at a + e_old a"
    let ?out = "out @ seg b p (?m - p)"
    have le: "p \<le> e_at a" "?m \<le> e_at i" "?m \<le> n"
      using 3(4) True chain_le [of ?m n A] by (auto simp: sep_touch)
    have chI: "chain ?m n (i # I)" using 3(3) le by simp
    have cur: "out @ run_edits b p (i # I) = ?out @ run_edits b ?m (i # I)"
      using le run_split [of p ?m "i # I" b] by simp
    have k: "int (length ?out) - int ?m = ?k" using le 3(5) by simp
    have at: "carry ?k (i # I) a = Edit (length out + (e_at a - p)) (e_old a) (e_new a)"
      using apart_shift0 [OF True 3(6) 3(3)] le by (simp add: carry_def del: shift.simps)
    have "run_edits (?out @ run_edits b ?m (i # I)) (length ?out) (map (carry ?k (i # I)) A)
        = run_edits b ?m (merge_edits A (i # I))"
      using 3(1) [OF True chI, of ?out] 3(4,5,6) k by (simp only: chain.simps apart_Cons)
    moreover have "length ?out = length out + (e_at a - p) + e_old a" using le 3(5) by simp
    moreover have "seg (?out @ run_edits b ?m (i # I)) (length out) (e_at a - p) = seg b p (e_at a - p)"
      using le 3(5) by (simp add: seg_append_right seg_append_left seg_seg)
    ultimately show ?thesis
      using True unfolding cur by (simp add: at add.assoc)
  next
    case False
    let ?m = "e_at i + e_old i"
    let ?out = "out @ seg b p (e_at i - p) @ e_new i"
    have s: "sep (touch i) (touch a)" using False 3(6) by (simp add: apart_Cons)
    have af: "?m \<le> e_at e" if "e \<in> set (a # A)" for e using apart_after [OF s 3(4) that] .
    have chA: "chain ?m n (a # A)" using 3(4) af [of a] by simp
    have cs: "map (carry ?k (i # I)) (a # A) = map (carry (int (length ?out) - int ?m) I) (a # A)"
      using carry_step [OF 3(3,5)] af by (intro map_cong) auto
    have cur: "out @ run_edits b p (i # I) = ?out @ run_edits b ?m I" by simp
    have "run_edits (?out @ run_edits b ?m I) (length ?out) (map (carry (int (length ?out) - int ?m) I) (a # A))
        = run_edits b ?m (merge_edits (a # A) I)"
      using 3(2) [OF False _ chA 3(5), of ?out] 3(3,6) by (simp only: chain.simps apart_Cons)
    moreover have "run_edits (?out @ run_edits b ?m I) (length out) (map (carry (int (length ?out) - int ?m) I) (a # A))
        = seg (?out @ run_edits b ?m I) (length out) (length ?out - length out)
          @ run_edits (?out @ run_edits b ?m I) (length ?out) (map (carry (int (length ?out) - int ?m) I) (a # A))"
      using carry_ge [of ?m n I a "length ?out"] 3(3) af [of a] by (intro run_split) auto
    moreover have "seg (?out @ run_edits b ?m I) (length out) (length ?out - length out)
        = seg b p (e_at i - p) @ e_new i"
      using seg_mid [of out "seg b p (e_at i - p) @ e_new i"] by simp
    ultimately show ?thesis
      using False unfolding cur cs by (simp del: list.map)
  qed
qed

lemma merge_commute: "apart A I \<Longrightarrow> merge_edits A I = merge_edits I A"
proof (induction A I rule: merge_edits.induct)
  case (3 a A i I)
  then have "sep (touch a) (touch i) = (\<not> sep (touch i) (touch a))"
    by (auto simp: apart_Cons sep_touch)
  with 3 show ?case by (simp add: apart_Cons)
qed auto

lemma chain_carry:
  assumes "chain p n I" "chain p n A" "n = length b" "apart A I"
  shows "chain k (k + length (run_edits b p I)) (map (carry (int k - int p) I) A)"
  using assms
proof (induction A I arbitrary: p k rule: merge_edits.induct)
  case (1 I)
  then show ?case by simp
next
  case (2 a A)
  have "chain (k + (q - p)) (k + (n - p)) (map (carry (int k - int p) []) es)"
    if "chain q n es" "p \<le> q" for q es
    using that
  proof (induction es arbitrary: q)
    case (Cons e es)
    then have "nat (int k - int p + int (e_at e)) = k + (e_at e - p)"
      and "chain (k + (e_at e + e_old e - p)) (k + (n - p)) (map (carry (int k - int p) []) es)" by auto
    moreover have "k + (e_at e - p) + e_old e = k + (e_at e + e_old e - p)" using Cons.prems by simp
    ultimately show ?case using Cons.prems by (simp only: carry_def [of _ _ e] list.map chain.simps edit.sel shift.simps) auto
  qed simp
  from this [of p "a # A"] 2 show ?case by simp
next
  case (3 a A i I)
  let ?k = "int k - int p"
  show ?case
  proof (cases "sep (touch a) (touch i)")
    case True
    let ?m = "e_at a + e_old a"
    have le: "p \<le> e_at a" "?m \<le> e_at i" "?m \<le> n"
      using 3(4) True chain_le [of ?m n A] by (auto simp: sep_touch)
    have cur: "run_edits b p (i # I) = seg b p (?m - p) @ run_edits b ?m (i # I)"
      using le by (intro run_split) auto
    have at: "carry ?k (i # I) a = Edit (k + (e_at a - p)) (e_old a) (e_new a)"
      using apart_shift0 [OF True 3(6) 3(3)] le by (simp add: carry_def del: shift.simps)
    have "chain ?m n (i # I)" "chain ?m n A" "apart A (i # I)" using 3 le by (simp_all add: apart_Cons)
    from 3(1) [OF True this(1,2) 3(5) this(3), of "k + (?m - p)"]
    have "chain (k + (?m - p)) (k + (?m - p) + length (run_edits b ?m (i # I))) (map (carry ?k (i # I)) A)"
      using le by (simp del: run_edits.simps)
    moreover have "k + (?m - p) = k + (e_at a - p) + e_old a" using le by simp
    moreover have "length (seg b p (?m - p)) = ?m - p" using le 3(5) by simp
    ultimately show ?thesis using cur by (simp add: at add.assoc del: run_edits.simps)
  next
    case False
    let ?m = "e_at i + e_old i"
    let ?out = "replicate k 0 @ seg b p (e_at i - p) @ e_new i"
    have s: "sep (touch i) (touch a)" using False 3(6) by (simp add: apart_Cons)
    have af: "?m \<le> e_at e" if "e \<in> set (a # A)" for e using apart_after [OF s 3(4) that] .
    have chA: "chain ?m n (a # A)" using 3(4) af [of a] by simp
    have chI: "chain ?m n I" and ap: "apart (a # A) I" using 3 by (simp_all add: apart_Cons)
    have "map (carry ?k (i # I)) (a # A) = map (carry (int (length ?out) - int ?m) I) (a # A)"
      using carry_step [OF 3(3,5), of _ "replicate k 0"] af by (intro map_cong) auto
    with 3(2) [OF False chI chA 3(5) ap, of "length ?out"]
    have "chain (length ?out) (length ?out + length (run_edits b ?m I)) (map (carry ?k (i # I)) (a # A))"
      by (simp only:)
    then have "chain k (length ?out + length (run_edits b ?m I)) (map (carry ?k (i # I)) (a # A))"
      by (rule chain_mono) simp
    then show ?thesis by (simp add: add.assoc)
  qed
qed

theorem diamond_edits:
  assumes "chain 0 (length b) A" "chain 0 (length b) I" "apart A I"
  shows "run_edits (run_edits b 0 I) 0 (map (carry 0 I) A) = run_edits (run_edits b 0 A) 0 (map (carry 0 A) I)"
  using run_merge [of 0 "length b" I A b "[]"] run_merge [of 0 "length b" A I b "[]"] assms
  by (simp add: merge_commute apart_sym)

end
