(* ===== verification/Content.thy ===== *)
theory Content
  imports Edits Ops_Doc
begin

text \<open>
  The content half of \<open>crates/merge/src/engine.rs\<close> that has no state: the range an operation
  touches, the admission test \<open>fits_base\<close>, and \<open>apply\<close>, the byte splice. \<open>apply\<close> is shown to run
  the edits the operations denote.
\<close>

definition touched_range :: "op \<Rightarrow> range" where
  "touched_range p =
     (case op_kind p of
        KOverwrite \<Rightarrow> range_new (op_at p) (op_len p)
      | KDelete \<Rightarrow> range_new (op_at p) (op_len p)
      | KTruncate \<Rightarrow> range_new (op_at p) (op_len p)
      | _ \<Rightarrow> range_new (op_at p) 0)"

definition is_content :: "opkind \<Rightarrow> bool" where
  "is_content k \<longleftrightarrow> k \<in> {KOverwrite, KExtend, KTruncate, KInsert, KDelete}"

text \<open>\<open>matches!(op.kind, OpKind::Overwrite | OpKind::Insert | OpKind::Extend)\<close>.\<close>

definition adds :: "opkind \<Rightarrow> bool" where
  "adds k \<longleftrightarrow> k \<in> {KOverwrite, KInsert, KExtend}"

definition fits_op :: "nat \<Rightarrow> nat \<Rightarrow> op \<Rightarrow> bool" where
  "fits_op base_len post_len p =
     (let end = checked_add (op_at p) (op_len p);
          within = op_at p \<le> base_len;
          fits = (case op_kind p of
              KDelete \<Rightarrow> (case end of Some e \<Rightarrow> e \<le> base_len | None \<Rightarrow> False)
            | KOverwrite \<Rightarrow> (case end of Some e \<Rightarrow> e \<le> base_len | None \<Rightarrow> False)
            | KTruncate \<Rightarrow> end = Some base_len
            | KExtend \<Rightarrow> op_at p = base_len
            | _ \<Rightarrow> True);
          sourced = (\<not> adds (op_kind p) \<or>
            (case checked_add (op_src p) (op_len p) of Some e \<Rightarrow> e \<le> post_len | None \<Rightarrow> False))
      in within \<and> fits \<and> sourced)"

definition fits_base :: "op list \<Rightarrow> nat \<Rightarrow> nat \<Rightarrow> bool" where
  "fits_base ops base_len post_len = list_all (fits_op base_len post_len) ops"

definition span_bytes :: "byte list \<Rightarrow> nat \<Rightarrow> nat \<Rightarrow> byte list" where
  "span_bytes from src len =
     (let start = min src (length from);
          end = min (sat_add start len) (length from)
      in unwrap_or (slice_get from start end) [])"

definition push_slice :: "byte list \<Rightarrow> byte list \<Rightarrow> nat \<Rightarrow> nat \<Rightarrow> byte list" where
  "push_slice out from src len = out @ span_bytes from src len"

text \<open>One iteration of the loop of \<open>apply\<close>, over the output so far and the base position.\<close>

definition apply_op :: "byte list \<Rightarrow> byte list \<Rightarrow> op \<Rightarrow> byte list \<times> nat \<Rightarrow> byte list \<times> nat" where
  "apply_op base post p st =
     (let (out, pos) = st;
          (out, pos) =
            (if op_at p > pos
             then (out @ unwrap_or (slice_get base pos (min (op_at p) (length base))) [], op_at p)
             else (out, pos))
      in case op_kind p of
           KDelete \<Rightarrow> (out, sat_add pos (op_len p))
         | KTruncate \<Rightarrow> (out, length base)
         | KOverwrite \<Rightarrow> (push_slice out post (op_src p) (op_len p), sat_add pos (op_len p))
         | KInsert \<Rightarrow> (push_slice out post (op_src p) (op_len p), pos)
         | KExtend \<Rightarrow> (push_slice out post (op_src p) (op_len p), pos)
         | _ \<Rightarrow> (out, pos))"

definition apply_ops :: "byte list \<Rightarrow> op list \<Rightarrow> byte list \<Rightarrow> byte list" where
  "apply_ops base ops post =
     (let (out, pos) = fold (apply_op base post) ops ([], 0)
      in if pos < length base then out @ unwrap_or (slice_from base pos) [] else out)"

section \<open>The edits operations denote\<close>

definition op_old :: "op \<Rightarrow> nat" where
  "op_old p = (if op_kind p \<in> {KOverwrite, KDelete, KTruncate} then op_len p else 0)"

definition edit_of :: "byte list \<Rightarrow> op \<Rightarrow> edit" where
  "edit_of post p = Edit (op_at p) (op_old p) (if adds (op_kind p) then seg post (op_src p) (op_len p) else [])"

text \<open>
  A net operation set: content operations that fit the base and the post-state and lie in file
  order, none reaching back into its predecessor.
\<close>

definition net_ops :: "nat \<Rightarrow> byte list \<Rightarrow> op list \<Rightarrow> bool" where
  "net_ops base_len post ops \<longleftrightarrow>
     list_all (\<lambda>p. is_content (op_kind p)) ops \<and> fits_base ops base_len (length post) \<and>
     chain 0 base_len (map (edit_of post) ops) \<and> base_len \<le> u64_max \<and> length post \<le> u64_max"

lemma edit_of_simps [simp]:
  "e_at (edit_of post p) = op_at p" "e_old (edit_of post p) = op_old p"
  by (simp_all add: edit_of_def)

lemma touched_range_edit: "touched_range p = touch (edit_of post p)"
  by (cases "op_kind p") (simp_all add: touched_range_def touch_def op_old_def)

lemma span_bytes_seg: "length from \<le> u64_max \<Longrightarrow> span_bytes from src len = seg from src len"
proof -
  assume "length from \<le> u64_max"
  then have e: "min (sat_add (min src (length from)) len) (length from) = min (min src (length from) + len) (length from)"
    by (simp add: sat_add_def)
  show ?thesis
  proof (cases "src \<le> length from")
    case True
    then have "span_bytes from src len = seg from src (min (src + len) (length from) - src)"
      unfolding span_bytes_def Let_def e by (simp add: slice_get_in)
    also have "\<dots> = seg from src len" by (simp add: seg_def min_def)
    finally show ?thesis .
  next
    case False
    then show ?thesis unfolding span_bytes_def Let_def e by (simp add: slice_get_def seg_def)
  qed
qed

lemma fits_op_truncate: "fits_op n m p \<Longrightarrow> op_kind p = KTruncate \<Longrightarrow> op_at p + op_len p = n"
  by (simp add: fits_op_def)

lemma fits_op_sourced: "fits_op n m p \<Longrightarrow> adds (op_kind p) \<Longrightarrow> op_src p + op_len p \<le> m"
  by (auto simp: fits_op_def Let_def split: option.splits)

lemma fits_op_bounds: "fits_op n m p \<Longrightarrow> op_at p + op_old p \<le> n"
  by (cases "op_kind p") (auto simp: fits_op_def op_old_def Let_def split: option.splits)

lemma apply_op_run:
  assumes "is_content (op_kind p)" "fits_op (length base) (length post) p"
    and "pos \<le> op_at p" "length base \<le> u64_max" "length post \<le> u64_max"
  shows "apply_op base post p (out, pos)
       = (out @ seg base pos (op_at p - pos) @ e_new (edit_of post p), op_at p + op_old p)"
proof -
  have at: "op_at p + op_old p \<le> length base" using fits_op_bounds [OF assms(2)] .
  then have "(if op_at p > pos
      then (out @ unwrap_or (slice_get base pos (min (op_at p) (length base))) [], op_at p)
      else (out, pos)) = (out @ seg base pos (op_at p - pos), op_at p)"
    using assms(3) by (auto simp: slice_get_in min_def)
  moreover have "sat_add (op_at p) (op_old p) = op_at p + op_old p"
    using at assms(4) by (simp add: sat_add_small)
  ultimately show ?thesis
    using assms fits_op_truncate [OF assms(2)]
    by (cases "op_kind p")
      (simp_all add: apply_op_def push_slice_def span_bytes_seg edit_of_def op_old_def adds_def is_content_def)
qed

lemma fold_apply_run:
  assumes "list_all (\<lambda>p. is_content (op_kind p)) ops" "fits_base ops (length base) (length post)"
    and "chain pos (length base) (map (edit_of post) ops)"
    and "length base \<le> u64_max" "length post \<le> u64_max"
    and "fold (apply_op base post) ops (out, pos) = (out', pos')"
  shows "pos' \<le> length base \<and> out' @ drop pos' base = out @ run_edits base pos (map (edit_of post) ops)"
  using assms
proof (induction ops arbitrary: out pos)
  case (Cons p ops)
  have "apply_op base post p (out, pos)
      = (out @ seg base pos (op_at p - pos) @ e_new (edit_of post p), op_at p + op_old p)"
    using Cons.prems by (intro apply_op_run) (auto simp: fits_base_def)
  with Cons.prems Cons.IH [of "op_at p + op_old p"] show ?case by (simp add: fits_base_def)
qed simp

lemma apply_ops_run:
  assumes "net_ops (length base) post ops"
  shows "apply_ops base ops post = run_edits base 0 (map (edit_of post) ops)"
proof -
  obtain out pos where f: "fold (apply_op base post) ops ([], 0) = (out, pos)" by fastforce
  then have "pos \<le> length base \<and> out @ drop pos base = run_edits base 0 (map (edit_of post) ops)"
    using assms fold_apply_run [of ops base post 0 "[]" out pos] by (simp add: net_ops_def)
  then show ?thesis by (auto simp: apply_ops_def f slice_from_in)
qed

lemma net_ops_new_len:
  assumes "net_ops n post ops" "p \<in> set ops" "adds (op_kind p)"
  shows "length (e_new (edit_of post p)) = op_len p"
proof -
  have "op_src p + op_len p \<le> length post"
    using assms fits_op_sourced by (auto simp: net_ops_def fits_base_def list_all_iff)
  then show ?thesis using assms(3) by (simp add: edit_of_def)
qed

end
