(* ===== verification/Position_Map.thy ===== *)
theory Position_Map
  imports Content
begin

text \<open>
  \<open>crates/merge/src/map.rs\<close>: a range of an increment's base mapped forward through the deltas
  committed since. The mapping is shown to be exact: it reports an overlap precisely when some
  operation touches the range, and otherwise names the position the range's bytes moved to.
\<close>

datatype mapped = Shifted range | Overlaps

definition effect_of :: "op \<Rightarrow> (nat \<times> nat \<times> nat) option" where
  "effect_of p =
     (case op_kind p of
        KOverwrite \<Rightarrow> Some (op_at p, op_len p, op_len p)
      | KInsert \<Rightarrow> Some (op_at p, 0, op_len p)
      | KExtend \<Rightarrow> Some (op_at p, 0, op_len p)
      | KDelete \<Rightarrow> Some (op_at p, op_len p, 0)
      | KTruncate \<Rightarrow> Some (op_at p, op_len p, 0)
      | _ \<Rightarrow> None)"

text \<open>The saturating arithmetic of \<open>i128\<close>.\<close>

definition i128_sat :: "int \<Rightarrow> int" where
  "i128_sat x = max (- (2 ^ 127)) (min x (2 ^ 127 - 1))"

text \<open>The range at the end of the loop: the start moved by the shift, clamped into \<open>u64\<close>.\<close>

definition map_place :: "range \<Rightarrow> int \<Rightarrow> mapped" where
  "map_place r moved =
     (let shifted = max (i128_sat (int (r_start r) + moved)) 0;
          start = (if shifted \<le> int u64_max then nat shifted else 0)
      in Shifted (range_new start (r_len r)))"

fun map_loop :: "op list \<Rightarrow> range \<Rightarrow> int \<Rightarrow> mapped" where
  "map_loop [] r moved = map_place r moved"
| "map_loop (p # ops) r moved =
     (case effect_of p of
        None \<Rightarrow> map_loop ops r moved
      | Some (at, old_len, new_len) \<Rightarrow>
          if overlaps (range_new at old_len) r then Overlaps
          else if sat_add at old_len \<le> r_start r then
            map_loop ops r (i128_sat (moved + i128_sat (int new_len - int old_len)))
          else if at \<ge> range_end r then map_place r moved
          else map_loop ops r moved)"

definition map_through_one :: "op list \<Rightarrow> range \<Rightarrow> mapped" where
  "map_through_one ops r = map_loop ops r 0"

fun map_range :: "op list list \<Rightarrow> range \<Rightarrow> mapped" where
  "map_range [] r = Shifted r"
| "map_range (ops # deltas) r =
     (case map_through_one ops r of
        Shifted next \<Rightarrow> map_range deltas next
      | Overlaps \<Rightarrow> Overlaps)"

text \<open>
  Pass one of \<open>Green::merge_content\<close> on one operation: an operation nothing touched is placed
  at its mapped position.
\<close>

definition move_op :: "op list list \<Rightarrow> op \<Rightarrow> op option" where
  "move_op intervening p =
     (case map_range intervening (touched_range p) of
        Shifted shifted \<Rightarrow> Some (p\<lparr>op_at := r_start shifted\<rparr>)
      | Overlaps \<Rightarrow> None)"

text \<open>Content carried through a sequence of deltas, each its operations and its post-state.\<close>

fun evolve :: "byte list \<Rightarrow> (op list \<times> byte list) list \<Rightarrow> byte list" where
  "evolve b [] = b"
| "evolve b ((ops, post) # ds) = evolve (apply_ops b ops post) ds"

fun evolves :: "byte list \<Rightarrow> (op list \<times> byte list) list \<Rightarrow> bool" where
  "evolves b [] \<longleftrightarrow> length b \<le> u64_max"
| "evolves b ((ops, post) # ds) \<longleftrightarrow> net_ops (length b) post ops \<and> evolves (apply_ops b ops post) ds"

text \<open>
  A truncation in one delta and bytes added at the very end of the file by the other: the edge
  rule lets them pass, but a truncation is relative to the end of the file it is applied to.
\<close>

definition tail_safe :: "nat \<Rightarrow> op list \<Rightarrow> op list \<Rightarrow> bool" where
  "tail_safe n A I \<longleftrightarrow>
     (\<exists>a \<in> set A. op_kind a = KTruncate) \<longrightarrow> (\<forall>i \<in> set I. adds (op_kind i) \<longrightarrow> op_at i \<noteq> n)"

section \<open>One delta\<close>

lemma effect_of_edit:
  assumes "net_ops n post ops" "p \<in> set ops"
  shows "effect_of p = Some (op_at p, op_old p, length (e_new (edit_of post p)))"
proof -
  have "is_content (op_kind p)" using assms by (auto simp: net_ops_def list_all_iff)
  then show ?thesis
    using net_ops_new_len [OF assms] by (cases "op_kind p")
      (auto simp: effect_of_def op_old_def is_content_def adds_def edit_of_def)
qed

text \<open>The bytes a chain removes and adds, a bound on every partial sum of the shift.\<close>

definition weight :: "edit list \<Rightarrow> int" where
  "weight es = int (\<Sum>e\<leftarrow>es. e_old e + length (e_new e))"

lemma weight_simps [simp]:
  "weight [] = 0" "weight (e # es) = int (e_old e) + int (length (e_new e)) + weight es" "weight es \<ge> 0"
  by (simp_all add: weight_def)

lemma weight_le: "chain p n es \<Longrightarrow> n = length b \<Longrightarrow> weight es \<le> int (n - p) + int (length (run_edits b p es))"
proof (induction es arbitrary: p)
  case (Cons e es)
  then have "weight es \<le> int (n - (e_at e + e_old e)) + int (length (run_edits b (e_at e + e_old e) es))"
    by simp
  moreover have "e_at e + e_old e \<le> n" using Cons.prems chain_le [of _ n es] by simp
  ultimately show ?case using Cons.prems by simp
qed simp

lemma i128_sat_id: "\<bar>x\<bar> < 2 ^ 127 \<Longrightarrow> i128_sat x = x"
  by (simp add: i128_sat_def)

lemma sep_past:
  assumes "sep r (touch e)" "r_start r < e_at e + e_old e" "chain (e_at e + e_old e) n es" "d \<in> set es"
  shows "sep r (touch d)"
  using assms chain_bounds [OF assms(3,4)] by (auto simp: sep_def)

lemma map_loop_eq:
  assumes "\<forall>p \<in> set ops. effect_of p = Some (op_at p, op_old p, length (e_new (edit_of post p)))"
    and "chain q n (map (edit_of post) ops)" "n \<le> u64_max" "range_ok r"
    and "\<bar>moved\<bar> + weight (map (edit_of post) ops) < 2 ^ 127"
  shows "map_loop ops r moved =
    (if \<exists>p \<in> set ops. overlaps (touched_range p) r then Overlaps
     else map_place r (moved + shift (map (edit_of post) ops) (r_start r)))"
  using assms
proof (induction ops arbitrary: q moved)
  case (Cons p ops)
  let ?e = "edit_of post p" and ?es = "map (edit_of post) ops"
  let ?m = "op_at p + op_old p"
  have ef: "effect_of p = Some (op_at p, op_old p, length (e_new ?e))"
    and ch: "chain ?m n ?es" using Cons.prems by auto
  have okd: "range_ok (touched_range d)" if "d \<in> set (p # ops)" for d
    using that Cons.prems chain_bounds [OF Cons.prems(2), of "edit_of post d"]
    by (auto simp: range_ok_def touched_range_edit [of _ post])
  have t: "range_new (op_at p) (op_old p) = touched_range p"
    by (simp add: touched_range_edit [of p post] touch_def)
  have sat: "sat_add (op_at p) (op_old p) = ?m" and rend: "range_end r = r_start r + r_len r"
    using okd [of p] Cons.prems(4) by (auto simp: sat_add_small range_ok_def touched_range_edit [of _ post])
  consider (o) "overlaps (touched_range p) r"
    | (b) "\<not> overlaps (touched_range p) r" "?m \<le> r_start r"
    | (a) "\<not> overlaps (touched_range p) r" "\<not> ?m \<le> r_start r" by blast
  then show ?case
  proof cases
    case o
    then show ?thesis using ef by (simp add: t)
  next
    case b
    let ?moved = "i128_sat (moved + i128_sat (int (length (e_new ?e)) - int (op_old p)))"
    have mv: "?moved = moved + delta ?e"
      using Cons.prems(5) by (simp add: i128_sat_id delta_def weight_def)
    have "map_loop ops r ?moved =
      (if \<exists>p \<in> set ops. overlaps (touched_range p) r then Overlaps
       else map_place r (?moved + shift ?es (r_start r)))"
      by (rule Cons.IH [OF _ ch]) (use Cons.prems in \<open>auto simp: mv delta_def\<close>)
    then show ?thesis using b ef by (simp add: t sat mv add.assoc)
  next
    case a
    then have s: "sep r (touched_range p)"
      using not_overlaps_cases [OF okd Cons.prems(4), of p]
      by (auto simp: sep_def touched_range_edit [of p post])
    then have "range_end r \<le> op_at p" by (simp add: rend sep_def touched_range_edit [of p post])
    moreover have "\<not> overlaps (touched_range d) r" if "d \<in> set ops" for d
    proof -
      have "sep r (touch (edit_of post d))"
        using sep_past [of r ?e n ?es "edit_of post d"] s a ch that
        by (simp add: touched_range_edit [of _ post])
      then show ?thesis
        using sep_not_overlaps [OF Cons.prems(4) okd, of d] that overlaps_sym
        by (auto simp: touched_range_edit [of _ post])
    qed
    moreover have "shift ?es (r_start r) = 0" using a shift_past [OF ch] by simp
    ultimately show ?thesis using a ef by (auto simp: t sat)
  qed
qed simp

text \<open>The length bound every mapped position stays within.\<close>

lemma carried_range:
  assumes "net_ops (length b) post ops" "r_start r + r_len r \<le> length b"
    and "\<And>p. p \<in> set ops \<Longrightarrow> \<not> overlaps (touched_range p) r"
  shows "int (r_start r) + shift (map (edit_of post) ops) (r_start r) \<ge> 0"
    "nat (int (r_start r) + shift (map (edit_of post) ops) (r_start r)) + r_len r \<le> length (apply_ops b ops post)"
proof -
  let ?es = "map (edit_of post) ops" and ?a = "Edit (r_start r) (r_len r) []"
  have ch: "chain 0 (length b) ?es" and u: "length b \<le> u64_max" using assms(1) by (simp_all add: net_ops_def)
  then show "int (r_start r) + shift ?es (r_start r) \<ge> 0" using shift_ge [of 0 "length b" ?es "r_start r"] by simp
  have r: "touch ?a = r" by (simp add: touch_def range_new_def)
  have "sep (touch ?a) (touch e) \<or> sep (touch e) (touch ?a)" if e: "e \<in> set ?es" for e
  proof -
    obtain p where p: "p \<in> set ops" "e = edit_of post p" using e by auto
    have "range_ok r" "range_ok (touched_range p)"
      using u assms(2) chain_bounds [OF ch e] p by (auto simp: range_ok_def touched_range_edit [of _ post])
    with not_overlaps_cases [of r "touched_range p"] assms(3) [OF p(1)] overlaps_sym [of r "touched_range p"] p
    show ?thesis unfolding r by (auto simp: touched_range_edit [of _ post])
  qed
  then have "apart [?a] ?es" by (auto simp: apart_def)
  with chain_carry [OF ch _ refl, of "[?a]" 0] assms(2)
  show "nat (int (r_start r) + shift ?es (r_start r)) + r_len r \<le> length (apply_ops b ops post)"
    by (simp add: apply_ops_run [OF assms(1)] carry_def)
qed

lemma map_through_one_eq:
  assumes "net_ops (length b) post ops" "length (apply_ops b ops post) \<le> u64_max"
    and "r_start r + r_len r \<le> length b"
  shows "map_through_one ops r =
    (if \<exists>p \<in> set ops. overlaps (touched_range p) r then Overlaps
     else Shifted (range_new (nat (int (r_start r) + shift (map (edit_of post) ops) (r_start r))) (r_len r)))"
proof -
  let ?es = "map (edit_of post) ops"
  have ch: "chain 0 (length b) ?es" and u: "length b \<le> u64_max" using assms(1) by (simp_all add: net_ops_def)
  have "weight ?es \<le> int (length b) + int (length (apply_ops b ops post))"
    using weight_le [OF ch refl] by (simp add: apply_ops_run [OF assms(1)])
  also have "\<dots> < 2 ^ 127" using u assms(2) by (simp add: u64_max_def)
  finally have "map_through_one ops r =
    (if \<exists>p \<in> set ops. overlaps (touched_range p) r then Overlaps else map_place r (shift ?es (r_start r)))"
    unfolding map_through_one_def
    using map_loop_eq [of ops post 0 "length b" r 0] effect_of_edit [OF assms(1)] ch u assms(3)
    by (simp add: range_ok_def)
  moreover have "map_place r (shift ?es (r_start r))
      = Shifted (range_new (nat (int (r_start r) + shift ?es (r_start r))) (r_len r))"
    if "\<not> (\<exists>p \<in> set ops. overlaps (touched_range p) r)"
  proof -
    let ?x = "int (r_start r) + shift ?es (r_start r)"
    have "?x \<ge> 0" "nat ?x \<le> u64_max" using that assms(2) carried_range [OF assms(1,3)] by fastforce+
    then have x: "?x \<ge> 0" "?x \<le> int u64_max" by (simp_all add: nat_le_iff)
    then have "i128_sat ?x = ?x" by (intro i128_sat_id) (simp add: u64_max_def)
    with x show ?thesis by (simp add: map_place_def)
  qed
  ultimately show ?thesis by simp
qed

lemma map_through_one_bytes:
  assumes "net_ops (length b) post ops" "length (apply_ops b ops post) \<le> u64_max"
    and "r_start r + r_len r \<le> length b" "map_through_one ops r = Shifted r'"
  shows "r_len r' = r_len r" "r_start r' + r_len r' \<le> length (apply_ops b ops post)"
    "seg (apply_ops b ops post) (r_start r') (r_len r') = seg b (r_start r) (r_len r)"
proof -
  let ?es = "map (edit_of post) ops"
  have eq: "\<not> (\<exists>p \<in> set ops. overlaps (touched_range p) r)"
    and r': "r' = range_new (nat (int (r_start r) + shift ?es (r_start r))) (r_len r)"
    using map_through_one_eq [OF assms(1-3)] assms(4) by (auto split: if_splits)
  then have no: "\<not> overlaps (touched_range p) r" if "p \<in> set ops" for p using that by blast
  show "r_len r' = r_len r" by (simp add: r')
  show "r_start r' + r_len r' \<le> length (apply_ops b ops post)"
    using carried_range(2) [OF assms(1,3) no] by (simp add: r')
  have ch: "chain 0 (length b) ?es" and u: "length b \<le> u64_max" using assms(1) by (simp_all add: net_ops_def)
  have "sep (touch e) (range_new (r_start r) (r_len r)) \<or> sep (range_new (r_start r) (r_len r)) (touch e)"
    if e: "e \<in> set ?es" for e
  proof -
    obtain p where p: "p \<in> set ops" "e = edit_of post p" using e by auto
    have "range_ok r" "range_ok (touched_range p)"
      using u assms(3) chain_bounds [OF ch e] p by (auto simp: range_ok_def touched_range_edit [of _ post])
    with not_overlaps_cases [of "touched_range p" r] no [OF p(1)] p
    show ?thesis by (auto simp: touched_range_edit [of _ post] sep_def)
  qed
  from seg_run [OF ch refl _ assms(3) this, of "[]"]
  show "seg (apply_ops b ops post) (r_start r') (r_len r') = seg b (r_start r) (r_len r)"
    by (simp add: r' apply_ops_run [OF assms(1)])
qed

lemma evolves_len: "evolves b ds \<Longrightarrow> length b \<le> u64_max"
  by (cases ds) (auto simp: net_ops_def)

lemma map_range_bytes:
  assumes "evolves b ds" "r_start r + r_len r \<le> length b" "map_range (map fst ds) r = Shifted r'"
  shows "r_len r' = r_len r \<and> r_start r' + r_len r' \<le> length (evolve b ds) \<and>
    seg (evolve b ds) (r_start r') (r_len r') = seg b (r_start r) (r_len r)"
  using assms
proof (induction b ds arbitrary: r rule: evolve.induct)
  case (2 b ops post ds)
  then obtain r1 where r1: "map_through_one ops r = Shifted r1" "map_range (map fst ds) r1 = Shifted r'"
    by (auto split: mapped.splits)
  have e: "net_ops (length b) post ops" "evolves (apply_ops b ops post) ds" using 2(2) by simp_all
  from map_through_one_bytes [OF e(1) evolves_len [OF e(2)] 2(3) r1(1)] 2(1) [OF e(2) _ r1(2)]
  show ?case by auto
qed simp

section \<open>Two deltas on one base\<close>

lemma move_op_Some:
  assumes "net_ops (length b) post I" "length (apply_ops b I post) \<le> u64_max"
    and "op_at a + op_old a \<le> length b" "move_op [I] a = Some a'"
  shows "a' = a\<lparr>op_at := nat (int (op_at a) + shift (map (edit_of post) I) (op_at a))\<rparr>"
    "i \<in> set I \<Longrightarrow> \<not> overlaps (touched_range i) (touched_range a)"
proof -
  have "r_start (touched_range a) = op_at a" "r_len (touched_range a) = op_old a"
    by (simp_all add: touched_range_edit [of a "[]"])
  with assms(3,4) map_through_one_eq [OF assms(1,2), of "touched_range a"]
  show "a' = a\<lparr>op_at := nat (int (op_at a) + shift (map (edit_of post) I) (op_at a))\<rparr>"
    "i \<in> set I \<Longrightarrow> \<not> overlaps (touched_range i) (touched_range a)"
    by (auto simp: move_op_def split: mapped.splits if_splits)
qed

lemma move_op_apart:
  assumes "net_ops (length b) post I" "length (apply_ops b I post) \<le> u64_max"
    and "op_at a + op_old a \<le> length b" "\<And>i. i \<in> set I \<Longrightarrow> \<not> overlaps (touched_range i) (touched_range a)"
  shows "move_op [I] a = Some (a\<lparr>op_at := nat (int (op_at a) + shift (map (edit_of post) I) (op_at a))\<rparr>)"
proof -
  have "r_start (touched_range a) = op_at a" "r_len (touched_range a) = op_old a"
    by (simp_all add: touched_range_edit [of a "[]"])
  with assms(3,4) map_through_one_eq [OF assms(1,2), of "touched_range a"]
  show ?thesis by (auto simp: move_op_def)
qed

lemma those_map_Some: "those (map f xs) = Some ys \<longleftrightarrow> map f xs = map Some ys"
  by (induction xs arbitrary: ys) (auto split: option.splits simp: Cons_eq_map_conv)

lemma op_old_move [simp]: "op_old (a\<lparr>op_at := x\<rparr>) = op_old a"
  by (simp add: op_old_def)

lemma edit_of_move: "edit_of post (a\<lparr>op_at := x\<rparr>) = Edit x (op_old a) (e_new (edit_of post a))"
  by (simp add: edit_of_def op_old_def)

lemma net_opsD:
  assumes "net_ops n post ops" "p \<in> set ops"
  shows "is_content (op_kind p)" "fits_op n (length post) p" "op_at p + op_old p \<le> n"
  using assms fits_op_bounds by (auto simp: net_ops_def list_all_iff fits_base_def)

lemma net_ops_chain: "net_ops n post ops \<Longrightarrow> chain 0 n (map (edit_of post) ops)"
  by (simp add: net_ops_def)

lemma shift_total:
  "(\<And>e. e \<in> set es \<Longrightarrow> e_at e + e_old e \<le> x \<or> delta e = 0) \<Longrightarrow> shift es x = sum_list (map delta es)"
proof (induction es)
  case (Cons e es)
  from Cons.prems [of e] have "(if e_at e + e_old e \<le> x then delta e else 0) = delta e" by auto
  with Cons show ?case by simp
qed simp

lemma net_apart:
  assumes "net_ops n pa A" "net_ops n pi I" "a \<in> set A" "i \<in> set I"
    and "\<not> overlaps (touched_range i) (touched_range a)"
  shows "sep (touch (edit_of pa a)) (touch (edit_of pi i)) \<or> sep (touch (edit_of pi i)) (touch (edit_of pa a))"
proof -
  have "n \<le> u64_max" using assms(1) by (simp add: net_ops_def)
  then have "range_ok (touched_range i)" "range_ok (touched_range a)"
    using net_opsD(3) [OF assms(1,3)] net_opsD(3) [OF assms(2,4)]
    by (auto simp: range_ok_def touched_range_edit [of _ pi])
  from not_overlaps_cases [OF this assms(5)] show ?thesis
    by (auto simp: touched_range_edit [of a pa] touched_range_edit [of i pi])
qed

text \<open>A moved delta is again a net operation set, over the content it was moved to.\<close>

lemma moved_end:
  assumes "net_ops (length b) pi I" "net_ops (length b) pa A" "a \<in> set A"
    and no: "\<And>i. i \<in> set I \<Longrightarrow> \<not> overlaps (touched_range i) (touched_range a)"
    and "tail_safe (length b) A I" "op_kind a = KTruncate \<or> op_kind a = KExtend"
  shows "shift (map (edit_of pi) I) (op_at a) = sum_list (map delta (map (edit_of pi) I))"
proof (rule shift_total)
  fix e assume "e \<in> set (map (edit_of pi) I)"
  then obtain i where i: "i \<in> set I" "e = edit_of pi i" by auto
  have bi: "op_at i + op_old i \<le> length b" using net_opsD(3) [OF assms(1) i(1)] .
  show "e_at e + e_old e \<le> op_at a \<or> delta e = 0"
  proof (cases "op_kind a = KExtend")
    case True
    then have "op_at a = length b" using net_opsD(2) [OF assms(2,3)] by (simp add: fits_op_def)
    with bi i show ?thesis by simp
  next
    case False
    with assms(6) have k: "op_kind a = KTruncate" by simp
    then have l: "op_at a + op_len a = length b" "op_old a = op_len a"
      using net_opsD(2) [OF assms(2,3)] by (simp_all add: fits_op_truncate op_old_def)
    from net_apart [OF assms(2,1,3) i(1) no [OF i(1)]] show ?thesis
    proof
      assume "sep (touch (edit_of pi i)) (touch (edit_of pa a))"
      then show ?thesis using i by (simp add: sep_touch)
    next
      assume "sep (touch (edit_of pa a)) (touch (edit_of pi i))"
      then have "op_at i = length b" "op_old i = 0" using l bi by (simp_all add: sep_touch)
      moreover have "\<not> adds (op_kind i)"
        using assms(3,5) i(1) k \<open>op_at i = length b\<close> by (auto simp: tail_safe_def)
      ultimately show ?thesis using i by (simp add: delta_def edit_of_def)
    qed
  qed
qed

lemma moved_edits:
  assumes "net_ops (length b) pi I" "net_ops (length b) pa A" "length (apply_ops b I pi) \<le> u64_max"
    and "those (map (move_op [I]) A) = Some A'"
  shows "A' = map (\<lambda>a. a\<lparr>op_at := nat (int (op_at a) + shift (map (edit_of pi) I) (op_at a))\<rparr>) A"
    "map (edit_of pa) A' = map (carry 0 (map (edit_of pi) I)) (map (edit_of pa) A)"
    "apart (map (edit_of pa) A) (map (edit_of pi) I)"
    "a \<in> set A \<Longrightarrow> i \<in> set I \<Longrightarrow> \<not> overlaps (touched_range i) (touched_range a)"
proof -
  let ?f = "\<lambda>a. a\<lparr>op_at := nat (int (op_at a) + shift (map (edit_of pi) I) (op_at a))\<rparr>"
  from assms(4) have m: "map (move_op [I]) A = map Some A'" by (simp add: those_map_Some)
  have mv: "\<exists>a'. move_op [I] a = Some a'" if "a \<in> set A" for a
    using m that by (metis (no_types, lifting) imageE image_eqI image_set)
  have "map (move_op [I]) A = map Some (map ?f A)"
    using mv move_op_Some(1) [OF assms(1,3) net_opsD(3) [OF assms(2)]] by fastforce
  then have "map Some A' = map Some (map ?f A)" by (simp only: m)
  then show A': "A' = map ?f A" by (simp only: inj_map_eq_map [OF inj_Some])
  show "map (edit_of pa) A' = map (carry 0 (map (edit_of pi) I)) (map (edit_of pa) A)"
    by (simp add: A' edit_of_move carry_def)
  show no: "\<not> overlaps (touched_range i) (touched_range a)" if "a \<in> set A" "i \<in> set I" for a i
    using mv [OF that(1)] move_op_Some(2) [OF assms(1,3) net_opsD(3) [OF assms(2) that(1)] _ that(2)] by blast
  show "apart (map (edit_of pa) A) (map (edit_of pi) I)"
    unfolding apart_def using net_apart [OF assms(2,1)] no by fastforce
qed

lemma moved_fits:
  assumes "fits_op n m a" "is_content (op_kind a)" "x + op_old a \<le> n'" "n' \<le> u64_max"
    and "op_kind a = KTruncate \<Longrightarrow> x + op_len a = n'" "op_kind a = KExtend \<Longrightarrow> x = n'"
  shows "fits_op n' m (a\<lparr>op_at := x\<rparr>)"
  using assms by (cases "op_kind a")
    (auto simp: fits_op_def Let_def op_old_def is_content_def checked_add_def)

lemma moved_net_ops:
  assumes I: "net_ops (length b) pi I" and A: "net_ops (length b) pa A"
    and u: "length (apply_ops b I pi) \<le> u64_max"
    and mv: "those (map (move_op [I]) A) = Some A'" and t: "tail_safe (length b) A I"
  shows "net_ops (length (apply_ops b I pi)) pa A'"
proof -
  let ?I = "map (edit_of pi) I" and ?N = "length (apply_ops b I pi)"
  note m = moved_edits [OF I A u mv]
  have ch: "chain 0 ?N (map (edit_of pa) A')"
    using chain_carry [OF net_ops_chain [OF I] net_ops_chain [OF A] refl m(3), of 0]
    by (simp add: m(2) apply_ops_run [OF I] flip: map_map)
  have len: "int ?N = int (length b) + sum_list (map delta ?I)"
    using length_run [OF net_ops_chain [OF I] refl] by (simp add: apply_ops_run [OF I])
  have "is_content (op_kind p) \<and> fits_op ?N (length pa) p" if pA: "p \<in> set A'" for p
  proof -
    let ?x = "\<lambda>a. nat (int (op_at a) + shift ?I (op_at a))"
    obtain a where a: "a \<in> set A" "p = a\<lparr>op_at := ?x a\<rparr>" using pA unfolding m(1) by auto
    note d = net_opsD [OF A a(1)]
    have "edit_of pa p \<in> set (map (edit_of pa) A')" using pA by simp
    from chain_bounds [OF ch this] a(2) have "?x a + op_old a \<le> ?N" by simp
    moreover have ge: "int (op_at a) + shift ?I (op_at a) \<ge> 0"
      using shift_ge [OF net_ops_chain [OF I], of "op_at a"] by simp
    moreover have "?x a + op_len a = ?N" if "op_kind a = KTruncate"
      using moved_end [OF I A a(1) m(4) t] that fits_op_truncate [OF d(2)] a(1) len ge by simp
    moreover have "?x a = ?N" if "op_kind a = KExtend"
      using moved_end [OF I A a(1) m(4) t] that d(2) a(1) len ge by (simp add: fits_op_def)
    ultimately have "fits_op ?N (length pa) p"
      unfolding a(2) using d(1,2) u by (intro moved_fits)
    then show ?thesis using d(1) a(2) by simp
  qed
  then show ?thesis using ch u A by (simp add: net_ops_def list_all_iff fits_base_def)
qed

lemma deltas_commute:
  assumes I: "net_ops (length b) pi I" and A: "net_ops (length b) pa A"
    and u: "length (apply_ops b I pi) \<le> u64_max" "length (apply_ops b A pa) \<le> u64_max"
    and mv: "those (map (move_op [I]) A) = Some A'"
    and t: "tail_safe (length b) A I" "tail_safe (length b) I A"
  shows "\<exists>I'. those (map (move_op [A]) I) = Some I' \<and>
    net_ops (length (apply_ops b A pa)) pi I' \<and>
    apply_ops (apply_ops b I pi) A' pa = apply_ops (apply_ops b A pa) I' pi"
proof -
  let ?I = "map (edit_of pi) I" and ?A = "map (edit_of pa) A"
  note m = moved_edits [OF I A u(1) mv]
  have "\<exists>I'. those (map (move_op [A]) I) = Some I'"
  proof -
    have "move_op [A] i = Some (i\<lparr>op_at := nat (int (op_at i) + shift ?A (op_at i))\<rparr>)" if "i \<in> set I" for i
      using m(4) that overlaps_sym by (intro move_op_apart [OF A u(2) net_opsD(3) [OF I]]) blast+
    then have "map (move_op [A]) I
        = map Some (map (\<lambda>i. i\<lparr>op_at := nat (int (op_at i) + shift ?A (op_at i))\<rparr>) I)" by simp
    then show ?thesis by (simp only: those_map_Some) blast
  qed
  then obtain I' where I': "those (map (move_op [A]) I) = Some I'" by blast
  note nA = moved_net_ops [OF I A u(1) mv t(1)] and nI = moved_net_ops [OF A I u(2) I' t(2)]
  note m' = moved_edits [OF A I u(2) I']
  have "apply_ops (apply_ops b I pi) A' pa = run_edits (run_edits b 0 ?I) 0 (map (carry 0 ?I) ?A)"
    using apply_ops_run [OF nA] m(2) by (simp only: apply_ops_run [OF I])
  also have "\<dots> = run_edits (run_edits b 0 ?A) 0 (map (carry 0 ?A) ?I)"
    using net_ops_chain [OF A] net_ops_chain [OF I] m(3) by (rule diamond_edits)
  also have "\<dots> = apply_ops (apply_ops b A pa) I' pi"
    using apply_ops_run [OF nI] m'(2) by (simp only: apply_ops_run [OF A])
  finally show ?thesis using I' nI by blast
qed

section \<open>Properties\<close>

text \<open>
  C6: mapping a range forward through any number of deltas is sound. When no delta is reported to
  touch it, the mapped range lies in the head content and holds exactly the bytes the range held
  in the base.
\<close>

theorem map_range_keeps_bytes:
  assumes "evolves b ds" "r_start r + r_len r \<le> length b" "map_range (map fst ds) r = Shifted r'"
  shows "r_len r' = r_len r \<and> r_start r' + r_len r' \<le> length (evolve b ds) \<and>
    seg (evolve b ds) (r_start r') (r_len r') = seg b (r_start r) (r_len r)"
  by (rule map_range_bytes [OF assms])

lemmas small_ops = evolves.simps evolve.simps net_ops_def fits_base_def fits_op_def is_content_def adds_def
  op_old_def edit_of_def apply_ops_def apply_op_def push_slice_def span_bytes_def slice_get_def slice_from_def
  sat_add_def checked_add_def u64_max_def seg_def touched_range_def range_new_def move_op_def
  map_through_one_def map_place_def effect_of_def i128_sat_def overlaps_def range_end_def tail_safe_def

definition demo_insert :: op where
  "demo_insert = \<lparr>op_kind = KInsert, op_flags = 0, op_path = 0, op_at = 0, op_len = 2, op_src = 0\<rparr>"

definition demo_delete :: op where
  "demo_delete = \<lparr>op_kind = KDelete, op_flags = 0, op_path = 0, op_at = 2, op_len = 1, op_src = 0\<rparr>"

lemma map_range_keeps_bytes_witness:
  "map_range [[demo_insert]] (range_new 2 2) = Shifted (range_new 4 2) \<and>
   seg (evolve [1, 2, 3, 4] [([demo_insert], [9, 8])]) 4 2 = seg [1, 2, 3, 4 :: byte] 2 2"
proof -
  have m: "map_range (map fst [([demo_insert], [9, 8 :: byte])]) (range_new 2 2) = Shifted (range_new 4 2)"
    by (simp add: small_ops demo_insert_def)
  moreover have "evolves [1, 2, 3, 4] [([demo_insert], [9, 8])]" by (simp add: small_ops demo_insert_def)
  ultimately show ?thesis
    using map_range_keeps_bytes [of "[1, 2, 3, 4]" "[([demo_insert], [9, 8])]" "range_new 2 2" "range_new 4 2"]
    by simp
qed

text \<open>
  C2: concurrent deltas commute. Two net operation sets over one base, every operation of the first
  placed by the mapping through the second, and no truncation meeting an addition at the end of
  the file: then the second is placed by the mapping through the first as well, and applying
  them in either order gives the same content.
\<close>

theorem concurrent_deltas_commute:
  assumes "net_ops (length b) pi I" "net_ops (length b) pa A"
    and "length (apply_ops b I pi) \<le> u64_max" "length (apply_ops b A pa) \<le> u64_max"
    and "those (map (move_op [I]) A) = Some A'"
    and "tail_safe (length b) A I" "tail_safe (length b) I A"
  shows "\<exists>I'. those (map (move_op [A]) I) = Some I' \<and>
    apply_ops (apply_ops b I pi) A' pa = apply_ops (apply_ops b A pa) I' pi"
  using deltas_commute [OF assms] by blast

lemma concurrent_deltas_commute_witness:
  "\<exists>I'. those (map (move_op [[demo_delete]]) [demo_insert]) = Some I' \<and>
    apply_ops (apply_ops [1, 2, 3, 4] [demo_insert] [9, 8]) [demo_delete\<lparr>op_at := 4\<rparr>] []
      = apply_ops (apply_ops [1, 2, 3, 4] [demo_delete] []) I' [9, 8]"
  by (rule concurrent_deltas_commute) (simp_all add: small_ops demo_insert_def demo_delete_def)

text \<open>
  C11: the mapping is exact on one delta. It reports an overlap precisely when the delta has an
  operation that touches the range.
\<close>

theorem map_through_one_exact:
  assumes "net_ops (length b) post ops" "length (apply_ops b ops post) \<le> u64_max"
    and "r_start r + r_len r \<le> length b"
  shows "map_through_one ops r = Overlaps \<longleftrightarrow> (\<exists>p \<in> set ops. overlaps (touched_range p) r)"
  using map_through_one_eq [OF assms] by simp

lemma map_through_one_exact_witness: "map_through_one [demo_delete] (range_new 1 2) = Overlaps"
  using map_through_one_exact [of "[1, 2, 3, 4]" "[]" "[demo_delete]" "range_new 1 2"]
  by (simp add: small_ops demo_delete_def)

end
