(* ===== verification/Splice.thy ===== *)
theory Splice
  imports Content
begin

text \<open>
  \<open>crates/merge/src/splice.rs\<close>: the splice over extent lists, which moves references and never
  bytes. It is shown to refine the byte splice: reading the spliced extents gives \<open>apply\<close> of the
  content the base extents read as.
\<close>

datatype source = FromBase | FromPost

record extent =
  x_source :: source
  x_at :: nat
  x_len :: nat

definition extents_len :: "extent list \<Rightarrow> nat" where
  "extents_len xs = wrap_sum (map x_len xs)"

text \<open>The loop of \<open>copy_base\<close>, at logical offset \<open>logical\<close>.\<close>

fun copy_loop :: "extent list \<Rightarrow> nat \<Rightarrow> nat \<Rightarrow> nat \<Rightarrow> extent list" where
  "copy_loop [] logical from to = []"
| "copy_loop (x # xs) logical from to =
     (let start = logical;
          end = sat_add logical (x_len x);
          later = copy_loop xs end from to
      in if end \<le> from \<or> start \<ge> to then later
         else (let slice_start = max from start; slice_end = min to end
               in x\<lparr>x_at := sat_add (x_at x) (slice_start - start), x_len := slice_end - slice_start\<rparr> # later))"

definition copy_base :: "extent list \<Rightarrow> nat \<Rightarrow> nat \<Rightarrow> extent list \<Rightarrow> extent list" where
  "copy_base base from to out = (if from \<ge> to then out else out @ copy_loop base 0 from to)"

definition post_extent :: "op \<Rightarrow> extent" where
  "post_extent p = \<lparr>x_source = FromPost, x_at = op_src p, x_len = op_len p\<rparr>"

definition splice_op :: "extent list \<Rightarrow> op \<Rightarrow> extent list \<times> nat \<Rightarrow> extent list \<times> nat" where
  "splice_op base p st =
     (let (out, base_pos) = st
      in if \<not> adds (op_kind p) \<and> op_kind p \<notin> {KDelete, KTruncate} then st
         else
           let (out, base_pos) =
             (if op_at p > base_pos then (copy_base base base_pos (op_at p) out, op_at p) else (out, base_pos))
           in case op_kind p of
                KDelete \<Rightarrow> (out, sat_add (op_at p) (op_len p))
              | KTruncate \<Rightarrow> (out, extents_len base)
              | KOverwrite \<Rightarrow> (out @ [post_extent p], sat_add (op_at p) (op_len p))
              | KInsert \<Rightarrow> (out @ [post_extent p], base_pos)
              | KExtend \<Rightarrow> (out @ [post_extent p], base_pos)
              | _ \<Rightarrow> (out, base_pos))"

definition splice :: "extent list \<Rightarrow> op list \<Rightarrow> extent list" where
  "splice base ops =
     (let (out, base_pos) = fold (splice_op base) ops ([], 0)
      in if base_pos < extents_len base then copy_base base base_pos (extents_len base) out else out)"

section \<open>Reading extents\<close>

text \<open>The bytes an extent list reads, given the bytes of the two stores.\<close>

definition extent_bytes :: "(source \<Rightarrow> byte list) \<Rightarrow> extent \<Rightarrow> byte list" where
  "extent_bytes store x = seg (store (x_source x)) (x_at x) (x_len x)"

definition read_extents :: "(source \<Rightarrow> byte list) \<Rightarrow> extent list \<Rightarrow> byte list" where
  "read_extents store xs = concat (map (extent_bytes store) xs)"

definition extents_ok :: "(source \<Rightarrow> byte list) \<Rightarrow> extent list \<Rightarrow> bool" where
  "extents_ok store xs \<longleftrightarrow>
     list_all (\<lambda>x. x_at x + x_len x \<le> length (store (x_source x))) xs \<and>
     sum_list (map x_len xs) \<le> u64_max \<and> (\<forall>s. length (store s) \<le> u64_max)"

lemma read_extents_simps [simp]:
  "read_extents store [] = []" "read_extents store (x # xs) = extent_bytes store x @ read_extents store xs"
  "read_extents store (xs @ ys) = read_extents store xs @ read_extents store ys"
  by (simp_all add: read_extents_def)

lemma length_extent_bytes:
  "x_at x + x_len x \<le> length (store (x_source x)) \<Longrightarrow> length (extent_bytes store x) = x_len x"
  by (simp add: extent_bytes_def)

lemma length_read_extents:
  "extents_ok store xs \<Longrightarrow> length (read_extents store xs) = sum_list (map x_len xs)"
  by (induction xs) (auto simp: extents_ok_def length_extent_bytes)

lemma extents_len_read: "extents_ok store xs \<Longrightarrow> extents_len xs = length (read_extents store xs)"
  by (simp add: length_read_extents extents_len_def extents_ok_def wrap_sum_small)

lemma seg_append: "seg (xs @ ys) a n = seg xs a n @ seg ys (a - length xs) (n - (length xs - a))"
  by (simp add: seg_def)

lemma copy_loop_reads:
  assumes "list_all (\<lambda>x. x_at x + x_len x \<le> length (store (x_source x))) xs"
    and "logical + sum_list (map x_len xs) \<le> u64_max" "\<forall>s. length (store s) \<le> u64_max"
    and "from < to"
  shows "read_extents store (copy_loop xs logical from to)
       = seg (read_extents store xs) (from - logical) (to - max from logical)"
  using assms
proof (induction xs arbitrary: logical)
  case (Cons x xs)
  let ?e = "logical + x_len x" and ?b = "extent_bytes store x" and ?r = "read_extents store xs"
  have sat: "sat_add logical (x_len x) = ?e" using Cons.prems(2) by (simp add: sat_add_small)
  have lb: "length ?b = x_len x" using Cons.prems(1) by (simp add: length_extent_bytes)
  have IH: "read_extents store (copy_loop xs ?e from to) = seg ?r (from - ?e) (to - max from ?e)"
    using Cons.prems by (intro Cons.IH) auto
  show ?case
  proof (cases "?e \<le> from \<or> logical \<ge> to")
    case True
    then show ?thesis
    proof
      assume "?e \<le> from"
      with IH lb show ?thesis by (simp add: sat Let_def seg_append_right)
    next
      assume "logical \<ge> to"
      with IH show ?thesis by (simp add: sat Let_def)
    qed
  next
    case False
    let ?s = "max from logical" and ?t = "min to ?e"
    let ?x = "x\<lparr>x_at := sat_add (x_at x) (?s - logical), x_len := ?t - ?s\<rparr>"
    have le: "?s \<le> ?t" "?t \<le> ?e" "logical \<le> ?s" using False Cons.prems(4) by auto
    have b: "x_at x + x_len x \<le> u64_max" using Cons.prems(1,3) by (auto intro: le_trans)
    have "sat_add (x_at x) (?s - logical) = x_at x + (?s - logical)"
      using le b by (intro sat_add_small) linarith
    then have "extent_bytes store ?x = seg ?b (?s - logical) (?t - ?s)"
      using le by (simp add: extent_bytes_def seg_seg)
    moreover have "?s - logical = from - logical" by simp
    moreover have "seg ?b (from - logical) (?t - ?s) = seg ?b (from - logical) (to - ?s)"
      using lb le by (auto simp: seg_def min_def intro!: take_all [symmetric])
    moreover have "seg ?r (from - ?e) (to - max from ?e)
        = seg ?r (from - logical - length ?b) (to - ?s - (length ?b - (from - logical)))"
      using lb False by (auto simp: max_def add.commute)
    ultimately show ?thesis using False IH by (simp add: sat Let_def seg_append)
  qed
qed simp

lemma copy_base_reads:
  assumes "extents_ok store base" "from \<le> to"
  shows "read_extents store (copy_base base from to out)
       = read_extents store out @ seg (read_extents store base) from (to - from)"
  using assms copy_loop_reads [of store base 0 "from" to]
  by (auto simp: copy_base_def extents_ok_def)

section \<open>The splice reads as the byte splice\<close>

lemma splice_op_reads:
  assumes ok: "extents_ok store base" and p: "is_content (op_kind p)"
    and f: "fits_op (extents_len base) (length (store FromPost)) p" and le: "pos \<le> op_at p"
    and s: "splice_op base p (out, pos) = (out', pos')"
  shows "read_extents store out' = read_extents store out @ seg (read_extents store base) pos (op_at p - pos)
           @ e_new (edit_of (store FromPost) p)" "pos' = op_at p + op_old p"
proof -
  have u: "extents_len base \<le> u64_max" using ok by (simp add: extents_len_def wrap_sum_def u64_max_def)
  have sat: "sat_add (op_at p) (op_old p) = op_at p + op_old p"
    using fits_op_bounds [OF f] u by (intro sat_add_small) linarith
  obtain out1 where o1: "(if op_at p > pos then (copy_base base pos (op_at p) out, op_at p) else (out, pos))
      = (out1, op_at p)"
    and r1: "read_extents store out1 = read_extents store out @ seg (read_extents store base) pos (op_at p - pos)"
    using le copy_base_reads [OF ok le, of out] by (cases "op_at p > pos") auto
  have "splice_op base p (out, pos) =
      (if adds (op_kind p) then out1 @ [post_extent p] else out1, op_at p + op_old p)"
    using p sat fits_op_truncate [OF f]
    by (cases "op_kind p") (simp_all add: splice_op_def o1 is_content_def adds_def op_old_def)
  with s have e: "out' = (if adds (op_kind p) then out1 @ [post_extent p] else out1)" "pos' = op_at p + op_old p"
    by auto
  show "pos' = op_at p + op_old p" by (rule e(2))
  show "read_extents store out' = read_extents store out @ seg (read_extents store base) pos (op_at p - pos)
           @ e_new (edit_of (store FromPost) p)"
    by (simp add: e(1) r1 extent_bytes_def post_extent_def edit_of_def)
qed

lemma fold_splice_reads:
  assumes "extents_ok store base" "list_all (\<lambda>p. is_content (op_kind p)) ops"
    and "fits_base ops (extents_len base) (length (store FromPost))"
    and "chain pos (extents_len base) (map (edit_of (store FromPost)) ops)"
    and "fold (splice_op base) ops (out, pos) = (out', pos')"
  shows "pos' \<le> extents_len base \<and>
    read_extents store out' @ drop pos' (read_extents store base)
      = read_extents store out @ run_edits (read_extents store base) pos (map (edit_of (store FromPost)) ops)"
  using assms
proof (induction ops arbitrary: out pos)
  case (Cons p ops)
  obtain out1 pos1 where s: "splice_op base p (out, pos) = (out1, pos1)" by fastforce
  have "is_content (op_kind p)" "fits_op (extents_len base) (length (store FromPost)) p" "pos \<le> op_at p"
    using Cons.prems by (auto simp: fits_base_def)
  note r = splice_op_reads [OF Cons.prems(1) this s]
  from Cons.IH [OF Cons.prems(1), of pos1 out1] Cons.prems s r show ?case by (simp add: fits_base_def)
qed simp

section \<open>Properties\<close>

text \<open>
  C14: the extent splice refines the byte splice. Reading the extents \<open>splice\<close> returns gives the
  content \<open>apply\<close> computes from the bytes the base extents read as, for every net operation set.
\<close>

theorem splice_refines_apply:
  assumes "extents_ok store base" "net_ops (extents_len base) (store FromPost) ops"
  shows "read_extents store (splice base ops) = apply_ops (read_extents store base) ops (store FromPost)"
proof -
  obtain out pos where f: "fold (splice_op base) ops ([], 0) = (out, pos)" by fastforce
  have len: "extents_len base = length (read_extents store base)" using extents_len_read [OF assms(1)] .
  from fold_splice_reads [OF assms(1) _ _ _ f] assms(2)
  have r: "pos \<le> extents_len base"
    "read_extents store out @ drop pos (read_extents store base)
      = run_edits (read_extents store base) 0 (map (edit_of (store FromPost)) ops)"
    by (simp_all add: net_ops_def)
  have "read_extents store (splice base ops) = read_extents store out @ drop pos (read_extents store base)"
    using copy_base_reads [OF assms(1) r(1), of out] r(1) len seg_all [of "drop pos (read_extents store base)"]
    by (auto simp: splice_def f seg_def)
  also have "\<dots> = apply_ops (read_extents store base) ops (store FromPost)"
    using assms(2) unfolding r(2) len by (rule apply_ops_run [symmetric])
  finally show ?thesis .
qed

lemma splice_refines_apply_witness:
  "read_extents (\<lambda>s. case s of FromBase \<Rightarrow> [1, 2, 3, 4] | FromPost \<Rightarrow> [9])
     (splice [\<lparr>x_source = FromBase, x_at = 2, x_len = 2\<rparr>, \<lparr>x_source = FromBase, x_at = 0, x_len = 1\<rparr>]
       [\<lparr>op_kind = KOverwrite, op_flags = 0, op_path = 0, op_at = 1, op_len = 1, op_src = 0\<rparr>])
   = [3, 9, 1 :: byte]"
  by (subst splice_refines_apply)
    (simp_all add: extents_ok_def u64_max_def net_ops_def is_content_def fits_base_def fits_op_def adds_def
      checked_add_def edit_of_def op_old_def extents_len_def wrap_sum_def read_extents_def extent_bytes_def
      apply_ops_def apply_op_def push_slice_def span_bytes_def slice_get_def slice_from_def sat_add_def
      seg_def split: source.splits)

end
