(* ===== verification/Derive.thy ===== *)
theory Derive
  imports Content
begin

text \<open>
  \<open>crates/merge/src/derive.rs\<close>: one path's declared content operations composed into its net
  operations over a list of pieces. Shown here: whatever bytes the journal wrote, the net
  operations, in canonical order and resolved in the final file, are a net operation set over
  the base and rebuild the final file exactly.
\<close>

datatype content_op =
    COverwrite nat nat
  | CExtend nat nat
  | CTruncate nat
  | CInsert nat nat
  | CDelete nat nat

datatype piece = PBase nat nat | PNew nat

fun piece_len :: "piece \<Rightarrow> nat" where
  "piece_len (PBase _ len) = len"
| "piece_len (PNew len) = len"

fun piece_split :: "piece \<Rightarrow> nat \<Rightarrow> piece \<times> piece" where
  "piece_split (PBase base_at len) offset =
     (PBase base_at offset, PBase (sat_add base_at offset) (len - offset))"
| "piece_split (PNew len) offset = (PNew offset, PNew (len - offset))"

definition pieces_len :: "piece list \<Rightarrow> nat" where
  "pieces_len ps = wrap_sum (map piece_len ps)"

text \<open>\<open>split_at\<close>: the list with a boundary at \<open>offset\<close>, and the index of the piece that begins there.\<close>

fun split_loop :: "piece list \<Rightarrow> nat \<Rightarrow> nat \<Rightarrow> piece list \<times> nat" where
  "split_loop [] acc offset = ([], 0)"
| "split_loop (p # ps) acc offset =
     (if acc = offset then (p # ps, 0)
      else if sat_add acc (piece_len p) > offset then
        (let (left, right) = piece_split p (offset - acc) in (left # right # ps, 1))
      else (let (ps', i) = split_loop ps (sat_add acc (piece_len p)) offset in (p # ps', Suc i)))"

definition split_at :: "piece list \<Rightarrow> nat \<Rightarrow> piece list \<times> nat" where
  "split_at ps offset = split_loop ps 0 offset"

text \<open>\<open>Vec::drain(start..end)\<close> and \<open>Vec::insert(at, x)\<close>.\<close>

definition drain :: "'a list \<Rightarrow> nat \<Rightarrow> nat \<Rightarrow> 'a list" where
  "drain xs start end = take start xs @ drop end xs"

definition vec_insert :: "'a list \<Rightarrow> nat \<Rightarrow> 'a \<Rightarrow> 'a list" where
  "vec_insert xs i x = take i xs @ x # drop i xs"

definition insert_new :: "piece list \<Rightarrow> nat \<Rightarrow> nat \<Rightarrow> piece list" where
  "insert_new ps at len =
     (if len = 0 then ps else (let (ps, start) = split_at ps at in vec_insert ps start (PNew len)))"

fun apply_declared :: "piece list \<Rightarrow> content_op \<Rightarrow> piece list" where
  "apply_declared ps (COverwrite at len) =
     (if len = 0 then ps
      else (let (ps, start) = split_at ps at;
                (ps, end) = split_at ps (sat_add at len)
            in vec_insert (drain ps start end) start (PNew len)))"
| "apply_declared ps (CExtend at len) = insert_new ps at len"
| "apply_declared ps (CInsert at len) = insert_new ps at len"
| "apply_declared ps (CDelete at len) =
     (if len = 0 then ps
      else (let (ps, start) = split_at ps at;
                (ps, end) = split_at ps (sat_add at len)
            in drain ps start end))"
| "apply_declared ps (CTruncate len) =
     (let total = pieces_len ps
      in if len < total then (let (ps, cut) = split_at ps len in take cut ps)
         else if len > total then ps @ [PNew (len - total)]
         else ps)"

definition net_op :: "opkind \<Rightarrow> nat \<Rightarrow> nat \<Rightarrow> nat \<Rightarrow> op" where
  "net_op kind at len src =
     \<lparr>op_kind = kind, op_flags = 0, op_path = 0, op_at = at, op_len = len, op_src = src\<rparr>"

definition emit :: "nat \<Rightarrow> nat \<Rightarrow> nat \<Rightarrow> nat \<Rightarrow> nat \<Rightarrow> bool \<Rightarrow> op list" where
  "emit at base_len gone run_len run_src at_end =
     (if gone = 0 \<and> run_len = 0 then []
      else if run_len = 0 then
        (if at_end \<and> sat_add at gone = base_len then [net_op KTruncate at gone u64_max]
         else [net_op KDelete at gone u64_max])
      else if gone = 0 then
        (if at_end \<and> at = base_len then [net_op KExtend at run_len run_src]
         else [net_op KInsert at run_len run_src])
      else if gone = run_len then [net_op KOverwrite at run_len run_src]
      else [net_op KDelete at gone u64_max, net_op KInsert at run_len run_src])"

text \<open>The maximal run of new pieces at the front: its length, and the pieces past it.\<close>

fun gather :: "nat \<Rightarrow> piece list \<Rightarrow> nat \<times> piece list" where
  "gather run (PNew len # ps) = gather (sat_add run len) ps"
| "gather run ps = (run, ps)"

lemma gather_length: "length (snd (gather run ps)) \<le> length ps"
  by (induction run ps rule: gather.induct) auto

text \<open>The loop of \<open>read_out\<close>: the operations it emits and the base cursor it ends at.\<close>

function read_loop :: "nat \<Rightarrow> piece list \<Rightarrow> nat \<Rightarrow> nat \<Rightarrow> op list \<times> nat" where
  "read_loop base_len [] cursor off = ([], cursor)"
| "read_loop base_len (p # ps) cursor off =
     (let (run_len, rest) = gather 0 (p # ps);
          gone = (case rest of PBase base_at _ # _ \<Rightarrow> base_at - cursor | _ \<Rightarrow> base_len - cursor);
          ops = emit cursor base_len gone run_len off (rest = []);
          cursor = sat_add cursor gone;
          off = sat_add off run_len
      in case rest of
           [] \<Rightarrow> (ops, cursor)
         | s # later \<Rightarrow>
             (let (more, final) =
                read_loop base_len later (sat_add cursor (piece_len s)) (sat_add off (piece_len s))
              in (ops @ more, final)))"
  by pat_completeness auto
termination
proof (relation "measure (\<lambda>(_, ps, _, _). length ps)", goal_cases)
  case (2 base_len p ps cursor off x run rest gone ops c o' s later)
  then have "gather 0 (p # ps) = (run, s # later)" by simp
  with gather_length [of 0 "p # ps"] show ?case by (simp del: gather.simps)
qed simp

definition read_out :: "nat \<Rightarrow> piece list \<Rightarrow> op list" where
  "read_out base_len ps =
     (let (ops, cursor) = read_loop base_len ps 0 0
      in if cursor < base_len then ops @ [net_op KTruncate cursor (base_len - cursor) u64_max] else ops)"

definition compose_content_sized :: "nat \<Rightarrow> content_op list \<Rightarrow> op list \<times> nat" where
  "compose_content_sized base_len journal =
     (let pieces = (if base_len > 0 then [PBase 0 base_len] else []);
          pieces = foldl apply_declared pieces journal
      in (read_out base_len pieces, pieces_len pieces))"

definition compose_content :: "nat \<Rightarrow> content_op list \<Rightarrow> op list" where
  "compose_content base_len journal = fst (compose_content_sized base_len journal)"

section \<open>The file the journal wrote\<close>

text \<open>
  A declared operation together with the bytes it wrote, applied to the file. \<open>declared_ok\<close> is
  what the journal records of an operation that happened: it lies in the file of the moment.
\<close>

fun write_op :: "byte list \<Rightarrow> content_op \<times> byte list \<Rightarrow> byte list" where
  "write_op f (COverwrite at len, w) = take at f @ w @ drop (at + len) f"
| "write_op f (CExtend at len, w) = take at f @ w @ drop at f"
| "write_op f (CInsert at len, w) = take at f @ w @ drop at f"
| "write_op f (CDelete at len, w) = take at f @ drop (at + len) f"
| "write_op f (CTruncate len, w) = take len f @ replicate (len - length f) 0"

fun declared_ok :: "byte list \<Rightarrow> content_op \<times> byte list \<Rightarrow> bool" where
  "declared_ok f (COverwrite at len, w) \<longleftrightarrow> at + len \<le> length f \<and> length w = len"
| "declared_ok f (CExtend at len, w) \<longleftrightarrow> at = length f \<and> length w = len"
| "declared_ok f (CInsert at len, w) \<longleftrightarrow> at \<le> length f \<and> length w = len"
| "declared_ok f (CDelete at len, w) \<longleftrightarrow> at + len \<le> length f"
| "declared_ok f (CTruncate len, w) \<longleftrightarrow> True"

fun journal_ok :: "byte list \<Rightarrow> (content_op \<times> byte list) list \<Rightarrow> bool" where
  "journal_ok f [] \<longleftrightarrow> length f \<le> u64_max"
| "journal_ok f (j # js) \<longleftrightarrow> length f \<le> u64_max \<and> declared_ok f j \<and> journal_ok (write_op f j) js"

section \<open>What a piece list denotes\<close>

fun reads_as :: "byte list \<Rightarrow> piece list \<Rightarrow> byte list \<Rightarrow> bool" where
  "reads_as base [] f \<longleftrightarrow> f = []"
| "reads_as base (PNew l # ps) f \<longleftrightarrow> l \<le> length f \<and> reads_as base ps (drop l f)"
| "reads_as base (PBase a l # ps) f \<longleftrightarrow>
     l \<le> length f \<and> take l f = seg base a l \<and> reads_as base ps (drop l f)"

text \<open>The base runs are non-empty, in base order, and inside the base.\<close>

fun bases_from :: "nat \<Rightarrow> piece list \<Rightarrow> nat" where
  "bases_from c [] = c"
| "bases_from c (PNew _ # ps) = bases_from c ps"
| "bases_from c (PBase a l # ps) = bases_from (a + l) ps"

fun bases_ok :: "nat \<Rightarrow> piece list \<Rightarrow> bool" where
  "bases_ok c [] \<longleftrightarrow> True"
| "bases_ok c (PNew l # ps) \<longleftrightarrow> 0 < l \<and> bases_ok c ps"
| "bases_ok c (PBase a l # ps) \<longleftrightarrow> 0 < l \<and> c \<le> a \<and> bases_ok (a + l) ps"

definition plen :: "piece list \<Rightarrow> nat" where
  "plen ps = sum_list (map piece_len ps)"

definition pieces_ok :: "byte list \<Rightarrow> piece list \<Rightarrow> byte list \<Rightarrow> bool" where
  "pieces_ok base ps f \<longleftrightarrow> reads_as base ps f \<and> bases_ok 0 ps \<and> bases_from 0 ps \<le> length base"

lemma plen_simps [simp]: "plen [] = 0" "plen (p # ps) = piece_len p + plen ps" "plen (ps @ qs) = plen ps + plen qs"
  by (simp_all add: plen_def)

lemma reads_as_len: "reads_as base ps f \<Longrightarrow> length f = plen ps"
  by (induction base ps f rule: reads_as.induct) auto

lemma reads_as_append:
  "reads_as base (ps @ qs) f \<longleftrightarrow>
     plen ps \<le> length f \<and> reads_as base ps (take (plen ps) f) \<and> reads_as base qs (drop (plen ps) f)"
  by (induction base ps f rule: reads_as.induct) (auto simp: drop_take add.commute)

lemma reads_as_appendI:
  "reads_as base ps f \<Longrightarrow> reads_as base qs g \<Longrightarrow> reads_as base (ps @ qs) (f @ g)"
  by (simp add: reads_as_append reads_as_len)

lemma bases_ok_append: "bases_ok c (ps @ qs) \<longleftrightarrow> bases_ok c ps \<and> bases_ok (bases_from c ps) qs"
  by (induction c ps rule: bases_ok.induct) auto

lemma bases_from_append [simp]: "bases_from c (ps @ qs) = bases_from (bases_from c ps) qs"
  by (induction c ps rule: bases_from.induct) auto

lemma bases_from_ge: "bases_ok c ps \<Longrightarrow> c \<le> bases_from c ps"
  by (induction c ps rule: bases_ok.induct) auto

lemma bases_ok_mono: "bases_ok d ps \<Longrightarrow> c \<le> d \<Longrightarrow> bases_ok c ps \<and> bases_from c ps \<le> bases_from d ps"
  by (induction c ps arbitrary: d rule: bases_ok.induct) auto

lemma bases_ok_pos: "bases_ok c ps \<Longrightarrow> p \<in> set ps \<Longrightarrow> 0 < piece_len p"
  by (induction c ps rule: bases_ok.induct) auto

section \<open>Splitting\<close>

lemma piece_split_ok:
  assumes "0 < k" "k < piece_len p" "piece_split p k = (l, r)" "length base \<le> u64_max"
    and "bases_from c [p] \<le> length base \<or> (\<exists>n. p = PNew n)"
  shows "piece_len l = k" "piece_len r = piece_len p - k"
    "reads_as base (l # r # ps) f = reads_as base (p # ps) f"
    "bases_ok c (l # r # ps) = bases_ok c (p # ps)" "bases_from c (l # r # ps) = bases_from c (p # ps)"
proof -
  show "piece_len l = k" "piece_len r = piece_len p - k"
    using assms by (cases p; auto)+
  show "reads_as base (l # r # ps) f = reads_as base (p # ps) f"
  proof (cases p)
    case (PBase a n)
    then have lr: "l = PBase a k" "r = PBase (a + k) (n - k)" "k < n"
      using assms by (auto simp: sat_add_small)
    then have "n \<le> length f \<Longrightarrow> (take n f = seg base a n) = (take k f = seg base a k \<and> take (n - k) (drop k f) = seg base (a + k) (n - k))"
    proof -
      assume "n \<le> length f"
      moreover have "take n f = take k f @ take (n - k) (drop k f)"
        using lr(3) take_add [of k "n - k" f] by simp
      moreover have "seg base a n = seg base a k @ seg base (a + k) (n - k)"
        using lr(3) seg_add [of base a k "n - k"] by simp
      moreover have "length (seg base a k) = k"
        using assms lr(3) PBase by simp
      ultimately show ?thesis using lr(3) by (simp add: append_eq_append_conv)
    qed
    with lr PBase show ?thesis by auto
  qed (use assms in auto)
  show "bases_ok c (l # r # ps) = bases_ok c (p # ps)" "bases_from c (l # r # ps) = bases_from c (p # ps)"
    using assms by (cases p; auto simp: sat_add_small)+
qed

lemma split_loop_ok:
  assumes "split_loop ps acc off = (qs, i)" "reads_as base ps f"
    and "bases_ok c ps" "bases_from c ps \<le> length base" "length base \<le> u64_max"
    and "acc + plen ps \<le> u64_max" "acc \<le> off" "off \<le> acc + plen ps"
  shows "\<exists>us vs. qs = us @ vs \<and> i = length us \<and> acc + plen us = off \<and>
    reads_as base qs f \<and> bases_ok c qs \<and> bases_from c qs = bases_from c ps"
  using assms
proof (induction ps arbitrary: acc f c qs i)
  case (Cons p ps)
  let ?n = "piece_len p" and ?c = "bases_from c [p]"
  have sat: "sat_add acc ?n = acc + ?n" using Cons.prems(6) by (simp add: sat_add_small)
  have tail: "bases_ok ?c ps" "bases_from ?c ps \<le> length base" "reads_as base ps (drop ?n f)"
    using Cons.prems(2-4) by (cases p; simp)+
  consider (here) "acc = off" | (inside) "acc \<noteq> off" "acc + ?n > off" | (past) "acc \<noteq> off" "acc + ?n \<le> off"
    by linarith
  then show ?case
  proof cases
    case here
    then show ?thesis using Cons.prems(1-3) by (intro exI [of _ "[]"] exI [of _ "p # ps"]) simp
  next
    case inside
    obtain l r where lr: "piece_split p (off - acc) = (l, r)" by fastforce
    have "?c \<le> length base" using bases_from_ge [OF tail(1)] tail(2) by linarith
    then have s: "piece_len l = off - acc"
        "reads_as base (l # r # ps) f = reads_as base (p # ps) f"
        "bases_ok c (l # r # ps) = bases_ok c (p # ps)" "bases_from c (l # r # ps) = bases_from c (p # ps)"
      using piece_split_ok [OF _ _ lr Cons.prems(5), of c] inside Cons.prems(7) by auto
    have "qs = l # r # ps" "i = 1" using Cons.prems(1) inside lr by (simp_all add: sat)
    then show ?thesis using s Cons.prems(2,3,7) by (intro exI [of _ "[l]"] exI [of _ "r # ps"]) simp
  next
    case past
    obtain qs' i' where r: "split_loop ps (acc + ?n) off = (qs', i')" by fastforce
    have "\<exists>us vs. qs' = us @ vs \<and> i' = length us \<and> acc + ?n + plen us = off \<and>
      reads_as base qs' (drop ?n f) \<and> bases_ok ?c qs' \<and> bases_from ?c qs' = bases_from ?c ps"
      by (rule Cons.IH [OF r tail(3,1,2)]) (use Cons.prems past in auto)
    then obtain us vs where h: "qs' = us @ vs" "i' = length us" "acc + ?n + plen us = off"
      "reads_as base qs' (drop ?n f)" "bases_ok ?c qs'" "bases_from ?c qs' = bases_from ?c ps" by blast
    have q: "qs = p # qs'" "i = Suc i'" using Cons.prems(1) past r by (simp_all add: sat)
    have "reads_as base qs f \<and> bases_ok c qs \<and> bases_from c qs = bases_from c (p # ps)"
      using h(4-6) Cons.prems(2,3) unfolding q by (cases p) simp_all
    then show ?thesis using h(1-3) q by (intro exI [of _ "p # us"] exI [of _ vs]) simp
  qed
qed simp

lemma split_loop_prefix:
  assumes "acc + plen us < off" "acc + plen us \<le> u64_max" "split_loop vs (acc + plen us) off = (ws, i)"
  shows "split_loop (us @ vs) acc off = (us @ ws, length us + i)"
  using assms
proof (induction us arbitrary: acc)
  case (Cons u us)
  have sat: "sat_add acc (piece_len u) = acc + piece_len u"
    using Cons.prems(2) by (intro sat_add_small) simp
  have "split_loop (us @ vs) (acc + piece_len u) off = (us @ ws, length us + i)"
    using Cons.prems by (intro Cons.IH) (simp_all add: add.assoc)
  with Cons.prems(1) show ?case by (simp add: sat)
qed simp

lemma split_at_ok:
  assumes "pieces_ok base ps f" "length base \<le> u64_max" "length f \<le> u64_max" "off \<le> length f"
    and "split_at ps off = (qs, i)"
  obtains us vs where "qs = us @ vs" "i = length us" "plen us = off" "pieces_ok base (us @ vs) f"
proof -
  have p: "reads_as base ps f" "bases_ok 0 ps" "bases_from 0 ps \<le> length base"
    using assms(1) by (simp_all add: pieces_ok_def)
  have "0 + plen ps \<le> u64_max" "off \<le> 0 + plen ps" using assms(3,4) by (simp_all add: reads_as_len [OF p(1)])
  from split_loop_ok [OF assms(5) [unfolded split_at_def] p assms(2) this(1) le0 this(2)]
  obtain us vs where "qs = us @ vs" "i = length us" "plen us = off"
    "reads_as base qs f" "bases_ok 0 qs" "bases_from 0 qs = bases_from 0 ps" by auto
  with p(3) that [of us vs] show thesis by (simp add: pieces_ok_def)
qed

text \<open>The two splits of a replaced range cut the list in three.\<close>

lemma split_range_ok:
  assumes "pieces_ok base ps f" "length base \<le> u64_max" "length f \<le> u64_max" "0 < len" "at + len \<le> length f"
    and "split_at ps at = (qs, start)" "split_at qs (sat_add at len) = (ws, end)"
  obtains us ms vs where "ws = us @ ms @ vs" "start = length us" "end = length (us @ ms)"
    "plen us = at" "plen ms = len" "pieces_ok base (us @ ms @ vs) f"
proof -
  obtain us vs where s: "qs = us @ vs" "start = length us" "plen us = at" "pieces_ok base (us @ vs) f"
    using split_at_ok [OF assms(1-3) _ assms(6)] assms(5) by (metis add_leD1)
  have sat: "sat_add at len = at + len" using assms(3,5) by (simp add: sat_add_small)
  obtain zs i where z: "split_loop vs at (at + len) = (zs, i)" by fastforce
  then have "split_at (us @ vs) (at + len) = (us @ zs, length us + i)"
    using split_loop_prefix [of 0 us "at + len" vs zs i] assms(3-5) s(3) by (simp add: split_at_def)
  then have w: "ws = us @ zs" "end = length us + i" using assms(7) s(1) by (simp_all add: sat)
  have r: "reads_as base vs (drop at f)" "reads_as base us (take at f)" "bases_ok 0 us" "bases_ok (bases_from 0 us) vs"
    "bases_from (bases_from 0 us) vs \<le> length base"
    using s(3,4) by (simp_all add: pieces_ok_def reads_as_append bases_ok_append)
  have "length f = at + plen vs" using reads_as_len [OF r(1)] assms(5) by simp
  then have "at + plen vs \<le> u64_max" "at \<le> at + len" "at + len \<le> at + plen vs" using assms(3,5) by simp_all
  from split_loop_ok [OF z r(1,4,5) assms(2) this]
  obtain ms ys where h: "zs = ms @ ys" "i = length ms" "plen ms = len"
    "reads_as base zs (drop at f)" "bases_ok (bases_from 0 us) zs"
    "bases_from (bases_from 0 us) zs = bases_from (bases_from 0 us) vs" by auto
  then have "pieces_ok base (us @ zs) f"
    using r assms(5) s(3) by (simp add: pieces_ok_def reads_as_append bases_ok_append)
  with h w s that [of us ms ys] show thesis by simp
qed

section \<open>One declared operation\<close>

lemma pieces_cut:
  assumes "pieces_ok base (us @ ms @ vs) f"
  shows "pieces_ok base (us @ vs) (take (plen us) f @ drop (plen us + plen ms) f)"
    "0 < length w \<Longrightarrow>
      pieces_ok base (us @ PNew (length w) # vs) (take (plen us) f @ w @ drop (plen us + plen ms) f)"
proof -
  have r: "reads_as base us (take (plen us) f)" "reads_as base vs (drop (plen us + plen ms) f)"
    using assms by (simp_all add: pieces_ok_def reads_as_append add.commute)
  have b: "bases_ok 0 us" "bases_ok (bases_from 0 us) ms"
    "bases_ok (bases_from (bases_from 0 us) ms) vs"
    "bases_from (bases_from (bases_from 0 us) ms) vs \<le> length base"
    using assms by (simp_all add: pieces_ok_def bases_ok_append)
  have v: "bases_ok (bases_from 0 us) vs" "bases_from (bases_from 0 us) vs \<le> length base"
    using bases_ok_mono [OF b(3) bases_from_ge [OF b(2)]] b(4) by auto
  show "pieces_ok base (us @ vs) (take (plen us) f @ drop (plen us + plen ms) f)"
    using reads_as_appendI [OF r] b(1) v by (simp add: pieces_ok_def bases_ok_append)
  have "reads_as base (PNew (length w) # vs) (w @ drop (plen us + plen ms) f)" using r(2) by simp
  from reads_as_appendI [OF r(1) this] b(1) v
  show "0 < length w \<Longrightarrow>
      pieces_ok base (us @ PNew (length w) # vs) (take (plen us) f @ w @ drop (plen us + plen ms) f)"
    by (simp add: pieces_ok_def bases_ok_append)
qed

lemma pieces_len_read: "pieces_ok base ps f \<Longrightarrow> length f \<le> u64_max \<Longrightarrow> pieces_len ps = length f"
  using reads_as_len [of base ps f] by (simp add: pieces_ok_def pieces_len_def plen_def wrap_sum_small)

lemma insert_new_ok:
  assumes "pieces_ok base ps f" "length base \<le> u64_max" "length f \<le> u64_max" "at \<le> length f" "length w = len"
  shows "pieces_ok base (insert_new ps at len) (take at f @ w @ drop at f)"
proof (cases "len = 0")
  case True
  then show ?thesis using assms by (simp add: insert_new_def)
next
  case False
  obtain qs i where s: "split_at ps at = (qs, i)" by fastforce
  from split_at_ok [OF assms(1-4) s] obtain us vs
    where "qs = us @ vs" "i = length us" "plen us = at" "pieces_ok base (us @ [] @ vs) f" by auto
  with pieces_cut(2) [of base us "[]" vs f w] False s assms(5) show ?thesis
    by (simp add: insert_new_def vec_insert_def)
qed

lemma apply_declared_ok:
  assumes ps: "pieces_ok base ps f" and b: "length base \<le> u64_max" and f: "length f \<le> u64_max"
    and d: "declared_ok f (j, w)"
  shows "pieces_ok base (apply_declared ps j) (write_op f (j, w))"
proof (cases j)
  case (COverwrite at len)
  show ?thesis
  proof (cases "len = 0")
    case False
    obtain qs i where s: "split_at ps at = (qs, i)" by fastforce
    obtain ws e where t: "split_at qs (sat_add at len) = (ws, e)" by fastforce
    from split_range_ok [OF ps b f _ _ s t] False d COverwrite obtain us ms vs
      where "ws = us @ ms @ vs" "i = length us" "e = length (us @ ms)" "plen us = at" "plen ms = len"
        "pieces_ok base (us @ ms @ vs) f" by auto
    moreover have "0 < length w" "length w = len" using False d COverwrite by auto
    ultimately show ?thesis using pieces_cut(2) [of base us ms vs f w] False s t COverwrite
      by (simp add: vec_insert_def drain_def)
  qed (use ps d COverwrite in simp)
next
  case (CDelete at len)
  show ?thesis
  proof (cases "len = 0")
    case False
    obtain qs i where s: "split_at ps at = (qs, i)" by fastforce
    obtain ws e where t: "split_at qs (sat_add at len) = (ws, e)" by fastforce
    from split_range_ok [OF ps b f _ _ s t] False d CDelete obtain us ms vs
      where "ws = us @ ms @ vs" "i = length us" "e = length (us @ ms)" "plen us = at" "plen ms = len"
        "pieces_ok base (us @ ms @ vs) f" by auto
    with pieces_cut(1) [of base us ms vs f] False s t CDelete show ?thesis by (simp add: drain_def)
  qed (use ps CDelete in simp)
next
  case (CTruncate len)
  consider "len < length f" | "len = length f" | "len > length f" by linarith
  then show ?thesis
  proof cases
    case 1
    obtain qs i where s: "split_at ps len = (qs, i)" by fastforce
    from split_at_ok [OF ps b f _ s] 1 obtain us vs
      where "qs = us @ vs" "i = length us" "plen us = len" "pieces_ok base (us @ vs @ []) f" by auto
    moreover from this have "length f = plen us + plen vs"
      using reads_as_len [of base "us @ vs" f] by (simp add: pieces_ok_def)
    ultimately show ?thesis using pieces_cut(1) [of base us vs "[]" f] 1 s CTruncate pieces_len_read [OF ps f]
      by simp
  next
    case 2
    then show ?thesis using CTruncate pieces_len_read [OF ps f] ps by simp
  next
    case 3
    have "plen ps = length f" using ps reads_as_len [of base ps f] by (simp add: pieces_ok_def)
    with 3 pieces_cut(2) [of base ps "[]" "[]" f "replicate (len - length f) 0"] ps CTruncate pieces_len_read [OF ps f]
    show ?thesis by simp
  qed
next
  case (CExtend at len)
  then show ?thesis using insert_new_ok [OF ps b f, of "length f" w len] d by simp
next
  case (CInsert at len)
  then show ?thesis using insert_new_ok [OF ps b f, of at w len] d by simp
qed

lemma foldl_declared_ok:
  assumes "pieces_ok base ps f" "length base \<le> u64_max" "journal_ok f js"
  shows "pieces_ok base (foldl apply_declared ps (map fst js)) (foldl write_op f js)"
    "length (foldl write_op f js) \<le> u64_max"
proof -
  have "pieces_ok base (foldl apply_declared ps (map fst js)) (foldl write_op f js) \<and>
    length (foldl write_op f js) \<le> u64_max"
    using assms
  proof (induction js arbitrary: ps f)
    case (Cons j js)
    then show ?case using apply_declared_ok [of base ps f "fst j" "snd j"] by simp
  qed simp
  then show "pieces_ok base (foldl apply_declared ps (map fst js)) (foldl write_op f js)"
    "length (foldl write_op f js) \<le> u64_max" by auto
qed

section \<open>The readout\<close>

text \<open>The order \<open>OpsDoc::canonicalize\<close> gives the operations of one path.\<close>

definition at_key :: "op \<Rightarrow> nat \<times> nat" where
  "at_key p = (op_at p, to_wire (op_kind p))"

text \<open>\<open>read_out\<close> from a cursor on, the trailing truncate included.\<close>

definition read_rest :: "nat \<Rightarrow> piece list \<Rightarrow> nat \<Rightarrow> nat \<Rightarrow> op list" where
  "read_rest n ps c off =
     (let (ops, c') = read_loop n ps c off
      in if c' < n then ops @ [net_op KTruncate c' (n - c') u64_max] else ops)"

lemma read_out_rest: "read_out n ps = read_rest n ps 0 0"
  by (simp add: read_out_def read_rest_def)

lemma sort_key_append:
  assumes "\<And>x y. x \<in> set xs \<Longrightarrow> y \<in> set ys \<Longrightarrow> f x \<le> f y"
  shows "sort_key f (xs @ ys) = sort_key f xs @ sort_key f ys"
proof (rule properties_for_sort_key)
  show "mset (sort_key f xs @ sort_key f ys) = mset (xs @ ys)" by simp
  show "filter (\<lambda>x. f k = f x) (sort_key f xs @ sort_key f ys) = filter (\<lambda>x. f k = f x) (xs @ ys)" for k
    using sort_key_stable [of f "f k" xs] sort_key_stable [of f "f k" ys]
    by (simp add: eq_commute [of "f k"])
  show "sorted (map f (sort_key f xs @ sort_key f ys))"
    using assms sorted_sort_key [of f xs] sorted_sort_key [of f ys] by (auto simp: sorted_append)
qed

lemma gather_ok:
  assumes "gather run ps = (n, rest)" "bases_ok c ps" "reads_as base ps f" "run + length f \<le> u64_max"
  shows "run \<le> n" "n - run \<le> length f" "reads_as base rest (drop (n - run) f)"
    "bases_ok c rest" "bases_from c rest = bases_from c ps"
    "rest = [] \<and> (ps \<noteq> [] \<longrightarrow> run < n) \<or> (\<exists>a l qs. rest = PBase a l # qs)"
proof -
  have "run \<le> n \<and> n - run \<le> length f \<and> reads_as base rest (drop (n - run) f) \<and> bases_ok c rest \<and>
    bases_from c rest = bases_from c ps \<and>
    (rest = [] \<and> (ps \<noteq> [] \<longrightarrow> run < n) \<or> (\<exists>a l qs. rest = PBase a l # qs))"
    using assms
  proof (induction run ps arbitrary: f rule: gather.induct)
    case (1 run len ps)
    then have len: "len \<le> length f" "0 < len" by auto
    have sat: "sat_add run len = run + len" using 1 len by (simp add: sat_add_small)
    have "run + len \<le> n \<and> n - (run + len) \<le> length (drop len f) \<and>
      reads_as base rest (drop (n - (run + len)) (drop len f)) \<and> bases_ok c rest \<and>
      bases_from c rest = bases_from c ps \<and>
      (rest = [] \<and> (ps \<noteq> [] \<longrightarrow> run + len < n) \<or> (\<exists>a l qs. rest = PBase a l # qs))"
      using 1(1) [of "drop len f"] 1(2-5) len by (simp add: sat del: drop_drop)
    moreover from this len have "n - (run + len) + len = n - run" by linarith
    ultimately show ?case using len by auto
  qed auto
  then show "run \<le> n" "n - run \<le> length f" "reads_as base rest (drop (n - run) f)"
    "bases_ok c rest" "bases_from c rest = bases_from c ps"
    "rest = [] \<and> (ps \<noteq> [] \<longrightarrow> run < n) \<or> (\<exists>a l qs. rest = PBase a l # qs)" by auto
qed

text \<open>What one boundary emits: content operations that fit, at the cursor, replacing the gap by the run.\<close>

lemma emit_ok:
  assumes "c + gone \<le> n" "n \<le> u64_max" "src + run \<le> length F" "length F \<le> u64_max"
    and "p \<in> set (emit c n gone run src at_end)"
  shows "is_content (op_kind p) \<and> fits_op n (length F) p \<and> op_at p = c"
  using assms
  by (auto simp: emit_def net_op_def is_content_def fits_op_def adds_def sat_add_def
      checked_add_def split: if_splits option.splits)

lemma emit_run:
  "run_edits b c (map (edit_of F) (sort_key at_key (emit c n gone run src at_end)) @ E)
     = seg F src run @ run_edits b (c + gone) E"
  by (auto simp: emit_def net_op_def edit_of_def op_old_def adds_def at_key_def)

lemma emit_chain:
  assumes "chain (c + gone) n E"
  shows "chain c n (map (edit_of F) (sort_key at_key (emit c m gone run src at_end)) @ E)"
  using assms by (auto simp: emit_def net_op_def edit_of_def op_old_def adds_def at_key_def
    intro: chain_mono)

lemma emit_at: "p \<in> set (emit c n gone run src at_end) \<Longrightarrow> op_at p = c"
  by (auto simp: emit_def net_op_def split: if_splits)

lemma read_loop_base:
  assumes "gather 0 (p # ps) = (run, PBase a l # later)"
  shows "read_rest n (p # ps) c off
       = emit c n (a - c) run off False
         @ read_rest n later (sat_add (sat_add c (a - c)) l) (sat_add (sat_add off run) l)"
  using assms by (simp add: read_rest_def Let_def split: prod.splits del: gather.simps)

lemma read_loop_last:
  assumes "gather 0 (p # ps) = (run, [])" "c \<le> n" "n \<le> u64_max"
  shows "read_rest n (p # ps) c off = emit c n (n - c) run off True"
  using assms by (simp add: read_rest_def Let_def sat_add_small del: gather.simps)

text \<open>The operations read from a cursor on, in canonical order, rebuild the rest of the final file.\<close>

definition rebuilds :: "byte list \<Rightarrow> byte list \<Rightarrow> nat \<Rightarrow> nat \<Rightarrow> op list \<Rightarrow> bool" where
  "rebuilds base F c off ops \<longleftrightarrow>
     (\<forall>p \<in> set ops. is_content (op_kind p) \<and> fits_op (length base) (length F) p \<and> c \<le> op_at p) \<and>
     chain c (length base) (map (edit_of F) (sort_key at_key ops)) \<and>
     run_edits base c (map (edit_of F) (sort_key at_key ops)) = drop off F"

lemma rebuilds_emit:
  assumes "rebuilds base F (c + gone + l) (off + run + l) ops" "0 < l"
    and "c + gone + l \<le> length base" "length base \<le> u64_max" "off + run + l \<le> length F" "length F \<le> u64_max"
    and "seg F (off + run) l = seg base (c + gone) l"
  shows "rebuilds base F c off (emit c (length base) gone run off False @ ops)"
proof -
  let ?em = "emit c (length base) gone run off False" and ?E = "map (edit_of F) (sort_key at_key ops)"
  have s: "sort_key at_key (?em @ ops) = sort_key at_key ?em @ sort_key at_key ops"
    using assms(1,2) emit_at by (intro sort_key_append) (fastforce simp: rebuilds_def at_key_def less_eq_prod_def)
  have ch: "chain (c + gone + l) (length base) ?E" using assms(1) by (simp add: rebuilds_def)
  then have hd: "?E = [] \<or> c + gone + l \<le> e_at (hd ?E)" by (cases ?E) auto
  have "run_edits base (c + gone) ?E = seg base (c + gone) l @ run_edits base (c + gone + l) ?E"
    using run_split [OF _ hd, of "c + gone" base] by simp
  also have "\<dots> = seg F (off + run) l @ drop (off + run + l) F"
    using assms(1,7) by (simp add: rebuilds_def)
  also have "\<dots> = drop (off + run) F" using seg_drop_split [of "off + run" "off + run + l" F] by simp
  finally have "seg F off run @ run_edits base (c + gone) ?E = drop off F"
    using seg_drop_split [of off "off + run" F] by simp
  moreover have "chain c (length base) (map (edit_of F) (sort_key at_key ?em) @ ?E)"
    using ch chain_mono [of "c + gone + l" "length base" ?E "c + gone"] by (intro emit_chain) simp
  moreover have "is_content (op_kind p) \<and> fits_op (length base) (length F) p \<and> c \<le> op_at p"
    if "p \<in> set (?em @ ops)" for p
    using that emit_ok [of c gone "length base" off run F p False] assms by (auto simp: rebuilds_def)
  ultimately show ?thesis unfolding rebuilds_def s by (simp add: emit_run)
qed

lemma read_rest_rebuilds:
  assumes "reads_as base ps (drop off F)" "off \<le> length F" "bases_ok c ps" "bases_from c ps \<le> length base"
    and "c \<le> length base" "length base \<le> u64_max" "length F \<le> u64_max"
  shows "rebuilds base F c off (read_rest (length base) ps c off)"
  using assms
proof (induction "length ps" arbitrary: ps c off rule: less_induct)
  case less
  show ?case
  proof (cases ps)
    case Nil
    then show ?thesis
      using less.prems by (auto simp: read_rest_def rebuilds_def net_op_def is_content_def fits_op_def adds_def
          edit_of_def op_old_def)
  next
    case (Cons p qs)
    obtain run later where g: "gather 0 (p # qs) = (run, later)" by fastforce
    have u: "0 + length (drop off F) \<le> u64_max" using less.prems(7) by simp
    note r = gather_ok [OF g less.prems(3) [unfolded Cons] less.prems(1) [unfolded Cons] u, simplified]
    have rl: "off + run \<le> length F" using r less.prems(2,7) by simp
    from r(6) consider (last) "later = []" "0 < run" | (base) a l zs where "later = PBase a l # zs" by auto
    then show ?thesis
    proof cases
      case last
      have "off + run = length F" using r(3) last rl by simp
      then have "drop off F = seg F off run" by (simp add: seg_def)
      moreover have "chain (c + (length base - c)) (length base) []" using less.prems(5) by simp
      from emit_chain [OF this, of F "length base" run off True] emit_run [of base c F "length base" "length base - c" run off True "[]"]
      have "chain c (length base) (map (edit_of F) (sort_key at_key (emit c (length base) (length base - c) run off True)))"
        "run_edits base c (map (edit_of F) (sort_key at_key (emit c (length base) (length base - c) run off True))) = seg F off run"
        using less.prems(5) by simp_all
      ultimately show ?thesis
        using read_loop_last [OF g [unfolded last] less.prems(5,6), of off] less.prems rl Cons
          emit_ok [of c "length base - c" "length base" off run F _ True] by (auto simp: rebuilds_def)
    next
      case base
      have b: "0 < l" "c \<le> a" "bases_ok (a + l) zs" "bases_from (a + l) zs \<le> length base"
        and f: "l \<le> length F - (off + run)" "take l (drop (off + run) F) = seg base a l" "reads_as base zs (drop (off + run + l) F)"
        using r(3-5) less.prems(4) base Cons by (simp_all add: ac_simps)
      have al: "a + l \<le> length base" using bases_from_ge [OF b(3)] b(4) by linarith
      have "length zs < length ps" using gather_length [of 0 "p # qs"] g base Cons by simp
      then have "rebuilds base F (a + l) (off + run + l) (read_rest (length base) zs (a + l) (off + run + l))"
        using b f al rl less.prems(6,7) by (intro less.hyps) auto
      moreover have "sat_add (sat_add c (a - c)) l = a + l" "sat_add (sat_add off run) l = off + run + l"
        using al b(2) f(1) rl less.prems(6,7) by (simp_all add: sat_add_small)
      ultimately show ?thesis
        using rebuilds_emit [of base F c "a - c" l off run] read_loop_base [OF g [unfolded base]] b f al rl less.prems(6,7) Cons
        by (simp add: seg_def)
    qed
  qed
qed

section \<open>Composition\<close>

lemma compose_rebuilds:
  assumes "journal_ok base js"
  shows "rebuilds base (foldl write_op base js) 0 0 (compose_content (length base) (map fst js))"
    "snd (compose_content_sized (length base) (map fst js)) = length (foldl write_op base js)"
    "length base \<le> u64_max" "length (foldl write_op base js) \<le> u64_max"
proof -
  let ?ps = "if length base > 0 then [PBase 0 (length base)] else []"
  show u: "length base \<le> u64_max" using assms by (cases js) auto
  have "pieces_ok base ?ps base" by (simp add: pieces_ok_def seg_def)
  note ok = foldl_declared_ok [OF this u assms]
  show "length (foldl write_op base js) \<le> u64_max" by (rule ok(2))
  show "snd (compose_content_sized (length base) (map fst js)) = length (foldl write_op base js)"
    using pieces_len_read [OF ok] by (simp add: compose_content_sized_def del: foldl_map)
  show "rebuilds base (foldl write_op base js) 0 0 (compose_content (length base) (map fst js))"
    using read_rest_rebuilds [of base "foldl apply_declared ?ps (map fst js)" 0 "foldl write_op base js" 0] ok u
    unfolding compose_content_def compose_content_sized_def Let_def read_out_rest fst_conv pieces_ok_def by simp
qed

lemma rebuilds_net:
  assumes "rebuilds base F 0 0 ops" "length base \<le> u64_max" "length F \<le> u64_max"
  shows "net_ops (length base) F (sort_key at_key ops)" "apply_ops base (sort_key at_key ops) F = F"
proof -
  show n: "net_ops (length base) F (sort_key at_key ops)"
    using assms by (simp add: rebuilds_def net_ops_def fits_base_def list_all_iff)
  show "apply_ops base (sort_key at_key ops) F = F"
    using assms(1) by (simp add: apply_ops_run [OF n] rebuilds_def)
qed

section \<open>Properties\<close>

text \<open>
  C12: composition is correct. For every base content and every journal of declared operations that
  lay in the file when they happened, whatever bytes they wrote: the composed net operations, in
  the canonical order and with their bytes resolved in the final file, are a net operation set
  over the base, applying them to the base gives the final file, and the reported length is its
  length.
\<close>

theorem compose_content_correct:
  assumes "journal_ok base js"
  shows "net_ops (length base) (foldl write_op base js)
      (sort_key at_key (compose_content (length base) (map fst js))) \<and>
    apply_ops base (sort_key at_key (compose_content (length base) (map fst js))) (foldl write_op base js)
      = foldl write_op base js \<and>
    snd (compose_content_sized (length base) (map fst js)) = length (foldl write_op base js)"
proof -
  note c = compose_rebuilds [OF assms]
  show ?thesis using rebuilds_net [OF c(1,3,4)] c(2) by blast
qed

lemma compose_content_correct_witness:
  "apply_ops [1, 2, 3] (sort_key at_key (compose_content 3 [CInsert 1 2, CDelete 2 2])) [1, 9, 3]
     = [1, 9, 3 :: byte]"
  using compose_content_correct [of "[1, 2, 3]" "[(CInsert 1 2, [9, 8]), (CDelete 2 2, [])]"]
  by (simp add: u64_max_def flip: numeral_3_eq_3)

end
