(* ===== verification/Special.thy ===== *)
theory Special
  imports Ops_Doc
begin

text \<open>
  \<open>crates/merge/src/special.rs\<close>, the node half: FIFO and socket metadata and its fixed-width
  encoding, shown exact in both directions. An \<open>i64\<close> is a \<open>64 word\<close>: only its bits are used.
\<close>

datatype special_kind = Fifo | Socket

type_synonym i64 = "64 word"

record special_node =
  sp_kind :: special_kind
  sp_uid :: nat
  sp_gid :: nat
  sp_atime :: i64
  sp_mtime :: i64
  sp_ctime :: i64
  sp_btime :: i64

definition encoded_bytes :: nat where
  "encoded_bytes = 1 + 2 * 4 + 4 * 8"

definition kind_byte :: "special_kind \<Rightarrow> byte" where
  "kind_byte k = (case k of Fifo \<Rightarrow> 0 | Socket \<Rightarrow> 1)"

definition encode_node :: "special_node \<Rightarrow> byte list" where
  "encode_node n =
     [kind_byte (sp_kind n)] @ le_bytes 4 (sp_uid n) @ le_bytes 4 (sp_gid n)
     @ le_bytes 8 (unat (sp_atime n)) @ le_bytes 8 (unat (sp_mtime n))
     @ le_bytes 8 (unat (sp_ctime n)) @ le_bytes 8 (unat (sp_btime n))"

definition node_kind :: "byte \<Rightarrow> doc_decode_error + special_kind" where
  "node_kind b = (if b = 0 then Inr Fifo else if b = 1 then Inr Socket else Inl BadKind)"

text \<open>The closure \<open>time\<close> of \<open>decode\<close>: eight bytes read as an \<open>i64\<close>.\<close>

definition reader_i64 :: "reader \<Rightarrow> doc_decode_error + i64 \<times> reader" where
  "reader_i64 r = rbind (reader_take 8 r) (\<lambda>(word, r). Inr (word_of_nat (from_le word), r))"

definition read_node :: "reader \<Rightarrow> doc_decode_error + special_node \<times> reader" where
  "read_node r =
     rbind (reader_u8 r) (\<lambda>(b, r).
     rbind (node_kind b) (\<lambda>kind.
     rbind (reader_u32 r) (\<lambda>(uid, r).
     rbind (reader_u32 r) (\<lambda>(gid, r).
     rbind (reader_i64 r) (\<lambda>(atime, r).
     rbind (reader_i64 r) (\<lambda>(mtime, r).
     rbind (reader_i64 r) (\<lambda>(ctime, r).
     rbind (reader_i64 r) (\<lambda>(btime, r).
       Inr (\<lparr>sp_kind = kind, sp_uid = uid, sp_gid = gid, sp_atime = atime, sp_mtime = mtime,
             sp_ctime = ctime, sp_btime = btime\<rparr>, r)))))))))"

definition decode_node :: "byte list \<Rightarrow> doc_decode_error + special_node" where
  "decode_node bytes =
     rbind (read_node (reader_new bytes)) (\<lambda>(node, r).
     if \<not> reader_is_empty r then Inl TrailingBytes else Inr node)"

section \<open>Exactness\<close>

text \<open>The owner words are \<open>u32\<close>.\<close>

definition node_ok :: "special_node \<Rightarrow> bool" where
  "node_ok n \<longleftrightarrow> sp_uid n \<le> u32_max \<and> sp_gid n \<le> u32_max"

lemma length_encode_node [simp]: "length (encode_node n) = encoded_bytes"
  by (simp add: encode_node_def encoded_bytes_def)

lemma node_kind_byte [simp]: "node_kind (kind_byte k) = Inr k"
  by (cases k) (simp_all add: node_kind_def kind_byte_def)

lemma node_kindE:
  assumes "rbind (node_kind b) f = Inr x"
  obtains k where "b = kind_byte k" "f k = Inr x"
  using assms that [of Fifo] that [of Socket] by (simp add: node_kind_def kind_byte_def split: if_splits)

lemma unat_i64: "unat (w :: i64) < 256 ^ 8"
  using unsigned_less [of w] by simp

lemma reader_i64_u64: "reader_i64 r = rbind (reader_u64 r) (\<lambda>(n, r). Inr (word_of_nat n, r))"
  by (cases "reader_take 8 r") (auto simp: reader_i64_def reader_u64_def split: prod.splits)

interpretation i64c: exact_codec "\<lambda>w. le_bytes 8 (unat w)" reader_i64 "\<lambda>_. True"
proof unfold_locales
  fix w :: i64 and r
  assume "reads r (le_bytes 8 (unat w))"
  moreover have "unat w \<le> u64_max" using unat_i64 [of w] by (simp add: u64_max_def)
  ultimately show "reader_i64 r = Inr (w, rd_skip (length (le_bytes 8 (unat w))) r)"
    by (simp add: reader_i64_u64 reader_u64_reads)
next
  fix w :: i64 and r r'
  assume ok: "reader_ok r" and "reader_i64 r = Inr (w, r')"
  then obtain n where n: "reader_u64 r = Inr (n, r')" "w = word_of_nat n"
    by (auto simp: reader_i64_u64 rbind_Inr_iff)
  from u64c.dec_exact [OF ok n(1)] have "n \<le> u64_max" "reads r (le_bytes 8 n)" "r' = rd_skip 8 r" by auto
  moreover from this have "unat w = n" by (simp add: n(2) unat_of_nat u64_max_def)
  ultimately show "True \<and> reads r (le_bytes 8 (unat w)) \<and> r' = rd_skip (length (le_bytes 8 (unat w))) r" by simp
qed

lemma reader_i64_reads: "reads r (le_bytes 8 (unat w)) \<Longrightarrow> reader_i64 r = Inr (w, rd_skip 8 r)"
  using i64c.dec_enc [where a = w] by simp

interpretation nodec: exact_codec encode_node read_node node_ok
proof unfold_locales
  fix n r
  assume "node_ok n" "reads r (encode_node n)"
  then show "read_node r = Inr (n, rd_skip (length (encode_node n)) r)"
    by (auto simp: read_node_def encode_node_def node_ok_def reader_u8_reads reader_u32_reads reader_i64_reads)
next
  fix n r r'
  assume "reader_ok r" "read_node r = Inr (n, r')"
  then show "node_ok n \<and> reads r (encode_node n) \<and> r' = rd_skip (length (encode_node n)) r"
    unfolding read_node_def
    by (auto elim!: field_exactE node_kindE i64c.bind_exactE simp: node_ok_def encode_node_def)
qed

text \<open>A decoder that must consume its input reads exactly the encodings.\<close>

lemma decode_node_iff:
  assumes "length bytes \<le> u64_max"
  shows "decode_node bytes = Inr n \<longleftrightarrow> node_ok n \<and> bytes = encode_node n"
proof
  assume "decode_node bytes = Inr n"
  then obtain r where r: "read_node (reader_new bytes) = Inr (n, r)" "rd_rest r = []"
    by (auto simp: decode_node_def rbind_Inr_iff split: if_splits)
  from nodec.dec_exact [OF _ r(1)] assms r(2)
  show "node_ok n \<and> bytes = encode_node n" by (simp add: reads_def)
next
  assume n: "node_ok n \<and> bytes = encode_node n"
  then have "reads (reader_new bytes) (encode_node n)" using assms reads_new [of bytes "[]"] by simp
  with n nodec.dec_enc [of n "reader_new bytes"] show "decode_node bytes = Inr n" by (simp add: decode_node_def)
qed

section \<open>Properties\<close>

text \<open>
  C17: IPC metadata decodes exactly. A byte string decodes to a node precisely when it is that
  node's encoding, so an unknown kind, a truncation and trailing bytes are all refused.
\<close>

theorem special_decode_exact:
  assumes "length bytes \<le> u64_max"
  shows "decode_node bytes = Inr n \<longleftrightarrow> node_ok n \<and> bytes = encode_node n"
  by (rule decode_node_iff [OF assms])

definition demo_node :: special_node where
  "demo_node = \<lparr>sp_kind = Socket, sp_uid = 501, sp_gid = 20, sp_atime = 5, sp_mtime = -1, sp_ctime = 0, sp_btime = 7\<rparr>"

lemma special_decode_exact_witness: "decode_node (encode_node demo_node) = Inr demo_node"
  using special_decode_exact [of "encode_node demo_node" demo_node]
  by (simp add: u64_max_def encoded_bytes_def node_ok_def demo_node_def u32_max_def)

end
