(* ===== verification/Origin.thy ===== *)
theory Origin
  imports Special Ordered_Maps
begin

text \<open>
  \<open>crates/merge/src/origin.rs\<close>: a green's state at version 0, its canonical form and its
  encoding. Every table is written as a count and its entries, so the round trip of a table is
  proved once, in the locale \<open>entry_codec\<close>, and interpreted for each of the seven tables.
\<close>

section \<open>Counts and runs\<close>

definition put_count :: "nat \<Rightarrow> byte list" where
  "put_count n = le_bytes 4 (to_u32 n)"

definition put_bytes :: "byte list \<Rightarrow> byte list" where
  "put_bytes bs = put_count (length bs) @ bs"

definition entry_min_bytes :: nat where
  "entry_min_bytes = 4"

definition take_count :: "reader \<Rightarrow> doc_decode_error + nat \<times> reader" where
  "take_count r =
     rbind (reader_u32 r) (\<lambda>(count, r).
     if count > reader_remaining r div entry_min_bytes then Inl Truncated else Inr (count, r))"

definition reader_bytes :: "reader \<Rightarrow> doc_decode_error + byte list \<times> reader" where
  "reader_bytes r = rbind (reader_u32 r) (\<lambda>(len, r). reader_take len r)"

definition take_str :: "reader \<Rightarrow> doc_decode_error + string \<times> reader" where
  "take_str r =
     rbind (reader_bytes r) (\<lambda>(raw, r).
     rbind (ok_or (from_utf8 raw) BadPath) (\<lambda>s. Inr (s, r)))"

text \<open>\<open>put_count(out, table.len()); for entry in table \<dots>\<close> and its decoding loop.\<close>

definition put_table :: "('a \<Rightarrow> byte list) \<Rightarrow> 'a list \<Rightarrow> byte list" where
  "put_table enc xs = put_count (length xs) @ concat (map enc xs)"

definition take_table ::
  "(reader \<Rightarrow> doc_decode_error + 'a \<times> reader) \<Rightarrow> reader \<Rightarrow> doc_decode_error + 'a list \<times> reader" where
  "take_table dec r = rbind (take_count r) (\<lambda>(n, r). read_n dec n r)"

section \<open>The origin\<close>

record origin =
  or_files :: "(path \<times> byte list) list"
  or_dirs :: "path list"
  or_modes :: "(path \<times> nat) list"
  or_symlinks :: "(path \<times> path) list"
  or_hardlinks :: "(path \<times> path) list"
  or_specials :: "(path \<times> special_node) list"
  or_xattrs :: "(path \<times> path \<times> byte list) list"

definition origin_is_empty :: "origin \<Rightarrow> bool" where
  "origin_is_empty s \<longleftrightarrow> or_files s = [] \<and> or_dirs s = [] \<and> or_modes s = [] \<and> or_symlinks s = []
     \<and> or_hardlinks s = [] \<and> or_xattrs s = [] \<and> or_specials s = []"

text \<open>\<open>Vec::dedup_by_key\<close>: of a run of equal keys, the first stays.\<close>

fun dedup :: "('a \<Rightarrow> 'k) \<Rightarrow> 'a list \<Rightarrow> 'a list" where
  "dedup key (x # y # xs) = (if key x = key y then dedup key (x # xs) else x # dedup key (y # xs))"
| "dedup key xs = xs"

definition dedup_by_key :: "('a \<Rightarrow> 'k::linorder) \<Rightarrow> 'a list \<Rightarrow> 'a list" where
  "dedup_by_key key xs = rev (dedup key (rev (sort_key key xs)))"

definition xattr_key :: "path \<times> path \<times> byte list \<Rightarrow> path \<times> path" where
  "xattr_key x = (fst x, fst (snd x))"

definition origin_canonicalize :: "origin \<Rightarrow> origin" where
  "origin_canonicalize s =
     \<lparr>or_files = dedup_by_key fst (or_files s),
      or_dirs = dedup id (sort (or_dirs s)),
      or_modes = dedup_by_key fst (or_modes s),
      or_symlinks = dedup_by_key fst (or_symlinks s),
      or_hardlinks = dedup_by_key fst (or_hardlinks s),
      or_specials = dedup_by_key fst (or_specials s),
      or_xattrs = dedup_by_key xattr_key (or_xattrs s)\<rparr>"

section \<open>The encoding\<close>

definition origin_magic :: nat where
  "origin_magic = 0x47524f47"

definition origin_version :: nat where
  "origin_version = 2"

definition put_str :: "string \<Rightarrow> byte list" where
  "put_str s = put_bytes (as_bytes s)"

definition put_file :: "path \<times> byte list \<Rightarrow> byte list" where
  "put_file e = put_str (fst e) @ put_bytes (snd e)"

definition put_mode :: "path \<times> nat \<Rightarrow> byte list" where
  "put_mode e = put_str (fst e) @ le_bytes 4 (snd e)"

definition put_link :: "path \<times> path \<Rightarrow> byte list" where
  "put_link e = put_str (fst e) @ put_str (snd e)"

definition put_xattr :: "path \<times> path \<times> byte list \<Rightarrow> byte list" where
  "put_xattr e = put_str (fst e) @ put_str (fst (snd e)) @ put_bytes (snd (snd e))"

definition put_special :: "path \<times> special_node \<Rightarrow> byte list" where
  "put_special e = put_str (fst e) @ encode_node (snd e)"

definition origin_encode :: "origin \<Rightarrow> byte list" where
  "origin_encode s =
     (let c = origin_canonicalize s
      in le_bytes 4 origin_magic @ le_bytes 4 origin_version
         @ put_table put_file (or_files c) @ put_table put_str (or_dirs c)
         @ put_table put_mode (or_modes c) @ put_table put_link (or_symlinks c)
         @ put_table put_link (or_hardlinks c) @ put_table put_xattr (or_xattrs c)
         @ put_table put_special (or_specials c))"

definition take_file :: "reader \<Rightarrow> doc_decode_error + (path \<times> byte list) \<times> reader" where
  "take_file r = rbind (take_str r) (\<lambda>(p, r). rbind (reader_bytes r) (\<lambda>(bs, r). Inr ((p, bs), r)))"

definition take_mode :: "reader \<Rightarrow> doc_decode_error + (path \<times> nat) \<times> reader" where
  "take_mode r = rbind (take_str r) (\<lambda>(p, r). rbind (reader_u32 r) (\<lambda>(m, r). Inr ((p, m), r)))"

definition take_link :: "reader \<Rightarrow> doc_decode_error + (path \<times> path) \<times> reader" where
  "take_link r = rbind (take_str r) (\<lambda>(p, r). rbind (take_str r) (\<lambda>(t, r). Inr ((p, t), r)))"

definition take_xattr :: "reader \<Rightarrow> doc_decode_error + (path \<times> path \<times> byte list) \<times> reader" where
  "take_xattr r =
     rbind (take_str r) (\<lambda>(p, r). rbind (take_str r) (\<lambda>(n, r).
     rbind (reader_bytes r) (\<lambda>(v, r). Inr ((p, n, v), r))))"

definition take_special :: "reader \<Rightarrow> doc_decode_error + (path \<times> special_node) \<times> reader" where
  "take_special r =
     rbind (take_str r) (\<lambda>(p, r). rbind (reader_take encoded_bytes r) (\<lambda>(raw, r).
     rbind (decode_node raw) (\<lambda>node. Inr ((p, node), r))))"

definition origin_decode :: "byte list \<Rightarrow> doc_decode_error + origin" where
  "origin_decode bytes =
     rbind (reader_u32 (reader_new bytes)) (\<lambda>(magic, r).
     if magic \<noteq> origin_magic then Inl BadMagic else
     rbind (reader_u32 r) (\<lambda>(version, r).
     if version \<noteq> origin_version then Inl BadVersion else
     rbind (take_table take_file r) (\<lambda>(files, r).
     rbind (take_table take_str r) (\<lambda>(dirs, r).
     rbind (take_table take_mode r) (\<lambda>(modes, r).
     rbind (take_table take_link r) (\<lambda>(symlinks, r).
     rbind (take_table take_link r) (\<lambda>(hardlinks, r).
     rbind (take_table take_xattr r) (\<lambda>(xattrs, r).
     rbind (take_table take_special r) (\<lambda>(specials, r).
     if \<not> reader_is_empty r then Inl TrailingBytes else
       Inr \<lparr>or_files = files, or_dirs = dirs, or_modes = modes, or_symlinks = symlinks,
            or_hardlinks = hardlinks, or_specials = specials, or_xattrs = xattrs\<rparr>)))))))))"

section \<open>Tables\<close>

text \<open>What a table needs of its entries: they decode, and each takes at least a length prefix.\<close>

locale entry_codec = codec +
  assumes enc_min: "4 \<le> length (enc a)"
begin

lemma entries_min: "4 * length as \<le> length (concat (map enc as))"
proof (induction as)
  case (Cons a as)
  then show ?case using enc_min [of a] by simp
qed simp

end

sublocale entry_codec \<subseteq> table: codec "put_table enc" "take_table dec" "\<lambda>as. list_all ok as \<and> length as \<le> u32_max"
proof unfold_locales
  fix as r
  assume ok: "list_all ok as \<and> length as \<le> u32_max" and r: "reads r (put_table enc as)"
  then have f: "reads r (le_bytes 4 (length as))" "reads (rd_skip 4 r) (concat (map enc as))"
    by (simp_all add: put_table_def put_count_def)
  have "\<not> length as > reader_remaining (rd_skip 4 r) div entry_min_bytes"
    using entries_min [of as] reads_length [OF f(2)]
    by (simp add: remaining_rest entry_min_bytes_def del: rest_skip)
  with f(1) ok have "take_count r = Inr (length as, rd_skip 4 r)"
    by (simp add: take_count_def reader_u32_reads)
  moreover have "read_n dec (length as) (rd_skip 4 r) = Inr (as, rd_skip (length (concat (map enc as))) (rd_skip 4 r))"
    using ok by (intro read_n_enc [OF _ f(2)]) simp
  ultimately show "take_table dec r = Inr (as, rd_skip (length (put_table enc as)) r)"
    by (simp add: take_table_def put_table_def put_count_def)
qed

section \<open>The seven tables\<close>

definition bytes_ok :: "byte list \<Rightarrow> bool" where
  "bytes_ok bs \<longleftrightarrow> length bs \<le> u32_max"

interpretation bytesc: entry_codec put_bytes reader_bytes bytes_ok
proof unfold_locales
  fix bs r
  assume "bytes_ok bs" "reads r (put_bytes bs)"
  then have "reader_u32 r = Inr (length bs, rd_skip 4 r)"
    "reader_take (length bs) (rd_skip 4 r) = Inr (bs, rd_skip (length bs) (rd_skip 4 r))"
    by (simp_all add: put_bytes_def put_count_def bytes_ok_def reader_u32_reads reader_take_all del: skip_skip)
  then show "reader_bytes r = Inr (bs, rd_skip (length (put_bytes bs)) r)"
    by (simp add: reader_bytes_def put_bytes_def put_count_def)
qed (simp add: put_bytes_def put_count_def)

interpretation strc: entry_codec put_str take_str path_ok
proof unfold_locales
  fix p r
  assume p: "path_ok p" and "reads r (put_str p)"
  then have "reader_bytes r = Inr (as_bytes p, rd_skip (length (put_str p)) r)"
    using bytesc.dec_enc [of "as_bytes p" r] by (simp add: put_str_def path_ok_def bytes_ok_def)
  with p show "take_str r = Inr (p, rd_skip (length (put_str p)) r)"
    by (simp add: take_str_def path_ok_def)
qed (simp add: put_str_def put_bytes_def put_count_def)

text \<open>An entry read field by field; the string in front supplies the minimum.\<close>

lemma put_str_min: "4 \<le> length (put_str p @ bs)"
  using strc.enc_min [of p] by simp

lemma str_then: "path_ok p \<Longrightarrow> reads r (put_str p @ bs) \<Longrightarrow>
    take_str r = Inr (p, rd_skip (length (put_str p)) r) \<and> reads (rd_skip (length (put_str p)) r) bs"
  using strc.dec_enc [of p r] by simp

interpretation filec: entry_codec put_file take_file "\<lambda>e. path_ok (fst e) \<and> bytes_ok (snd e)"
proof unfold_locales
  fix e r
  assume a: "path_ok (fst e) \<and> bytes_ok (snd e)" "reads r (put_file e)"
  from str_then [of "fst e" r "put_bytes (snd e)"] bytesc.dec_enc [of "snd e"] a
  show "take_file r = Inr (e, rd_skip (length (put_file e)) r)" by (simp add: put_file_def take_file_def)
qed (simp only: put_file_def put_str_min)

interpretation modec: entry_codec put_mode take_mode "\<lambda>e. path_ok (fst e) \<and> snd e \<le> u32_max"
proof unfold_locales
  fix e r
  assume a: "path_ok (fst e) \<and> snd e \<le> u32_max" "reads r (put_mode e)"
  from str_then [of "fst e" r "le_bytes 4 (snd e)"] u32c.dec_enc [of "snd e"] a
  show "take_mode r = Inr (e, rd_skip (length (put_mode e)) r)" by (simp add: put_mode_def take_mode_def)
qed (simp only: put_mode_def put_str_min)

interpretation linkc: entry_codec put_link take_link "\<lambda>e. path_ok (fst e) \<and> path_ok (snd e)"
proof unfold_locales
  fix e r
  assume a: "path_ok (fst e) \<and> path_ok (snd e)" "reads r (put_link e)"
  from str_then [of "fst e" r "put_str (snd e)"] strc.dec_enc [of "snd e"] a
  show "take_link r = Inr (e, rd_skip (length (put_link e)) r)" by (simp add: put_link_def take_link_def)
qed (simp only: put_link_def put_str_min)

interpretation xattrc: entry_codec put_xattr take_xattr
  "\<lambda>e. path_ok (fst e) \<and> path_ok (fst (snd e)) \<and> bytes_ok (snd (snd e))"
proof unfold_locales
  fix e r
  assume a: "path_ok (fst e) \<and> path_ok (fst (snd e)) \<and> bytes_ok (snd (snd e))" "reads r (put_xattr e)"
  let ?r = "rd_skip (length (put_str (fst e))) r"
  from str_then [of "fst e" r "put_str (fst (snd e)) @ put_bytes (snd (snd e))"]
    str_then [of "fst (snd e)" ?r "put_bytes (snd (snd e))"] bytesc.dec_enc [of "snd (snd e)"] a
  show "take_xattr r = Inr (e, rd_skip (length (put_xattr e)) r)"
    by (cases e) (simp add: put_xattr_def take_xattr_def add.assoc)
qed (simp only: put_xattr_def put_str_min)

interpretation specialc: entry_codec put_special take_special "\<lambda>e. path_ok (fst e) \<and> node_ok (snd e)"
proof unfold_locales
  fix e r
  assume a: "path_ok (fst e) \<and> node_ok (snd e)" "reads r (put_special e)"
  let ?r = "rd_skip (length (put_str (fst e))) r"
  have s: "take_str r = Inr (fst e, ?r)" "reads ?r (encode_node (snd e))"
    using str_then [of "fst e" r "encode_node (snd e)"] a by (simp_all add: put_special_def)
  then have t: "reader_take encoded_bytes ?r = Inr (encode_node (snd e), rd_skip encoded_bytes ?r)"
    by (intro reader_take_all) simp_all
  have "decode_node (encode_node (snd e)) = Inr (snd e)"
    using a decode_node_iff [of "encode_node (snd e)"] by (simp add: encoded_bytes_def u64_max_def)
  with s(1) t show "take_special r = Inr (e, rd_skip (length (put_special e)) r)"
    by (simp add: put_special_def take_special_def)
qed (simp only: put_special_def put_str_min)

section \<open>The canonical form\<close>

lemma dedup_map_of: "map_of (dedup fst xs) = map_of xs"
  by (induction "fst :: 'a \<times> 'b \<Rightarrow> 'a" xs rule: dedup.induct) auto

lemma set_dedup: "set (dedup key xs) \<subseteq> set xs"
  by (induction key xs rule: dedup.induct) auto

lemma length_dedup: "length (dedup key xs) \<le> length xs"
  by (induction key xs rule: dedup.induct) auto

lemma keys_dedup: "key ` set (dedup key xs) = key ` set xs"
  by (induction key xs rule: dedup.induct) auto

lemma dedup_id: "distinct (map key xs) \<Longrightarrow> dedup key xs = xs"
  by (induction key xs rule: dedup.induct) auto

lemma dedup_desc:
  fixes key :: "'a \<Rightarrow> 'k::linorder"
  assumes "sorted_wrt (\<lambda>x y. key y \<le> key x) xs"
  shows "sorted_wrt (\<lambda>x y. key y < key x) (dedup key xs)"
  using assms
proof (induction key xs rule: dedup.induct)
  case (1 key x y xs)
  have sub: "z \<in> set (dedup key (y # xs)) \<Longrightarrow> key z \<le> key y" for z
    using set_dedup [of key "y # xs"] 1(3) by auto
  show ?case
  proof (cases "key x = key y")
    case False
    then have "key y < key x" using 1(3) by auto
    then show ?thesis using 1 False sub by fastforce
  qed (use 1 in auto)
qed auto

lemma dedup_asc:
  fixes key :: "'a \<Rightarrow> 'k::linorder"
  assumes "sorted_wrt (\<lambda>x y. key x \<le> key y) xs"
  shows "sorted_wrt (\<lambda>x y. key x < key y) (dedup key xs)"
  using assms
proof (induction key xs rule: dedup.induct)
  case (1 key x y xs)
  have sub: "z \<in> set (dedup key (y # xs)) \<Longrightarrow> key y \<le> key z" for z
    using set_dedup [of key "y # xs"] 1(3) by auto
  show ?case
  proof (cases "key x = key y")
    case False
    then have "key x < key y" using 1(3) by auto
    then show ?thesis using 1 False sub by fastforce
  qed (use 1 in auto)
qed auto

lemma dedup_by_key_sorted: "sorted_wrt (<) (map key (dedup_by_key key xs))"
proof -
  have "sorted_wrt (\<lambda>x y. key x \<le> key y) (sort_key key xs)"
    using sorted_sort_key [of key xs] by (simp add: sorted_wrt_map)
  then have "sorted_wrt (\<lambda>x y. key y \<le> key x) (rev (sort_key key xs))" by (simp add: sorted_wrt_rev)
  from dedup_desc [OF this] show ?thesis by (simp add: dedup_by_key_def sorted_wrt_rev sorted_wrt_map)
qed

lemma dedup_by_key_sub: "set (dedup_by_key key xs) \<subseteq> set xs" "length (dedup_by_key key xs) \<le> length xs"
  using set_dedup [of key "rev (sort_key key xs)"] length_dedup [of key "rev (sort_key key xs)"]
  by (auto simp: dedup_by_key_def)

lemma map_of_filter: "map_of xs k = map_of (filter (\<lambda>e. fst e = k) xs) k"
  by (induction xs) auto

text \<open>On a keyed table, sorting and dropping repeats is collecting into a \<open>BTreeMap\<close>.\<close>

lemma dedup_by_key_map: "dedup_by_key fst xs = bt_of_list xs"
proof (rule bt_ext)
  show ok: "bt_ok (dedup_by_key fst xs)" using dedup_by_key_sorted [of fst xs] by (simp add: bt_ok_def)
  show "bt_ok (bt_of_list xs)" by simp
  fix k
  let ?ys = "sort_key fst xs"
  have "filter (\<lambda>e. fst e = k) ?ys = filter (\<lambda>e. fst e = k) xs" by (rule sort_key_stable)
  then have f: "map_of (rev ?ys) k = map_of (rev xs) k"
    using map_of_filter [of "rev ?ys" k] map_of_filter [of "rev xs" k] by (simp flip: rev_filter)
  have "distinct (map fst (dedup_by_key fst xs))" using ok by (rule bt_ok_distinct)
  then have "map_of (dedup_by_key fst xs) = map_of (dedup fst (rev ?ys))"
    unfolding dedup_by_key_def by (subst map_of_inject_set) (simp_all flip: rev_map)
  then show "bt_get (dedup_by_key fst xs) k = bt_get (bt_of_list xs) k"
    unfolding bt_get_of_list by (simp add: dedup_map_of f bt_get_def)
qed

section \<open>The round trip\<close>

text \<open>The lengths and owner words fit the widths they are written in, and every path is a \<open>String\<close>.\<close>

definition origin_ok :: "origin \<Rightarrow> bool" where
  "origin_ok s \<longleftrightarrow>
     list_all (\<lambda>e. path_ok (fst e) \<and> bytes_ok (snd e)) (or_files s) \<and> length (or_files s) \<le> u32_max \<and>
     list_all path_ok (or_dirs s) \<and> length (or_dirs s) \<le> u32_max \<and>
     list_all (\<lambda>e. path_ok (fst e) \<and> snd e \<le> u32_max) (or_modes s) \<and> length (or_modes s) \<le> u32_max \<and>
     list_all (\<lambda>e. path_ok (fst e) \<and> path_ok (snd e)) (or_symlinks s) \<and> length (or_symlinks s) \<le> u32_max \<and>
     list_all (\<lambda>e. path_ok (fst e) \<and> path_ok (snd e)) (or_hardlinks s) \<and> length (or_hardlinks s) \<le> u32_max \<and>
     list_all (\<lambda>e. path_ok (fst e) \<and> node_ok (snd e)) (or_specials s) \<and> length (or_specials s) \<le> u32_max \<and>
     list_all (\<lambda>e. path_ok (fst e) \<and> path_ok (fst (snd e)) \<and> bytes_ok (snd (snd e))) (or_xattrs s) \<and>
     length (or_xattrs s) \<le> u32_max"

lemma list_all_dedup_by_key: "list_all P xs \<Longrightarrow> list_all P (dedup_by_key key xs)"
  using dedup_by_key_sub(1) [of key xs] by (auto simp: list_all_iff)

lemma length_dedup_by_key: "length xs \<le> n \<Longrightarrow> length (dedup_by_key key xs) \<le> n"
  using dedup_by_key_sub(2) [of key xs] by simp

lemma origin_ok_canonicalize: "origin_ok s \<Longrightarrow> origin_ok (origin_canonicalize s)"
  using length_dedup [of id "sort (or_dirs s)"] set_dedup [of id "sort (or_dirs s)"]
  by (auto simp: origin_ok_def origin_canonicalize_def list_all_dedup_by_key length_dedup_by_key list_all_iff [of path_ok])

lemmas table_dec = filec.table.dec_enc strc.table.dec_enc modec.table.dec_enc linkc.table.dec_enc
  xattrc.table.dec_enc specialc.table.dec_enc

lemma origin_decode_encode:
  assumes "origin_ok s" "length (origin_encode s) \<le> u64_max"
  shows "origin_decode (origin_encode s) = Inr (origin_canonicalize s)"
proof -
  let ?c = "origin_canonicalize s" and ?r = "reader_new (origin_encode s)"
  have ok: "origin_ok ?c" using assms(1) by (rule origin_ok_canonicalize)
  have "reads ?r (origin_encode s)" using assms(2) reads_new [of "origin_encode s" "[]"] by simp
  then have r: "reads ?r (le_bytes 4 origin_magic @ le_bytes 4 origin_version
      @ put_table put_file (or_files ?c) @ put_table put_str (or_dirs ?c) @ put_table put_mode (or_modes ?c)
      @ put_table put_link (or_symlinks ?c) @ put_table put_link (or_hardlinks ?c)
      @ put_table put_xattr (or_xattrs ?c) @ put_table put_special (or_specials ?c))"
    by (simp only: origin_encode_def Let_def)
  have m: "origin_magic \<le> u32_max" "origin_version \<le> u32_max"
    by (simp_all add: origin_magic_def origin_version_def u32_max_def)
  have len: "length (rd_rest ?r) = length (origin_encode s)" by simp
  show ?thesis
    using r m ok len unfolding reads_append origin_ok_def
    by (elim conjE) (simp add: origin_decode_def reader_u32_reads table_dec origin_encode_def Let_def
        del: length_append)
qed

section \<open>Declaration order\<close>

lemma dedup_by_key_order:
  assumes "distinct (map key xs)" "distinct (map key ys)" "set xs = set ys"
  shows "dedup_by_key key xs = dedup_by_key key ys"
proof -
  have "dedup_by_key key zs = sort_key key zs" if "distinct (map key zs)" for zs
  proof -
    have "distinct (map key (rev (sort_key key zs)))"
      using that by (simp add: distinct_map)
    then show ?thesis by (simp add: dedup_by_key_def dedup_id)
  qed
  moreover have "sort_key key xs = sort_key key ys"
    using assms by (intro map_sorted_distinct_set_unique [of key]) (auto simp: distinct_map)
  ultimately show ?thesis using assms by simp
qed

lemma dedup_sort_set: "set xs = set ys \<Longrightarrow> dedup id (sort xs) = dedup id (sort (ys :: 'a::linorder list))"
proof -
  have "sorted_wrt (<) (dedup id (sort zs))" for zs :: "'a list"
    using dedup_asc [of id "sort zs"] by simp
  moreover have "set (dedup id (sort zs)) = set zs" for zs :: "'a list"
    using keys_dedup [of id "sort zs"] by simp
  moreover assume "set xs = set ys"
  ultimately show ?thesis by (intro strict_sorted_equal) auto
qed

definition same_origin :: "origin \<Rightarrow> origin \<Rightarrow> bool" where
  "same_origin s t \<longleftrightarrow>
     set (or_files s) = set (or_files t) \<and> set (or_dirs s) = set (or_dirs t) \<and>
     set (or_modes s) = set (or_modes t) \<and> set (or_symlinks s) = set (or_symlinks t) \<and>
     set (or_hardlinks s) = set (or_hardlinks t) \<and> set (or_specials s) = set (or_specials t) \<and>
     set (or_xattrs s) = set (or_xattrs t)"

definition keys_once :: "origin \<Rightarrow> bool" where
  "keys_once s \<longleftrightarrow>
     distinct (map fst (or_files s)) \<and> distinct (map fst (or_modes s)) \<and> distinct (map fst (or_symlinks s)) \<and>
     distinct (map fst (or_hardlinks s)) \<and> distinct (map fst (or_specials s)) \<and>
     distinct (map xattr_key (or_xattrs s))"

section \<open>Properties\<close>

text \<open>
  C18: an origin survives its encoding in canonical form. Decoding the bytes of any origin whose
  lengths fit their fields gives the canonical origin: every table sorted by its key, the last
  declaration of a key kept.
\<close>

theorem origin_round_trip:
  assumes "origin_ok s" "length (origin_encode s) \<le> u64_max"
  shows "origin_decode (origin_encode s) = Inr (origin_canonicalize s)"
  by (rule origin_decode_encode [OF assms])

definition demo_origin :: origin where
  "demo_origin = \<lparr>or_files = [(''b'', [1]), (''a'', []), (''b'', [2, 3])], or_dirs = [''d''],
     or_modes = [(''a'', 420)], or_symlinks = [(''s'', ''a'')], or_hardlinks = [],
     or_specials = [(''f'', demo_node)], or_xattrs = [(''a'', ''user.x'', [7])]\<rparr>"

lemma origin_round_trip_witness:
  "origin_decode (origin_encode demo_origin) = Inr (origin_canonicalize demo_origin)"
  by (rule origin_round_trip)
    (simp_all add: origin_ok_def demo_origin_def path_ok_def bytes_ok_def str_ok_def as_bytes_def node_ok_def
      demo_node_def u32_max_def u64_max_def origin_encode_def origin_canonicalize_def dedup_by_key_def
      xattr_key_def put_table_def put_count_def put_file_def put_str_def put_bytes_def put_mode_def put_link_def
      put_xattr_def put_special_def encoded_bytes_def)

text \<open>
  C19: the canonical bytes of an origin, and so its identity, do not depend on the order in which
  the tables were declared.
\<close>

theorem origin_encode_order:
  assumes "same_origin s t" "keys_once s" "keys_once t"
  shows "origin_encode s = origin_encode t"
proof -
  have "origin_canonicalize s = origin_canonicalize t"
    using assms dedup_sort_set [of "or_dirs s" "or_dirs t"]
    by (auto simp: same_origin_def keys_once_def origin_canonicalize_def intro!: dedup_by_key_order)
  then show ?thesis by (simp add: origin_encode_def)
qed

lemma origin_encode_order_witness:
  "origin_encode (demo_origin\<lparr>or_files := [(''b'', [1]), (''a'', [])]\<rparr>)
     = origin_encode (demo_origin\<lparr>or_files := [(''a'', []), (''b'', [1])], or_dirs := [''d'', ''d'']\<rparr>)"
  by (rule origin_encode_order) (auto simp: same_origin_def keys_once_def demo_origin_def xattr_key_def)

end
