(* ===== verification/Increments.thy ===== *)
theory Increments
  imports Origin
begin

text \<open>
  The increment a submitter sends (\<open>crates/merge/src/engine.rs\<close>): its fields, the exact read of an
  IPC payload out of its post-state, and its encoding for the durable chain with the decoder a
  recovery replays. An identity is its 32 bytes.
\<close>

type_synonym identity32 = "byte list"

record increment =
  inc_id :: identity32
  inc_base :: ver
  inc_doc :: ops_doc
  inc_post :: "byte list"
  inc_evidence :: "identity32 list"

definition evidence_bytes :: nat where
  "evidence_bytes = 32"

definition special_payload :: "ops_doc \<Rightarrow> byte list \<Rightarrow> op \<Rightarrow> doc_decode_error + special_node" where
  "special_payload doc post p =
     (if path_at (doc_paths doc) (op_path p) = None then Inl BadPath
      else rbind (ok_or (checked_add (op_src p) (op_len p)) Truncated) (\<lambda>end.
           rbind (ok_or (slice_get post (op_src p) end) Truncated) decode_node))"

definition inc_encode :: "increment \<Rightarrow> byte list" where
  "inc_encode i =
     (let doc = encode (inc_doc i)
      in inc_id i @ le_bytes 8 (inc_base i) @ le_bytes 8 (length doc) @ doc
         @ le_bytes 8 (length (inc_post i)) @ inc_post i
         @ le_bytes 8 (length (inc_evidence i)) @ concat (inc_evidence i))"

text \<open>\<open>for op in doc.ops.iter().filter(Mknod) { special_payload(\<dots>)?; }\<close>.\<close>

fun check_payloads :: "ops_doc \<Rightarrow> byte list \<Rightarrow> op list \<Rightarrow> doc_decode_error + unit" where
  "check_payloads doc post [] = Inr ()"
| "check_payloads doc post (p # ops) =
     rbind (special_payload doc post p) (\<lambda>_. check_payloads doc post ops)"

definition inc_decode :: "byte list \<Rightarrow> doc_decode_error + increment" where
  "inc_decode bytes =
     rbind (reader_take 32 (reader_new bytes)) (\<lambda>(id, r).
     rbind (reader_u64 r) (\<lambda>(base, r).
     rbind (reader_u64 r) (\<lambda>(doc_len, r).
     rbind (reader_take doc_len r) (\<lambda>(raw, r).
     rbind (decode raw) (\<lambda>doc.
     rbind (reader_u64 r) (\<lambda>(post_len, r).
     rbind (reader_take post_len r) (\<lambda>(post, r).
     rbind (check_payloads doc post (filter (\<lambda>p. op_kind p = KMknod) (doc_ops doc))) (\<lambda>_.
     rbind (reader_u64 r) (\<lambda>(count, r).
     if count > reader_remaining r div evidence_bytes then Inl Truncated else
     rbind (read_n (reader_take evidence_bytes) count r) (\<lambda>(evidence, r).
     if \<not> reader_is_empty r then Inl TrailingBytes else
       Inr \<lparr>inc_id = id, inc_base = base, inc_doc = doc, inc_post = post,
            inc_evidence = evidence\<rparr>))))))))))"

section \<open>The round trip\<close>

definition payloads_ok :: "ops_doc \<Rightarrow> byte list \<Rightarrow> bool" where
  "payloads_ok doc post \<longleftrightarrow>
     list_all (\<lambda>p. op_kind p = KMknod \<longrightarrow> (\<exists>n. special_payload doc post p = Inr n)) (doc_ops doc)"

definition inc_ok :: "increment \<Rightarrow> bool" where
  "inc_ok i \<longleftrightarrow> length (inc_id i) = 32 \<and> inc_base i \<le> u64_max \<and> doc_ok (inc_doc i)
     \<and> payloads_ok (inc_doc i) (inc_post i) \<and> list_all (\<lambda>e. length e = 32) (inc_evidence i)"

interpretation evidencec: exact_codec "\<lambda>e. e" "reader_take evidence_bytes" "\<lambda>e. length e = 32"
proof unfold_locales
  fix e :: "byte list" and r
  assume "length e = 32" "reads r e"
  then show "reader_take evidence_bytes r = Inr (e, rd_skip (length e) r)"
    by (simp add: evidence_bytes_def reader_take_all)
next
  fix e :: "byte list" and r r'
  assume "reader_ok r" "reader_take evidence_bytes r = Inr (e, r')"
  from reader_take_Inr [OF this] show "length e = 32 \<and> reads r e \<and> r' = rd_skip (length e) r"
    by (auto simp: evidence_bytes_def)
qed

lemma check_payloads_ok:
  "check_payloads doc post ops = Inr () \<longleftrightarrow> (\<forall>p \<in> set ops. \<exists>n. special_payload doc post p = Inr n)"
  by (induction ops) (auto simp: rbind_Inr_iff)

lemma length_concat_evidence: "list_all (\<lambda>e. length e = 32) es \<Longrightarrow> length (concat es) = 32 * length es"
  by (induction es) auto

lemma inc_decode_encode:
  assumes "inc_ok i" "length (inc_encode i) \<le> u64_max"
  shows "inc_decode (inc_encode i) = Inr i"
proof -
  let ?doc = "encode (inc_doc i)" and ?r = "reader_new (inc_encode i)"
  let ?post = "inc_post i" and ?es = "inc_evidence i"
  have ok: "length (inc_id i) = 32" "inc_base i \<le> u64_max" "doc_ok (inc_doc i)"
      "payloads_ok (inc_doc i) ?post" "list_all (\<lambda>e. length e = 32) ?es"
    using assms(1) by (simp_all add: inc_ok_def)
  have "reads ?r (inc_encode i)" using assms(2) reads_new [of "inc_encode i" "[]"] by simp
  then have r: "reads ?r (inc_id i)" "reads (rd_skip 32 ?r) (le_bytes 8 (inc_base i))"
      "reads (rd_skip 40 ?r) (le_bytes 8 (length ?doc))" "reads (rd_skip 48 ?r) ?doc"
      "reads (rd_skip (48 + length ?doc) ?r) (le_bytes 8 (length ?post))"
      "reads (rd_skip (56 + length ?doc) ?r) ?post"
      "reads (rd_skip (56 + length ?doc + length ?post) ?r) (le_bytes 8 (length ?es))"
      "reads (rd_skip (64 + length ?doc + length ?post) ?r) (concat ?es)"
    using ok(1) by (simp_all add: inc_encode_def Let_def ac_simps)
  have len: "length (inc_encode i) = 64 + length ?doc + length ?post + length (concat ?es)"
    using ok(1) by (simp add: inc_encode_def Let_def)
  have es: "length (concat ?es) = 32 * length ?es" using ok(5) by (rule length_concat_evidence)
  have u: "length ?doc \<le> u64_max" "length ?post \<le> u64_max" "length ?es \<le> u64_max"
    using assms(2) len es by auto
  have d: "decode ?doc = Inr (inc_doc i)" using decode_encode [OF ok(3) u(1)] .
  have p: "check_payloads (inc_doc i) ?post (filter (\<lambda>p. op_kind p = KMknod) (doc_ops (inc_doc i))) = Inr ()"
    using ok(4) by (auto simp: check_payloads_ok payloads_ok_def list_all_iff)
  have f: "reader_take 32 ?r = Inr (inc_id i, rd_skip 32 ?r)"
      "reader_u64 (rd_skip 32 ?r) = Inr (inc_base i, rd_skip 40 ?r)"
      "reader_u64 (rd_skip 40 ?r) = Inr (length ?doc, rd_skip 48 ?r)"
      "reader_take (length ?doc) (rd_skip 48 ?r) = Inr (?doc, rd_skip (48 + length ?doc) ?r)"
      "reader_u64 (rd_skip (48 + length ?doc) ?r) = Inr (length ?post, rd_skip (56 + length ?doc) ?r)"
      "reader_take (length ?post) (rd_skip (56 + length ?doc) ?r) = Inr (?post, rd_skip (56 + length ?doc + length ?post) ?r)"
      "reader_u64 (rd_skip (56 + length ?doc + length ?post) ?r) = Inr (length ?es, rd_skip (64 + length ?doc + length ?post) ?r)"
    using r u ok by (simp_all add: reader_u64_reads reader_take_all add.assoc)
  have e: "read_n (reader_take evidence_bytes) (length ?es) (rd_skip (64 + length ?doc + length ?post) ?r)
      = Inr (?es, rd_skip (length (inc_encode i)) ?r)"
    using evidencec.read_n_enc [OF ok(5), of "rd_skip (64 + length ?doc + length ?post) ?r"] r(8) len by simp
  have "\<not> length ?es > reader_remaining (rd_skip (64 + length ?doc + length ?post) ?r) div evidence_bytes"
    using len es by (simp add: remaining_rest evidence_bytes_def)
  moreover have "reader_is_empty (rd_skip (length (inc_encode i)) ?r)" by simp
  ultimately show ?thesis using f d p e by (simp add: inc_decode_def del: is_empty_rest)
qed

section \<open>Properties\<close>

text \<open>
  C20: an increment survives its encoding for the durable chain: what recovery decodes is what was
  committed, its document, post-state and evidence included.
\<close>

theorem increment_round_trip:
  assumes "inc_ok i" "length (inc_encode i) \<le> u64_max"
  shows "inc_decode (inc_encode i) = Inr i"
  by (rule inc_decode_encode [OF assms])

definition demo_increment :: increment where
  "demo_increment = \<lparr>inc_id = replicate 32 7, inc_base = 3, inc_doc = demo_doc, inc_post = [1, 2],
     inc_evidence = [replicate 32 9]\<rparr>"

lemma increment_round_trip_witness: "inc_decode (inc_encode demo_increment) = Inr demo_increment"
proof (rule increment_round_trip)
  have "doc_ok demo_doc"
    by (simp add: demo_doc_def doc_ok_def path_ok_def op_ok_def str_ok_def as_bytes_def u64_max_def u32_max_def
      u16_max_def)
  then show "inc_ok demo_increment"
    by (simp add: inc_ok_def demo_increment_def payloads_ok_def u64_max_def) (simp add: demo_doc_def)
  show "length (inc_encode demo_increment) \<le> u64_max"
    by (simp add: inc_encode_def demo_increment_def Let_def encode_def demo_doc_def encode_path_def encode_op_def u64_max_def)
qed

end
