(* ===== verification/Identity.thy ===== *)
theory Identity
  imports Codec "HOL-Library.Multiset"
begin

text \<open>
  \<open>crates/merge/src/identity.rs\<close>: the head identity as a set hash, a vector of 1,024 sixteen-bit
  lanes to which every entry of the green adds its own vector. BLAKE3 is a parameter: \<open>xof\<close> is the
  output stream of the key-derivation hash on the bytes an entry was fed, \<open>digest\<close> the 32-byte hash
  of the sum; nothing is assumed of either. The locale \<open>set_hash\<close> is what the engine relies on: an
  entry removed is as if it had not been added, and the order of additions does not matter.
\<close>

type_synonym lane = "16 word"
type_synonym lanes = "lane list"
type_synonym xof = "byte list \<Rightarrow> nat \<Rightarrow> byte"

definition LANES :: nat where
  "LANES = 1024"

text \<open>The bytes an entry feeds its hasher, one \<open>update\<close> after the other.\<close>

type_synonym entry = "byte list"

definition entry_new :: "byte list \<Rightarrow> entry" where
  "entry_new tag = tag"

definition entry_field :: "entry \<Rightarrow> byte list \<Rightarrow> entry" where
  "entry_field e bytes = e @ le_bytes 8 (length bytes) @ bytes"

definition entry_fixed :: "entry \<Rightarrow> byte list \<Rightarrow> entry" where
  "entry_fixed e bytes = e @ bytes"

definition entry_lanes :: "xof \<Rightarrow> entry \<Rightarrow> lanes" where
  "entry_lanes xof e = map (\<lambda>i. word_of_nat (from_le [xof e (2 * i), xof e (2 * i + 1)])) [0..<LANES]"

definition set_hash_default :: lanes where
  "set_hash_default = replicate LANES 0"

definition set_hash_add :: "xof \<Rightarrow> lanes \<Rightarrow> entry \<Rightarrow> lanes" where
  "set_hash_add xof h e = map2 (+) h (entry_lanes xof e)"

definition set_hash_remove :: "xof \<Rightarrow> lanes \<Rightarrow> entry \<Rightarrow> lanes" where
  "set_hash_remove xof h e = map2 (-) h (entry_lanes xof e)"

definition set_hash_identity :: "(byte list \<Rightarrow> byte list) \<Rightarrow> lanes \<Rightarrow> byte list" where
  "set_hash_identity digest h = digest (concat (map (\<lambda>l. le_bytes 2 (unat l)) h))"

section \<open>The contract of a set hash\<close>

locale set_hash =
  fixes add :: "'h \<Rightarrow> 'e \<Rightarrow> 'h"
    and rem :: "'h \<Rightarrow> 'e \<Rightarrow> 'h"
    and zero :: 'h
    and ok :: "'h \<Rightarrow> bool"
  assumes ok_zero: "ok zero"
    and ok_add: "ok h \<Longrightarrow> ok (add h e)"
    and rem_add: "ok h \<Longrightarrow> rem (add h e) e = h"
    and add_commute: "ok h \<Longrightarrow> add (add h d) e = add (add h e) d"
begin

lemma ok_sum: "ok h \<Longrightarrow> ok (foldl add h es)"
  by (induction es arbitrary: h) (simp_all add: ok_add)

lemma add_sum: "ok h \<Longrightarrow> foldl add (add h e) es = add (foldl add h es) e"
  by (induction es arbitrary: h) (simp_all add: ok_add add_commute)

lemma sum_perm: "ok h \<Longrightarrow> mset ds = mset es \<Longrightarrow> foldl add h ds = foldl add h es"
proof (induction ds arbitrary: es)
  case (Cons d ds)
  then have "d \<in> set es" by (metis list.set_intros(1) mset_eq_setD)
  then obtain us vs where es: "es = us @ d # vs" by (meson split_list)
  with Cons.prems have "foldl add h ds = foldl add h (us @ vs)" by (intro Cons.IH) auto
  with Cons.prems(1) show ?case by (simp add: es add_sum ok_sum)
qed simp

lemma rem_sum: "ok h \<Longrightarrow> mset es = add_mset e (mset ds) \<Longrightarrow> rem (foldl add h es) e = foldl add h ds"
proof -
  assume h: "ok h" and "mset es = add_mset e (mset ds)"
  then have "foldl add h es = foldl add h (e # ds)" by (intro sum_perm) auto
  then show ?thesis using h by (simp add: add_sum rem_add ok_sum)
qed

text \<open>The hash of a finite table: the sum of its entries, in whatever order.\<close>

definition sums :: "'h \<Rightarrow> ('k \<Rightarrow> 'e option) \<Rightarrow> bool" where
  "sums h f \<longleftrightarrow> (\<exists>ks. distinct ks \<and> set ks = {k. f k \<noteq> None} \<and> h = foldl add zero (map (the \<circ> f) ks))"

lemma sumsI: "distinct ks \<Longrightarrow> set ks = {k. f k \<noteq> None} \<Longrightarrow> h = foldl add zero (map (the \<circ> f) ks) \<Longrightarrow> sums h f"
  unfolding sums_def by blast

lemma sums_ok: "sums h f \<Longrightarrow> ok h"
  by (auto simp: sums_def intro: ok_sum ok_zero)

lemma sums_unique: "sums h f \<Longrightarrow> sums h' f \<Longrightarrow> h = h'"
proof -
  assume "sums h f" "sums h' f"
  then obtain ks ls where k: "distinct ks" "h = foldl add zero (map (the \<circ> f) ks)"
    and l: "distinct ls" "h' = foldl add zero (map (the \<circ> f) ls)" and "set ks = set ls"
    by (auto simp: sums_def)
  then have "mset ks = mset ls" by (simp add: set_eq_iff_mset_eq_distinct)
  then have "mset (map (the \<circ> f) ks) = mset (map (the \<circ> f) ls)" by simp
  from sum_perm [OF ok_zero this] show ?thesis by (simp add: k l)
qed

lemma sums_rem: "sums h f \<Longrightarrow> f k = Some e \<Longrightarrow> sums (rem h e) (f(k := None))"
proof -
  assume "sums h f" and k: "f k = Some e"
  then obtain ks where ks: "distinct ks" "set ks = {k. f k \<noteq> None}" "h = foldl add zero (map (the \<circ> f) ks)"
    by (auto simp: sums_def)
  then have "k \<in> set ks" using k by simp
  then obtain us vs where s: "ks = us @ k # vs" by (meson split_list)
  let ?g = "f(k := None)"
  have k': "k \<notin> set us" "k \<notin> set vs" using ks(1) by (auto simp: s)
  then have same: "map (the \<circ> ?g) us = map (the \<circ> f) us" "map (the \<circ> ?g) vs = map (the \<circ> f) vs" by auto
  have "mset (map (the \<circ> f) ks) = add_mset e (mset (map (the \<circ> ?g) (us @ vs)))"
    using k by (simp add: s same)
  from rem_sum [OF ok_zero this] have "rem h e = foldl add zero (map (the \<circ> ?g) (us @ vs))" by (simp add: ks(3))
  moreover have "set (us @ vs) = {j. ?g j \<noteq> None}" using ks(1,2) k by (auto simp: s)
  ultimately show ?thesis using ks(1) by (intro sumsI [of "us @ vs"]) (auto simp: s)
qed

lemma sums_add: "sums h f \<Longrightarrow> f k = None \<Longrightarrow> sums (add h e) (f(k := Some e))"
proof -
  assume "sums h f" and k: "f k = None"
  then obtain ks where ks: "distinct ks" "set ks = {k. f k \<noteq> None}" "h = foldl add zero (map (the \<circ> f) ks)"
    by (auto simp: sums_def)
  let ?g = "f(k := Some e)"
  have "k \<notin> set ks" using ks(2) k by simp
  then have same: "map (the \<circ> ?g) ks = map (the \<circ> f) ks" by auto
  have "foldl add zero (map (the \<circ> ?g) (ks @ [k])) = add (foldl add zero (map (the \<circ> ?g) ks)) e" by simp
  then have "add h e = foldl add zero (map (the \<circ> ?g) (ks @ [k]))" unfolding same ks(3) by (rule sym)
  then show ?thesis using ks(1,2) \<open>k \<notin> set ks\<close> by (intro sumsI [of "ks @ [k]"]) auto
qed

text \<open>One key brought from its old entry to its new one, and a list of distinct keys.\<close>

definition bring :: "('k \<Rightarrow> 'e option) \<Rightarrow> ('k \<Rightarrow> 'e option) \<Rightarrow> 'k \<Rightarrow> 'h \<Rightarrow> 'h" where
  "bring f g k h =
     (let h = (case f k of None \<Rightarrow> h | Some e \<Rightarrow> rem h e)
      in case g k of None \<Rightarrow> h | Some e \<Rightarrow> add h e)"

lemma sums_bring: "sums h f \<Longrightarrow> sums (bring f g k h) (f(k := g k))"
proof -
  assume h: "sums h f"
  let ?h = "case f k of None \<Rightarrow> h | Some e \<Rightarrow> rem h e"
  have "sums ?h (f(k := None))"
  proof (cases "f k")
    case None
    then have "f(k := None) = f" by auto
    then show ?thesis using h None by simp
  qed (simp add: sums_rem [OF h])
  from sums_add [OF this, of k] \<open>sums ?h (f(k := None))\<close> show ?thesis
    by (cases "g k") (simp_all add: bring_def Let_def)
qed

lemma bring_cong: "f k = f' k \<Longrightarrow> bring f g k h = bring f' g k h"
  by (simp add: bring_def)

lemma sums_fold: "sums h f \<Longrightarrow> distinct ks \<Longrightarrow> sums (fold (bring f g) ks h) (\<lambda>k. if k \<in> set ks then g k else f k)"
proof (induction ks rule: rev_induct)
  case (snoc k ks)
  let ?f = "\<lambda>k. if k \<in> set ks then g k else f k"
  have "sums (fold (bring f g) ks h) ?f" using snoc by simp
  from sums_bring [OF this, of g k] have "sums (bring ?f g k (fold (bring f g) ks h)) (?f(k := g k))" .
  moreover have "bring ?f g k = bring f g k" using snoc.prems by (intro ext bring_cong) auto
  moreover have "?f(k := g k) = (\<lambda>j. if j \<in> set (ks @ [k]) then g j else f j)" by auto
  ultimately show ?case by simp
qed simp

end

lemma length_entry_lanes [simp]: "length (entry_lanes xof e) = LANES"
  by (simp add: entry_lanes_def)

interpretation lt: set_hash "set_hash_add xof" "set_hash_remove xof" set_hash_default "\<lambda>h. length h = LANES" for xof
proof unfold_locales
  show "length set_hash_default = LANES" by (simp add: set_hash_default_def)
  fix h :: lanes and d e
  assume h: "length h = LANES"
  show "length (set_hash_add xof h e) = LANES" using h by (simp add: set_hash_add_def)
  show "set_hash_remove xof (set_hash_add xof h e) e = h"
    using h by (intro nth_equalityI) (simp_all add: set_hash_add_def set_hash_remove_def)
  show "set_hash_add xof (set_hash_add xof h d) e = set_hash_add xof (set_hash_add xof h e) d"
    using h by (intro nth_equalityI) (simp_all add: set_hash_add_def algebra_simps)
qed

end
