(* ===== verification/Versioned.thy ===== *)
theory Versioned
  imports Ordered_Maps
begin

text \<open>
  The per-path histories of \<open>crates/merge/src/engine.rs\<close>: a list of \<open>(version, value)\<close> entries in
  version order, read by the last entry at or before a version, and folded below a floor. A
  dimension of the green is a current table, the index of last changes and such a history per
  key. The locale \<open>dimension\<close> is what the engine relies on of one: a commit at a version changes
  no earlier version, and the newest version is the current table. It is interpreted for the
  dimensions with values and for the directories.
\<close>

type_synonym 'a history = "(ver \<times> 'a) list"

definition history_at :: "'a option history \<Rightarrow> ver \<Rightarrow> 'a option" where
  "history_at h version =
     (case find (\<lambda>e. fst e \<le> version) (rev h) of None \<Rightarrow> None | Some e \<Rightarrow> snd e)"

definition present_at :: "bool history \<Rightarrow> ver \<Rightarrow> bool" where
  "present_at h version =
     (case find (\<lambda>e. fst e \<le> version) (rev h) of None \<Rightarrow> False | Some e \<Rightarrow> snd e)"

definition history_touches :: "'a history \<Rightarrow> ver \<Rightarrow> ver \<Rightarrow> bool" where
  "history_touches h from to = list_ex (\<lambda>e. fst e > from \<and> fst e \<le> to) h"

definition paths_changed_in :: "('k, 'a history) btmap \<Rightarrow> ver \<Rightarrow> ver \<Rightarrow> 'k list" where
  "paths_changed_in histories from to = map fst (filter (\<lambda>e. history_touches (snd e) from to) histories)"

definition fold_entries :: "'a history \<Rightarrow> ver \<Rightarrow> ('a \<Rightarrow> nat) \<Rightarrow> 'a history \<times> nat" where
  "fold_entries h floor cost =
     (let below = length (takeWhile (\<lambda>e. fst e < floor) h);
          at_floor = (case list_get h below of None \<Rightarrow> False | Some e \<Rightarrow> fst e = floor);
          dropped = (if at_floor then below else below - 1)
      in if dropped = 0 then (h, 0)
         else (let dropped = min dropped (length h)
               in (drop dropped h, wrap_sum (map (\<lambda>e. cost (snd e)) (take dropped h)))))"

section \<open>Histories\<close>

lemma find_append: "find P (xs @ ys) = (case find P xs of None \<Rightarrow> find P ys | Some x \<Rightarrow> Some x)"
  by (induction xs) auto

lemma history_at_Nil [simp]: "history_at [] v = None"
  by (simp add: history_at_def)

lemma history_at_snoc [simp]: "history_at (h @ [(w, x)]) v = (if w \<le> v then x else history_at h v)"
  by (simp add: history_at_def)

lemma present_at_snoc [simp]: "present_at (h @ [(w, x)]) v = (if w \<le> v then x else present_at h v)"
  by (simp add: present_at_def)

lemma history_at_last: "h \<noteq> [] \<Longrightarrow> fst (last h) \<le> v \<Longrightarrow> history_at h v = snd (last h)"
  by (cases h rule: rev_cases) (auto simp: history_at_def)

lemma present_at_last: "h \<noteq> [] \<Longrightarrow> fst (last h) \<le> v \<Longrightarrow> present_at h v = snd (last h)"
  by (cases h rule: rev_cases) (auto simp: present_at_def)

text \<open>What was dropped from the front is not seen once an entry behind it answers.\<close>

lemma find_drop:
  assumes "e \<in> set (drop n h)" "P e"
  shows "find P (rev (drop n h)) = find P (rev h)"
proof -
  have "rev h = rev (drop n h) @ rev (take n h)" by (metis append_take_drop_id rev_append)
  moreover have "find P (rev (drop n h)) \<noteq> None" using assms by (auto simp: find_None_iff)
  ultimately show ?thesis by (auto simp: find_append)
qed

lemma take_takeWhile: "n \<le> length (takeWhile P xs) \<Longrightarrow> x \<in> set (take n xs) \<Longrightarrow> P x"
  by (metis in_mono set_take_subset set_takeWhileD takeWhile_eq_take take_take min.absorb1)

text \<open>What folding keeps: a suffix, behind entries all older than the floor, that answers at the floor.\<close>

lemma fold_entries_suffix:
  obtains n where "fst (fold_entries h floor cost) = drop n h" "n = 0 \<or> n < length h"
    "\<And>e. e \<in> set (take n h) \<Longrightarrow> fst e < floor"
    "n > 0 \<Longrightarrow> \<exists>e \<in> set (drop n h). fst e \<le> floor"
    "snd (fold_entries h floor cost) = wrap_sum (map (\<lambda>e. cost (snd e)) (take n h))"
proof -
  let ?below = "length (takeWhile (\<lambda>e. fst e < floor) h)"
  let ?af = "case list_get h ?below of None \<Rightarrow> False | Some e \<Rightarrow> fst e = floor"
  let ?n = "if ?af then ?below else ?below - 1"
  have le: "?below \<le> length h" by (rule length_takeWhile_le)
  have lt: "?n < length h" if "?n > 0"
  proof (cases ?af)
    case True
    then show ?thesis by (auto simp: list_get_def split: if_splits)
  next
    case False
    then show ?thesis using that le by auto
  qed
  have keep: "h ! ?n \<in> set (drop ?n h)" if "?n > 0"
    using lt [OF that] by (metis Cons_nth_drop_Suc list.set_intros(1))
  have "fst (h ! ?n) \<le> floor" if "?n > 0"
  proof (cases ?af)
    case True
    then show ?thesis by (auto simp: list_get_def split: if_splits)
  next
    case False
    then have "?n < ?below" using that by auto
    then have "takeWhile (\<lambda>e. fst e < floor) h ! ?n = h ! ?n" by (rule takeWhile_nth)
    moreover have "takeWhile (\<lambda>e. fst e < floor) h ! ?n \<in> set (takeWhile (\<lambda>e. fst e < floor) h)"
      using \<open>?n < ?below\<close> by (rule nth_mem)
    ultimately show ?thesis using set_takeWhileD by fastforce
  qed
  note first = this
  show ?thesis
  proof (rule that [of ?n])
    show "fst (fold_entries h floor cost) = drop ?n h"
      "snd (fold_entries h floor cost) = wrap_sum (map (\<lambda>e. cost (snd e)) (take ?n h))"
      using lt unfolding fold_entries_def Let_def by (auto simp: wrap_sum_def min_def)
    show "?n = 0 \<or> ?n < length h" using lt by linarith
    show "fst e < floor" if "e \<in> set (take ?n h)" for e
      using take_takeWhile [of ?n "\<lambda>e. fst e < floor" h e] that by auto
    show "\<exists>e \<in> set (drop ?n h). fst e \<le> floor" if "?n > 0" using keep [OF that] first [OF that] by blast
  qed
qed

lemma fold_history_at: "floor \<le> v \<Longrightarrow> history_at (fst (fold_entries h floor cost)) v = history_at h v"
proof -
  assume v: "floor \<le> v"
  obtain n where n: "fst (fold_entries h floor cost) = drop n h"
    "n > 0 \<Longrightarrow> \<exists>e \<in> set (drop n h). fst e \<le> floor"
    using fold_entries_suffix by metis
  show ?thesis
  proof (cases "n = 0")
    case False
    with n(2) v obtain e where "e \<in> set (drop n h)" "fst e \<le> v" by fastforce
    from find_drop [OF this(1), of "\<lambda>e. fst e \<le> v", OF this(2)] show ?thesis by (simp add: n(1) history_at_def)
  qed (simp add: n(1))
qed

lemma fold_present_at: "floor \<le> v \<Longrightarrow> present_at (fst (fold_entries h floor cost)) v = present_at h v"
proof -
  assume v: "floor \<le> v"
  obtain n where n: "fst (fold_entries h floor cost) = drop n h"
    "n > 0 \<Longrightarrow> \<exists>e \<in> set (drop n h). fst e \<le> floor"
    using fold_entries_suffix by metis
  show ?thesis
  proof (cases "n = 0")
    case False
    with n(2) v obtain e where "e \<in> set (drop n h)" "fst e \<le> v" by fastforce
    from find_drop [OF this(1), of "\<lambda>e. fst e \<le> v", OF this(2)] show ?thesis by (simp add: n(1) present_at_def)
  qed (simp add: n(1))
qed

lemma fold_touches:
  assumes "floor \<le> from"
  shows "history_touches (fst (fold_entries h floor cost)) from to = history_touches h from to"
proof -
  obtain n where n: "fst (fold_entries h floor cost) = drop n h" "\<And>e. e \<in> set (take n h) \<Longrightarrow> fst e < floor"
    using fold_entries_suffix by metis
  have "history_touches (take n h @ drop n h) from to = (list_ex (\<lambda>e. fst e > from \<and> fst e \<le> to) (take n h)
      \<or> history_touches (drop n h) from to)"
    by (simp only: history_touches_def list_ex_append)
  moreover have "\<not> list_ex (\<lambda>e. fst e > from \<and> fst e \<le> to) (take n h)"
    using n(2) assms by (fastforce simp: list_ex_iff)
  ultimately show ?thesis by (simp add: n(1))
qed

text \<open>A history the engine keeps: not empty, in version order, nothing newer than \<open>v\<close>.\<close>

definition hist_ok :: "ver \<Rightarrow> 'a history \<Rightarrow> bool" where
  "hist_ok v h \<longleftrightarrow> h \<noteq> [] \<and> sorted (map fst h) \<and> fst (last h) \<le> v"

lemma hist_ok_snoc: "h = [] \<or> hist_ok v h \<Longrightarrow> hist_ok v (h @ [(v, x)])"
  by (cases h rule: rev_cases) (auto simp: hist_ok_def sorted_append)

lemma hist_ok_mono: "hist_ok v h \<Longrightarrow> v \<le> w \<Longrightarrow> hist_ok w h"
  by (auto simp: hist_ok_def)

lemma hist_ok_fold: "hist_ok v h \<Longrightarrow> hist_ok v (fst (fold_entries h floor cost)) \<and> last (fst (fold_entries h floor cost)) = last h"
proof -
  assume h: "hist_ok v h"
  obtain n where n: "fst (fold_entries h floor cost) = drop n h" "n = 0 \<or> n < length h"
    using fold_entries_suffix by metis
  have "drop n h \<noteq> []" using n(2) h by (auto simp: hist_ok_def)
  moreover have "sorted (map fst (drop n h))" using h by (metis drop_map hist_ok_def sorted_wrt_drop)
  ultimately show ?thesis using h n by (auto simp: hist_ok_def)
qed

section \<open>The contract of a dimension\<close>

locale dimension =
  fixes cur :: "'s \<Rightarrow> 'k \<Rightarrow> 'v option"
    and at :: "'s \<Rightarrow> ver \<Rightarrow> 'k \<Rightarrow> 'v option"
    and put :: "ver \<Rightarrow> 'k \<Rightarrow> 'v option \<Rightarrow> 's \<Rightarrow> 's"
    and inv :: "ver \<Rightarrow> 's \<Rightarrow> bool"
  assumes put_inv: "inv v s \<Longrightarrow> inv v (put v k x s)"
    and put_cur: "inv v s \<Longrightarrow> cur (put v k x s) j = (if j = k then x else cur s j)"
    and put_at: "w < v \<Longrightarrow> at (put v k x s) w j = at s w j"
    and at_cur: "inv v s \<Longrightarrow> v \<le> w \<Longrightarrow> at s w j = cur s j"
    and inv_mono: "inv v s \<Longrightarrow> v \<le> w \<Longrightarrow> inv w s"
begin

text \<open>The changes of one commit, in order.\<close>

definition puts :: "ver \<Rightarrow> ('k \<times> 'v option) list \<Rightarrow> 's \<Rightarrow> 's" where
  "puts v kxs s = fold (\<lambda>(k, x). put v k x) kxs s"

lemma puts_inv: "inv v s \<Longrightarrow> inv v (puts v kxs s)"
  unfolding puts_def by (induction kxs arbitrary: s) (auto simp: put_inv)

lemma puts_at: "w < v \<Longrightarrow> at (puts v kxs s) w j = at s w j"
  unfolding puts_def by (induction kxs arbitrary: s) (auto simp: put_at)

lemma puts_cur: "inv v s \<Longrightarrow> cur (puts v kxs s) j = (case map_of (rev kxs) j of None \<Rightarrow> cur s j | Some x \<Rightarrow> x)"
  unfolding puts_def
  by (induction kxs arbitrary: s) (auto simp: put_inv put_cur map_add_def split: option.splits)

lemma puts_at_new: "inv v s \<Longrightarrow> v \<le> w \<Longrightarrow> at (puts v kxs s) w j = (case map_of (rev kxs) j of None \<Rightarrow> cur s j | Some x \<Rightarrow> x)"
  using at_cur [OF puts_inv] puts_cur by simp

lemma puts_other: "inv v s \<Longrightarrow> j \<notin> fst ` set kxs \<Longrightarrow> cur (puts v kxs s) j = cur s j"
  by (simp add: puts_cur map_of_eq_None_iff [THEN iffD2])

end

locale folding_dimension = dimension cur at put inv
  for cur :: "'s \<Rightarrow> 'k \<Rightarrow> 'v option" and at put inv +
  fixes fold_to :: "ver \<Rightarrow> 's \<Rightarrow> 's"
  assumes fold_inv: "inv v s \<Longrightarrow> inv v (fold_to floor s)"
    and fold_cur: "cur (fold_to floor s) j = cur s j"
    and fold_at: "floor \<le> w \<Longrightarrow> at (fold_to floor s) w j = at s w j"

section \<open>Dimensions with values\<close>

text \<open>The current table, the index of last changes, the histories; and the steps a commit takes on them.\<close>

type_synonym ('k, 'v) vdim = "('k, 'v) btmap \<times> ('k, ver) btmap \<times> ('k, 'v option history) btmap"

definition vd_cur :: "('k, 'v) vdim \<Rightarrow> 'k \<Rightarrow> 'v option" where
  "vd_cur s k = bt_get (fst s) k"

definition value_at :: "('k, 'v option history) btmap \<Rightarrow> ver \<Rightarrow> 'k \<Rightarrow> 'v option" where
  "value_at hs v k = Option.bind (bt_get hs k) (\<lambda>h. history_at h v)"

definition vd_at :: "('k, 'v) vdim \<Rightarrow> ver \<Rightarrow> 'k \<Rightarrow> 'v option" where
  "vd_at s v k = value_at (snd (snd s)) v k"

definition vd_put :: "ver \<Rightarrow> 'k::linorder \<Rightarrow> 'v option \<Rightarrow> ('k, 'v) vdim \<Rightarrow> ('k, 'v) vdim" where
  "vd_put v k x s =
     ((case x of None \<Rightarrow> bt_remove k (fst s) | Some y \<Rightarrow> bt_insert k y (fst s)),
      bt_insert k v (fst (snd s)), bt_push k (v, x) (snd (snd s)))"

fun vd_key :: "ver \<Rightarrow> 'v option \<Rightarrow> ver option \<Rightarrow> 'v option history option \<Rightarrow> bool" where
  "vd_key v c g None \<longleftrightarrow> c = None \<and> g = None"
| "vd_key v c g (Some h) \<longleftrightarrow> hist_ok v h \<and> c = snd (last h) \<and> g = Some (fst (last h))"

definition vd_inv :: "ver \<Rightarrow> ('k::linorder, 'v) vdim \<Rightarrow> bool" where
  "vd_inv v s \<longleftrightarrow> bt_ok (fst s) \<and> bt_ok (fst (snd s)) \<and> bt_ok (snd (snd s)) \<and>
     (\<forall>k. vd_key v (bt_get (fst s) k) (bt_get (fst (snd s)) k) (bt_get (snd (snd s)) k))"

text \<open>\<open>for history in histories.values_mut() { fold_entries(history, floor, cost) }\<close>.\<close>

definition fold_table :: "('k, 'a history) btmap \<Rightarrow> ver \<Rightarrow> ('k, 'a history) btmap" where
  "fold_table hs floor = map (\<lambda>e. (fst e, fst (fold_entries (snd e) floor (\<lambda>_. 0)))) hs"

definition vd_fold :: "ver \<Rightarrow> ('k, 'v) vdim \<Rightarrow> ('k, 'v) vdim" where
  "vd_fold floor s = (fst s, fst (snd s), fold_table (snd (snd s)) floor)"

lemma fold_entries_cost: "fst (fold_entries h floor c) = fst (fold_entries h floor d)"
  by (simp add: fold_entries_def Let_def)

lemma bt_get_map_snd: "bt_get (map (\<lambda>e. (fst e, f (snd e))) m) k = map_option f (bt_get m k)"
  by (induction m) (auto simp: bt_get_def)

lemma bt_ok_map_snd: "bt_ok (map (\<lambda>e. (fst e, f (snd e))) m) = bt_ok m"
  by (simp add: bt_ok_def comp_def)

lemma bt_get_fold_table:
  "bt_get (fold_table hs floor) k = map_option (\<lambda>h. fst (fold_entries h floor (\<lambda>_. 0))) (bt_get hs k)"
  unfolding fold_table_def by (rule bt_get_map_snd)

lemma bt_ok_fold_table [simp]: "bt_ok (fold_table hs floor) = bt_ok hs"
  unfolding fold_table_def by (rule bt_ok_map_snd)

lemma vd_inv_get:
  assumes "vd_inv v s"
  shows "bt_get (snd (snd s)) k = Some h \<Longrightarrow>
      hist_ok v h \<and> bt_get (fst s) k = snd (last h) \<and> bt_get (fst (snd s)) k = Some (fst (last h))"
    "bt_get (snd (snd s)) k = None \<Longrightarrow> bt_get (fst s) k = None \<and> bt_get (fst (snd s)) k = None"
  using assms unfolding vd_inv_def by (metis vd_key.simps)+

interpretation vd: folding_dimension vd_cur vd_at vd_put vd_inv vd_fold
proof unfold_locales
  fix v w floor :: ver and s :: "('k::linorder, 'v) vdim" and k j x
  show "vd_inv v (vd_put v k x s)" if i: "vd_inv v s"
  proof -
    have "unwrap_or (bt_get (snd (snd s)) k) [] = [] \<or> hist_ok v (unwrap_or (bt_get (snd (snd s)) k) [])"
      using vd_inv_get(1) [OF i, of k] by (cases "bt_get (snd (snd s)) k") auto
    then have "hist_ok v (unwrap_or (bt_get (snd (snd s)) k) [] @ [(v, x)])" by (rule hist_ok_snoc)
    with i show ?thesis
      by (cases x) (simp_all add: vd_inv_def vd_put_def bt_push_def)
  qed
  show "vd_cur (vd_put v k x s) j = (if j = k then x else vd_cur s j)" if "vd_inv v s"
    by (simp add: vd_cur_def vd_put_def split: option.splits)
  show "vd_at (vd_put v k x s) w j = vd_at s w j" if "w < v"
    using that by (cases "bt_get (snd (snd s)) k") (auto simp: vd_at_def value_at_def vd_put_def bt_push_def history_at_def)
  show "vd_at s w j = vd_cur s j" if i: "vd_inv v s" and "v \<le> w"
    using vd_inv_get [OF i, of j] that(2) history_at_last
    by (cases "bt_get (snd (snd s)) j") (fastforce simp: vd_at_def value_at_def vd_cur_def hist_ok_def)+
  show "vd_inv w s" if "vd_inv v s" "v \<le> w"
  proof -
    have "vd_key w c g h" if "vd_key v c g h" for c g and h :: "'v option history option"
      using that \<open>v \<le> w\<close> by (cases h) (auto intro: hist_ok_mono)
    with that show ?thesis by (simp add: vd_inv_def)
  qed
  show "vd_inv v (vd_fold floor s)" if "vd_inv v s"
  proof -
    have "vd_key v c g (map_option (\<lambda>h. fst (fold_entries h floor (\<lambda>_. 0))) h)"
      if "vd_key v c g h" for c g and h :: "'v option history option"
      using that hist_ok_fold by (cases h) auto
    with that show ?thesis by (simp add: vd_inv_def vd_fold_def bt_get_fold_table)
  qed
  show "vd_cur (vd_fold floor s) j = vd_cur s j" by (simp add: vd_cur_def vd_fold_def)
  show "vd_at (vd_fold floor s) w j = vd_at s w j" if "floor \<le> w"
    using that by (cases "bt_get (snd (snd s)) j")
      (simp_all add: vd_at_def value_at_def vd_fold_def bt_get_fold_table fold_history_at)
qed

subsection \<open>What the histories retain\<close>

text \<open>The cost of every value a table's histories hold but the last of each.\<close>

definition kept_cost :: "('a \<Rightarrow> nat) \<Rightarrow> 'a history \<Rightarrow> nat" where
  "kept_cost cost h = (\<Sum>e\<leftarrow>butlast h. cost (snd e))"

definition vd_retained :: "('v option \<Rightarrow> nat) \<Rightarrow> ('k, 'v) vdim \<Rightarrow> nat" where
  "vd_retained cost s = (\<Sum>e\<leftarrow>snd (snd s). kept_cost cost (snd e))"

lemma kept_cost_snoc: "h \<noteq> [] \<Longrightarrow> kept_cost cost (h @ [e]) = kept_cost cost h + cost (snd (last h))"
  by (cases h rule: rev_cases) (simp_all add: kept_cost_def butlast_append)

lemma kept_cost_single [simp]: "kept_cost cost [e] = 0" "kept_cost cost [] = 0"
  by (simp_all add: kept_cost_def)

lemma vd_retained_put:
  assumes "vd_inv v s" "cost None = 0"
  shows "vd_retained cost (vd_put v k x s) = vd_retained cost s + cost (vd_cur s k)"
proof (cases "bt_get (snd (snd s)) k")
  case None
  with vd_inv_get(2) [OF assms(1)] have "vd_cur s k = None" by (simp add: vd_cur_def)
  with None assms(2) show ?thesis
    by (simp add: vd_retained_def vd_put_def bt_push_def sum_bt_insert_absent)
next
  case (Some h)
  note h = vd_inv_get(1) [OF assms(1) Some]
  have "bt_ok (snd (snd s))" using assms(1) by (simp add: vd_inv_def)
  from sum_bt_insert_present [OF this Some, where f = "\<lambda>e. kept_cost cost (snd e)" and v = "h @ [(v, x)]"]
  have "(\<Sum>e\<leftarrow>bt_insert k (h @ [(v, x)]) (snd (snd s)). kept_cost cost (snd e)) + kept_cost cost h
      = kept_cost cost (h @ [(v, x)]) + vd_retained cost s" by (simp add: vd_retained_def)
  moreover have "kept_cost cost (h @ [(v, x)]) = kept_cost cost h + cost (vd_cur s k)"
    using h by (simp add: kept_cost_snoc hist_ok_def vd_cur_def)
  ultimately show ?thesis by (simp add: vd_retained_def vd_put_def bt_push_def Some)
qed

text \<open>Folding releases exactly what it no longer keeps.\<close>

lemma fold_entries_kept:
  assumes "kept_cost cost h < 2 ^ 64"
  shows "kept_cost cost (fst (fold_entries h floor cost)) + snd (fold_entries h floor cost) = kept_cost cost h"
proof -
  obtain n where n: "fst (fold_entries h floor cost) = drop n h" "n = 0 \<or> n < length h"
    "snd (fold_entries h floor cost) = wrap_sum (map (\<lambda>e. cost (snd e)) (take n h))"
    using fold_entries_suffix by metis
  have split: "butlast h = take n h @ butlast (drop n h)"
  proof (cases "n = 0")
    case False
    with n(2) have "butlast (take n h @ drop n h) = take n h @ butlast (drop n h)"
      by (subst butlast_append) auto
    then show ?thesis by simp
  qed simp
  have sum: "kept_cost cost h = (\<Sum>e\<leftarrow>take n h. cost (snd e)) + kept_cost cost (drop n h)"
    by (simp add: kept_cost_def split)
  with assms have "wrap_sum (map (\<lambda>e. cost (snd e)) (take n h)) = (\<Sum>e\<leftarrow>take n h. cost (snd e))"
    by (simp add: wrap_sum_def)
  with n sum show ?thesis by simp
qed

lemma vd_retained_fold_le: "vd_retained cost (vd_fold floor s) \<le> vd_retained cost s"
proof -
  have "kept_cost cost (fst (fold_entries h floor (\<lambda>_. 0))) \<le> kept_cost cost h" for h :: "'a option history"
  proof -
    obtain n where "fst (fold_entries h floor (\<lambda>_. 0)) = drop n h" using fold_entries_suffix by metis
    moreover have "butlast (drop n h) = drop n (butlast h)" by (simp add: butlast_drop)
    moreover have "butlast h = take n (butlast h) @ drop n (butlast h)" by simp
    ultimately show ?thesis unfolding kept_cost_def by (metis le_add2 map_append sum_list_append)
  qed
  then show ?thesis
    by (auto simp: vd_retained_def vd_fold_def fold_table_def comp_def intro!: sum_list_mono)
qed

section \<open>Directories\<close>

text \<open>The set of directories and the presence history of each path.\<close>

type_synonym 'k ddim = "'k btset \<times> ('k, bool history) btmap"

definition dd_cur :: "'k ddim \<Rightarrow> 'k \<Rightarrow> unit option" where
  "dd_cur s k = (if bs_mem (fst s) k then Some () else None)"

definition dir_at :: "('k, bool history) btmap \<Rightarrow> ver \<Rightarrow> 'k \<Rightarrow> bool" where
  "dir_at hs v k = (case bt_get hs k of None \<Rightarrow> False | Some h \<Rightarrow> present_at h v)"

definition dd_at :: "'k ddim \<Rightarrow> ver \<Rightarrow> 'k \<Rightarrow> unit option" where
  "dd_at s v k = (if dir_at (snd s) v k then Some () else None)"

definition dd_put :: "ver \<Rightarrow> 'k::linorder \<Rightarrow> unit option \<Rightarrow> 'k ddim \<Rightarrow> 'k ddim" where
  "dd_put v k x s =
     ((case x of None \<Rightarrow> bs_remove k (fst s) | Some _ \<Rightarrow> bs_insert k (fst s)), bt_push k (v, x \<noteq> None) (snd s))"

fun dd_key :: "ver \<Rightarrow> bool \<Rightarrow> bool history option \<Rightarrow> bool" where
  "dd_key v c None \<longleftrightarrow> \<not> c"
| "dd_key v c (Some h) \<longleftrightarrow> hist_ok v h \<and> c = snd (last h)"

definition dd_inv :: "ver \<Rightarrow> 'k::linorder ddim \<Rightarrow> bool" where
  "dd_inv v s \<longleftrightarrow> bs_ok (fst s) \<and> bt_ok (snd s) \<and> (\<forall>k. dd_key v (bs_mem (fst s) k) (bt_get (snd s) k))"

definition dd_fold :: "ver \<Rightarrow> 'k ddim \<Rightarrow> 'k ddim" where
  "dd_fold floor s = (fst s, fold_table (snd s) floor)"

lemma dd_inv_get:
  assumes "dd_inv v s"
  shows "bt_get (snd s) k = Some h \<Longrightarrow> hist_ok v h \<and> bs_mem (fst s) k = snd (last h)"
    "bt_get (snd s) k = None \<Longrightarrow> \<not> bs_mem (fst s) k"
  using assms unfolding dd_inv_def by (metis dd_key.simps)+

interpretation dd: folding_dimension dd_cur dd_at dd_put dd_inv dd_fold
proof unfold_locales
  fix v w floor :: ver and s :: "'k::linorder ddim" and k j and x :: "unit option"
  show "dd_inv v (dd_put v k x s)" if i: "dd_inv v s"
  proof -
    have "unwrap_or (bt_get (snd s) k) [] = [] \<or> hist_ok v (unwrap_or (bt_get (snd s) k) [])"
      using dd_inv_get(1) [OF i, of k] by (cases "bt_get (snd s) k") auto
    then have "hist_ok v (unwrap_or (bt_get (snd s) k) [] @ [(v, x \<noteq> None)])" by (rule hist_ok_snoc)
    with i show ?thesis
      by (cases x) (simp_all add: dd_inv_def dd_put_def bt_push_def)
  qed
  show "dd_cur (dd_put v k x s) j = (if j = k then x else dd_cur s j)" if "dd_inv v s"
    by (cases x) (auto simp: dd_cur_def dd_put_def)
  show "dd_at (dd_put v k x s) w j = dd_at s w j" if "w < v"
    using that by (cases "bt_get (snd s) k")
      (auto simp: dd_at_def dir_at_def dd_put_def bt_push_def present_at_def)
  show "dd_at s w j = dd_cur s j" if i: "dd_inv v s" and "v \<le> w"
    using dd_inv_get [OF i, of j] that(2) present_at_last
    by (cases "bt_get (snd s) j") (fastforce simp: dd_at_def dir_at_def dd_cur_def hist_ok_def)+
  show "dd_inv w s" if "dd_inv v s" "v \<le> w"
  proof -
    have "dd_key w c h" if "dd_key v c h" for c h
      using that \<open>v \<le> w\<close> by (cases h) (auto intro: hist_ok_mono)
    with that show ?thesis by (simp add: dd_inv_def)
  qed
  show "dd_inv v (dd_fold floor s)" if "dd_inv v s"
  proof -
    have "dd_key v c (map_option (\<lambda>h. fst (fold_entries h floor (\<lambda>_. 0))) h)" if "dd_key v c h" for c h
      using that hist_ok_fold by (cases h) auto
    with that show ?thesis by (simp add: dd_inv_def dd_fold_def bt_get_fold_table)
  qed
  show "dd_cur (dd_fold floor s) j = dd_cur s j" by (simp add: dd_cur_def dd_fold_def)
  show "dd_at (dd_fold floor s) w j = dd_at s w j" if "floor \<le> w"
    using that by (cases "bt_get (snd s) j")
      (simp_all add: dd_at_def dir_at_def dd_fold_def bt_get_fold_table fold_present_at)
qed

end
