(* ===== verification/Volume_Ops.thy ===== *)
theory Volume_Ops
  imports Derive Special Ordered_Maps
begin

text \<open>
  The vocabulary of \<open>crates/merge/src/increment.rs\<close>: the operations a work volume's journal
  declares, the base version's tables the deriver composes against, and its typed refusals.
\<close>

datatype volume_op =
    VOverwrite path nat nat
  | VExtend path nat nat
  | VTruncate path nat
  | VInsert path nat nat
  | VDelete path nat nat
  | VCreate path
  | VMknod path special_node nat
  | VUnlink path
  | VRename path path
  | VMkdir path
  | VRmdir path
  | VSetMode path nat
  | VSymlink path path
  | VSetXattr path path "byte list"
  | VRemoveXattr path path
  | VLink path path

text \<open>The bytes an operation holds; \<open>op_size\<close> is \<open>size_of::<VolumeOp>()\<close>, which the compiler chooses.\<close>

fun heap_bytes :: "volume_op \<Rightarrow> nat" where
  "heap_bytes (VOverwrite p _ _) = length p"
| "heap_bytes (VExtend p _ _) = length p"
| "heap_bytes (VTruncate p _) = length p"
| "heap_bytes (VInsert p _ _) = length p"
| "heap_bytes (VDelete p _ _) = length p"
| "heap_bytes (VCreate p) = length p"
| "heap_bytes (VMknod p _ _) = length p"
| "heap_bytes (VUnlink p) = length p"
| "heap_bytes (VMkdir p) = length p"
| "heap_bytes (VRmdir p) = length p"
| "heap_bytes (VSetMode p _) = length p"
| "heap_bytes (VRename f t) = sat_add (length f) (length t)"
| "heap_bytes (VSymlink p t) = sat_add (length p) (length t)"
| "heap_bytes (VLink p t) = sat_add (length p) (length t)"
| "heap_bytes (VSetXattr p n v) = sat_add (sat_add (length p) (length n)) (length v)"
| "heap_bytes (VRemoveXattr p n) = sat_add (length p) (length n)"

definition footprint :: "nat \<Rightarrow> volume_op \<Rightarrow> nat" where
  "footprint op_size p = sat_add op_size (heap_bytes p)"

fun vop_content :: "volume_op \<Rightarrow> content_op option" where
  "vop_content (VOverwrite _ at len) = Some (COverwrite at len)"
| "vop_content (VExtend _ at len) = Some (CExtend at len)"
| "vop_content (VTruncate _ len) = Some (CTruncate len)"
| "vop_content (VInsert _ at len) = Some (CInsert at len)"
| "vop_content (VDelete _ at len) = Some (CDelete at len)"
| "vop_content _ = None"

text \<open>\<open>names\<close>, the two slots flattened.\<close>

fun vop_names :: "volume_op \<Rightarrow> path list" where
  "vop_names (VOverwrite p _ _) = [p]"
| "vop_names (VExtend p _ _) = [p]"
| "vop_names (VTruncate p _) = [p]"
| "vop_names (VInsert p _ _) = [p]"
| "vop_names (VDelete p _ _) = [p]"
| "vop_names (VCreate p) = [p]"
| "vop_names (VMknod p _ _) = [p]"
| "vop_names (VUnlink p) = [p]"
| "vop_names (VMkdir p) = [p]"
| "vop_names (VRmdir p) = [p]"
| "vop_names (VSetMode p _) = [p]"
| "vop_names (VSymlink p _) = [p]"
| "vop_names (VSetXattr p _ _) = [p]"
| "vop_names (VRemoveXattr p _) = [p]"
| "vop_names (VRename f t) = [f, t]"
| "vop_names (VLink p t) = [p, t]"

fun is_directory :: "volume_op \<Rightarrow> bool" where
  "is_directory (VMkdir _) = True"
| "is_directory (VRmdir _) = True"
| "is_directory _ = False"

fun is_symlink :: "volume_op \<Rightarrow> bool" where
  "is_symlink (VSymlink _ _) = True"
| "is_symlink _ = False"

fun is_link :: "volume_op \<Rightarrow> bool" where
  "is_link (VLink _ _) = True"
| "is_link _ = False"

fun is_mknod :: "volume_op \<Rightarrow> bool" where
  "is_mknod (VMknod _ _ _) = True"
| "is_mknod _ = False"

fun single_path :: "volume_op \<Rightarrow> path option" where
  "single_path (VOverwrite p _ _) = Some p"
| "single_path (VExtend p _ _) = Some p"
| "single_path (VTruncate p _) = Some p"
| "single_path (VInsert p _ _) = Some p"
| "single_path (VDelete p _ _) = Some p"
| "single_path (VCreate p) = Some p"
| "single_path (VUnlink p) = Some p"
| "single_path _ = None"

datatype derive_error =
    ContentOnMissing path
  | CreateOverExisting path
  | UnlinkMissing path
  | RenameMissingSource path
  | Unsupported path
  | MkdirOverExisting path
  | RmdirMissing path
  | PathIsFileAndDirectory path
  | SetModeMissing path
  | SymlinkOverExisting path
  | PathKindConflict path
  | XattrMissing path
  | LinkOverExisting path

record base =
  b_files :: "(path \<times> nat) list"
  b_specials :: "(path \<times> special_node) list"
  b_dirs :: "path list"
  b_modes :: "(path \<times> nat) list"
  b_symlinks :: "(path \<times> path) list"
  b_xattrs :: "(path \<times> path \<times> byte list) list"
  b_hardlinks :: "(path \<times> path) list"

definition of_files :: "(path \<times> nat) list \<Rightarrow> base" where
  "of_files files = \<lparr>b_files = files, b_specials = [], b_dirs = [], b_modes = [], b_symlinks = [],
     b_xattrs = [], b_hardlinks = []\<rparr>"

text \<open>\<open>table.iter().find(|(candidate, _)| candidate == path).map(\<dots>)\<close>.\<close>

definition base_hardlink_target :: "base \<Rightarrow> path \<Rightarrow> path option" where
  "base_hardlink_target b p = map_of (b_hardlinks b) p"

definition base_xattr :: "base \<Rightarrow> path \<Rightarrow> path \<Rightarrow> byte list option" where
  "base_xattr b p n = map_option (\<lambda>(_, _, v). v) (find (\<lambda>(q, m, _). q = p \<and> m = n) (b_xattrs b))"

definition base_symlink_target :: "base \<Rightarrow> path \<Rightarrow> path option" where
  "base_symlink_target b p = map_of (b_symlinks b) p"

definition base_mode_of :: "base \<Rightarrow> path \<Rightarrow> nat option" where
  "base_mode_of b p = map_of (b_modes b) p"

definition base_len_of :: "base \<Rightarrow> path \<Rightarrow> nat option" where
  "base_len_of b p = map_of (b_files b) p"

end
