(* ===== verification/Green_State.thy ===== *)
theory Green_State
  imports Verdict Volume_Ops Increments Identity Versioned
begin

text \<open>
  The state of a green volume (\<open>crates/merge/src/engine.rs\<close>, \<open>struct Green\<close>) and the operations
  that read it: the origin it is seeded from, its identity kept as a running set hash, the base a
  deriver composes against at any version, and the paths changed between two versions. The
  record has the fields of the struct, in its order.
\<close>

section \<open>Windows, outcomes, identity keys\<close>

record conflict_window =
  w_path :: path
  w_range :: range
  w_class :: conflict_class

datatype outcome = Accepted ver | OutConflict "conflict_window list"

datatype identity_key =
    IkFile path
  | IkSpecial path
  | IkDir path
  | IkMode path
  | IkSymlink path
  | IkHardlink path
  | IkXattr path path

text \<open>The derived \<open>Ord\<close>: the variant first, then its fields.\<close>

fun ik_code :: "identity_key \<Rightarrow> nat \<times> path \<times> path" where
  "ik_code (IkFile p) = (0, p, '''')"
| "ik_code (IkSpecial p) = (1, p, '''')"
| "ik_code (IkDir p) = (2, p, '''')"
| "ik_code (IkMode p) = (3, p, '''')"
| "ik_code (IkSymlink p) = (4, p, '''')"
| "ik_code (IkHardlink p) = (5, p, '''')"
| "ik_code (IkXattr p n) = (6, p, n)"

lemma ik_code_inj: "ik_code a = ik_code b \<longleftrightarrow> a = b"
  by (cases a; cases b) auto

instantiation identity_key :: linorder
begin

definition less_eq_identity_key :: "identity_key \<Rightarrow> identity_key \<Rightarrow> bool" where
  "less_eq_identity_key a b \<longleftrightarrow> ik_code a \<le> ik_code b"

definition less_identity_key :: "identity_key \<Rightarrow> identity_key \<Rightarrow> bool" where
  "less_identity_key a b \<longleftrightarrow> ik_code a < ik_code b"

instance
proof
  fix x y z :: identity_key
  show "x < y \<longleftrightarrow> x \<le> y \<and> \<not> y \<le> x"
    by (simp add: less_identity_key_def less_eq_identity_key_def less_le_not_le)
  show "x \<le> x" by (simp add: less_eq_identity_key_def)
  show "x \<le> y \<Longrightarrow> y \<le> z \<Longrightarrow> x \<le> z" unfolding less_eq_identity_key_def by (rule order_trans)
  show "x \<le> y \<Longrightarrow> y \<le> x \<Longrightarrow> x = y"
    unfolding less_eq_identity_key_def ik_code_inj [symmetric] by (rule order_antisym)
  show "x \<le> y \<or> y \<le> x" unfolding less_eq_identity_key_def by (rule linear)
qed

end

definition special_entry :: "path \<Rightarrow> special_node \<Rightarrow> entry" where
  "special_entry p node = entry_field (entry_field (entry_new [0x49]) (as_bytes p)) (encode_node node)"

definition file_entry :: "path \<Rightarrow> byte list \<Rightarrow> entry" where
  "file_entry p bytes = entry_field (entry_field (entry_new [0x46]) (as_bytes p)) bytes"

definition dir_entry :: "path \<Rightarrow> entry" where
  "dir_entry p = entry_field (entry_new [0x44]) (as_bytes p)"

definition mode_entry :: "path \<Rightarrow> nat \<Rightarrow> entry" where
  "mode_entry p mode = entry_fixed (entry_field (entry_new [0x4D]) (as_bytes p)) (le_bytes 4 mode)"

definition symlink_tag :: "byte list" where
  "symlink_tag = [0x53]"

definition hardlink_tag :: "byte list" where
  "hardlink_tag = [0x4C]"

definition link_entry :: "byte list \<Rightarrow> path \<Rightarrow> path \<Rightarrow> entry" where
  "link_entry tag p target = entry_field (entry_field (entry_new tag) (as_bytes p)) (as_bytes target)"

definition xattr_entry :: "path \<Rightarrow> path \<Rightarrow> byte list \<Rightarrow> entry" where
  "xattr_entry p name value =
     entry_field (entry_field (entry_field (entry_new [0x58]) (as_bytes p)) (as_bytes name)) value"

section \<open>The green\<close>

type_synonym attr_key = "path \<times> path"

record green =
  g_identity :: lanes
  g_identity_version :: ver
  g_identity_dirty :: "identity_key btset"
  g_content :: "(path, byte list) btmap"
  g_content_history :: "(path, byte list option history) btmap"
  g_specials :: "(path, special_node) btmap"
  g_special_history :: "(path, special_node option history) btmap"
  g_special_changed :: "(path, ver) btmap"
  g_dirs :: "path btset"
  g_modes :: "(path, nat) btmap"
  g_symlinks :: "(path, path) btmap"
  g_hardlinks :: "(path, path) btmap"
  g_xattrs :: "(attr_key, byte list) btmap"
  g_dir_history :: "(path, bool history) btmap"
  g_mode_history :: "(path, nat option history) btmap"
  g_symlink_history :: "(path, path option history) btmap"
  g_hardlink_history :: "(path, path option history) btmap"
  g_xattr_history :: "(attr_key, byte list option history) btmap"
  g_deltas :: "(path, op list) btmap list"
  g_last_changed :: "(path, ver) btmap"
  g_mode_changed :: "(path, ver) btmap"
  g_symlink_changed :: "(path, ver) btmap"
  g_hardlink_changed :: "(path, ver) btmap"
  g_xattr_changed :: "(attr_key, ver) btmap"
  g_accepted :: "(identity32, ver) btmap"
  g_rejected :: "(identity32, conflict_window list) btmap"
  g_rejected_order :: "identity32 list"
  g_rejected_bytes :: nat
  g_rejected_budget :: nat
  g_rejected_evicted :: nat
  g_history_bytes :: nat
  g_folded_below :: ver
  g_fast_path_hits :: nat

text \<open>\<open>Green::default()\<close>, which is \<open>Green::new()\<close>.\<close>

definition green_new :: green where
  "green_new = \<lparr>g_identity = set_hash_default, g_identity_version = 0, g_identity_dirty = [],
     g_content = [], g_content_history = [], g_specials = [], g_special_history = [],
     g_special_changed = [], g_dirs = [], g_modes = [], g_symlinks = [], g_hardlinks = [],
     g_xattrs = [], g_dir_history = [], g_mode_history = [], g_symlink_history = [],
     g_hardlink_history = [], g_xattr_history = [], g_deltas = [], g_last_changed = [],
     g_mode_changed = [], g_symlink_changed = [], g_hardlink_changed = [], g_xattr_changed = [],
     g_accepted = [], g_rejected = [], g_rejected_order = [], g_rejected_bytes = 0,
     g_rejected_budget = 0, g_rejected_evicted = 0, g_history_bytes = 0, g_folded_below = 0,
     g_fast_path_hits = 0\<rparr>"

definition head :: "green \<Rightarrow> ver" where
  "head g = length (g_deltas g)"

section \<open>Seeding from an origin\<close>

text \<open>One iteration of each loop of \<open>with_origin\<close>.\<close>

definition seed_special :: "xof \<Rightarrow> path \<times> special_node \<Rightarrow> green \<Rightarrow> green" where
  "seed_special xof e g =
     g\<lparr>g_identity := set_hash_add xof (g_identity g) (special_entry (fst e) (snd e)),
       g_specials := bt_insert (fst e) (snd e) (g_specials g),
       g_special_changed := bt_insert (fst e) 0 (g_special_changed g),
       g_special_history := bt_insert (fst e) [(0, Some (snd e))] (g_special_history g)\<rparr>"

definition seed_file :: "xof \<Rightarrow> path \<times> byte list \<Rightarrow> green \<Rightarrow> green" where
  "seed_file xof e g =
     g\<lparr>g_identity := set_hash_add xof (g_identity g) (file_entry (fst e) (snd e)),
       g_content := bt_insert (fst e) (snd e) (g_content g),
       g_last_changed := bt_insert (fst e) 0 (g_last_changed g),
       g_content_history := bt_insert (fst e) [(0, Some (snd e))] (g_content_history g)\<rparr>"

definition seed_dir :: "xof \<Rightarrow> path \<Rightarrow> green \<Rightarrow> green" where
  "seed_dir xof p g =
     g\<lparr>g_identity := (if bs_mem (g_dirs g) p then g_identity g
                      else set_hash_add xof (g_identity g) (dir_entry p)),
       g_dirs := bs_insert p (g_dirs g),
       g_dir_history := bt_insert p [(0, True)] (g_dir_history g)\<rparr>"

definition seed_mode :: "xof \<Rightarrow> path \<times> nat \<Rightarrow> green \<Rightarrow> green" where
  "seed_mode xof e g =
     g\<lparr>g_identity := set_hash_add xof (g_identity g) (mode_entry (fst e) (snd e)),
       g_modes := bt_insert (fst e) (snd e) (g_modes g),
       g_mode_changed := bt_insert (fst e) 0 (g_mode_changed g),
       g_mode_history := bt_insert (fst e) [(0, Some (snd e))] (g_mode_history g)\<rparr>"

definition seed_symlink :: "xof \<Rightarrow> path \<times> path \<Rightarrow> green \<Rightarrow> green" where
  "seed_symlink xof e g =
     g\<lparr>g_identity := set_hash_add xof (g_identity g) (link_entry symlink_tag (fst e) (snd e)),
       g_symlinks := bt_insert (fst e) (snd e) (g_symlinks g),
       g_symlink_changed := bt_insert (fst e) 0 (g_symlink_changed g),
       g_symlink_history := bt_insert (fst e) [(0, Some (snd e))] (g_symlink_history g)\<rparr>"

definition seed_hardlink :: "xof \<Rightarrow> path \<times> path \<Rightarrow> green \<Rightarrow> green" where
  "seed_hardlink xof e g =
     g\<lparr>g_identity := set_hash_add xof (g_identity g) (link_entry hardlink_tag (fst e) (snd e)),
       g_hardlinks := bt_insert (fst e) (snd e) (g_hardlinks g),
       g_hardlink_changed := bt_insert (fst e) 0 (g_hardlink_changed g),
       g_hardlink_history := bt_insert (fst e) [(0, Some (snd e))] (g_hardlink_history g)\<rparr>"

definition seed_xattr :: "xof \<Rightarrow> path \<times> path \<times> byte list \<Rightarrow> green \<Rightarrow> green" where
  "seed_xattr xof e g =
     (let key = xattr_key e; value = snd (snd e)
      in g\<lparr>g_identity := set_hash_add xof (g_identity g) (xattr_entry (fst key) (snd key) value),
           g_xattrs := bt_insert key value (g_xattrs g),
           g_xattr_changed := bt_insert key 0 (g_xattr_changed g),
           g_xattr_history := bt_insert key [(0, Some value)] (g_xattr_history g)\<rparr>)"

definition with_origin :: "xof \<Rightarrow> origin \<Rightarrow> green" where
  "with_origin xof s =
     (let c = origin_canonicalize s
      in fold (seed_xattr xof) (or_xattrs c)
        (fold (seed_hardlink xof) (or_hardlinks c)
        (fold (seed_symlink xof) (or_symlinks c)
        (fold (seed_mode xof) (or_modes c)
        (fold (seed_dir xof) (or_dirs c)
        (fold (seed_file xof) (or_files c)
        (fold (seed_special xof) (or_specials c) green_new)))))))"

section \<open>Reading a version\<close>

definition content_at :: "green \<Rightarrow> path \<Rightarrow> ver \<Rightarrow> byte list option" where
  "content_at g p version = value_at (g_content_history g) version p"

text \<open>\<open>content_ref_at\<close> is \<open>content_at\<close> without the copy.\<close>

abbreviation content_ref_at :: "green \<Rightarrow> path \<Rightarrow> ver \<Rightarrow> byte list option" where
  "content_ref_at \<equiv> content_at"

definition special :: "green \<Rightarrow> path \<Rightarrow> special_node option" where
  "special g p =
     (case bt_get (g_specials g) p of
        Some node \<Rightarrow> Some node
      | None \<Rightarrow> Option.bind (bt_get (g_hardlinks g) p) (\<lambda>target. bt_get (g_specials g) target))"

definition content :: "green \<Rightarrow> path \<Rightarrow> byte list option" where
  "content g p = bt_get (g_content g) p"

definition files :: "green \<Rightarrow> (path \<times> byte list) list" where
  "files g = g_content g"

definition is_dir :: "green \<Rightarrow> path \<Rightarrow> bool" where
  "is_dir g p = bs_mem (g_dirs g) p"

definition metadata_path :: "green \<Rightarrow> path \<Rightarrow> path" where
  "metadata_path g p =
     (case bt_get (g_hardlinks g) p of
        None \<Rightarrow> p
      | Some target \<Rightarrow> if bt_contains (g_specials g) target then target else p)"

definition mode :: "green \<Rightarrow> path \<Rightarrow> nat option" where
  "mode g p = bt_get (g_modes g) (metadata_path g p)"

definition symlink :: "green \<Rightarrow> path \<Rightarrow> path option" where
  "symlink g p = bt_get (g_symlinks g) p"

definition hardlink :: "green \<Rightarrow> path \<Rightarrow> path option" where
  "hardlink g p = bt_get (g_hardlinks g) p"

definition xattr :: "green \<Rightarrow> path \<Rightarrow> path \<Rightarrow> byte list option" where
  "xattr g p name = bt_get (g_xattrs g) (metadata_path g p, name)"

definition changed_since :: "green \<Rightarrow> ver \<Rightarrow> path list" where
  "changed_since g version = map fst (filter (\<lambda>e. snd e > version) (g_last_changed g))"

definition files_at :: "green \<Rightarrow> ver \<Rightarrow> (path \<times> byte list) list" where
  "files_at g version =
     (if version \<ge> head g then files g
      else List.map_filter (\<lambda>p. map_option (\<lambda>bs. (p, bs)) (content_at g p version)) (bt_keys (g_content_history g)))"

text \<open>\<open>history.iter().filter_map(|(key, history)| history_at(history, version).map(\<dots>))\<close>.\<close>

definition table_at :: "('k, 'v option history) btmap \<Rightarrow> ver \<Rightarrow> ('k \<times> 'v) list" where
  "table_at hs version = List.map_filter (\<lambda>e. map_option (\<lambda>v. (fst e, v)) (history_at (snd e) version)) hs"

definition current_base :: "green \<Rightarrow> base" where
  "current_base g =
     \<lparr>b_files = map (\<lambda>e. (fst e, length (snd e))) (g_content g), b_specials = g_specials g,
      b_dirs = g_dirs g, b_modes = g_modes g, b_symlinks = g_symlinks g,
      b_xattrs = map (\<lambda>((p, n), v). (p, n, v)) (g_xattrs g), b_hardlinks = g_hardlinks g\<rparr>"

definition base_at :: "green \<Rightarrow> ver \<Rightarrow> base" where
  "base_at g version =
     (if version \<ge> head g then current_base g
      else \<lparr>b_files = List.map_filter (\<lambda>p. map_option (\<lambda>bs. (p, length bs)) (content_at g p version))
                        (bt_keys (g_content_history g)),
            b_specials = table_at (g_special_history g) version,
            b_dirs = map fst (filter (\<lambda>e. present_at (snd e) version) (g_dir_history g)),
            b_modes = table_at (g_mode_history g) version,
            b_symlinks = table_at (g_symlink_history g) version,
            b_xattrs = map (\<lambda>((p, n), v). (p, n, v)) (table_at (g_xattr_history g) version),
            b_hardlinks = table_at (g_hardlink_history g) version\<rparr>)"

text \<open>\<open>map.range((path, String::new())..)\<close> up to the first key of another path.\<close>

definition attr_range :: "(attr_key, 'v) btmap \<Rightarrow> path \<Rightarrow> (attr_key \<times> 'v) list" where
  "attr_range m p = takeWhile (\<lambda>e. fst (fst e) = p) (dropWhile (\<lambda>e. fst e < (p, '''')) m)"

definition opt_list :: "'a option \<Rightarrow> 'a list" where
  "opt_list x = (case x of None \<Rightarrow> [] | Some a \<Rightarrow> [a])"

definition head_entries :: "green \<Rightarrow> path \<Rightarrow> base \<Rightarrow> base" where
  "head_entries g p b =
     b\<lparr>b_files := b_files b @ opt_list (map_option (\<lambda>bs. (p, length bs)) (bt_get (g_content g) p)),
       b_specials := b_specials b @ opt_list (map_option (\<lambda>n. (p, n)) (bt_get (g_specials g) p)),
       b_dirs := b_dirs b @ (if bs_mem (g_dirs g) p then [p] else []),
       b_modes := b_modes b @ opt_list (map_option (\<lambda>m. (p, m)) (bt_get (g_modes g) p)),
       b_symlinks := b_symlinks b @ opt_list (map_option (\<lambda>t. (p, t)) (bt_get (g_symlinks g) p)),
       b_xattrs := b_xattrs b @ map (\<lambda>((q, n), v). (q, n, v)) (attr_range (g_xattrs g) p)\<rparr>"

definition entries_at :: "green \<Rightarrow> path \<Rightarrow> ver \<Rightarrow> base \<Rightarrow> base" where
  "entries_at g p version b =
     b\<lparr>b_files := b_files b @ opt_list (map_option (\<lambda>bs. (p, length bs)) (content_at g p version)),
       b_specials := b_specials b @ opt_list (map_option (\<lambda>n. (p, n)) (value_at (g_special_history g) version p)),
       b_dirs := b_dirs b @ (if dir_at (g_dir_history g) version p then [p] else []),
       b_modes := b_modes b @ opt_list (map_option (\<lambda>m. (p, m)) (value_at (g_mode_history g) version p)),
       b_symlinks := b_symlinks b @ opt_list (map_option (\<lambda>t. (p, t)) (value_at (g_symlink_history g) version p)),
       b_xattrs := b_xattrs b @ map (\<lambda>((q, n), v). (q, n, v)) (table_at (attr_range (g_xattr_history g) p) version)\<rparr>"

definition base_for :: "green \<Rightarrow> ver \<Rightarrow> volume_op list \<Rightarrow> base" where
  "base_for g version journal =
     (let named = bs_extend (concat (map vop_names journal)) [];
          at_head = version \<ge> head g;
          b = fold (\<lambda>p. if at_head then head_entries g p else entries_at g p version) named (of_files []);
          links = (if at_head then g_hardlinks g else table_at (g_hardlink_history g) version)
      in b\<lparr>b_hardlinks := b_hardlinks b @ filter (\<lambda>(link, target). bs_mem named link \<or> bs_mem named target) links\<rparr>)"

section \<open>The identity\<close>

text \<open>\<open>entries_of\<close>: a key's identity entry at version \<open>since\<close>, and at the head.\<close>

fun entry_at :: "green \<Rightarrow> ver \<Rightarrow> identity_key \<Rightarrow> entry option" where
  "entry_at g since (IkFile p) = map_option (file_entry p) (content_at g p since)"
| "entry_at g since (IkSpecial p) = map_option (special_entry p) (value_at (g_special_history g) since p)"
| "entry_at g since (IkDir p) = (if dir_at (g_dir_history g) since p then Some (dir_entry p) else None)"
| "entry_at g since (IkMode p) = map_option (mode_entry p) (value_at (g_mode_history g) since p)"
| "entry_at g since (IkSymlink p) = map_option (link_entry symlink_tag p) (value_at (g_symlink_history g) since p)"
| "entry_at g since (IkHardlink p) = map_option (link_entry hardlink_tag p) (value_at (g_hardlink_history g) since p)"
| "entry_at g since (IkXattr p n) = map_option (xattr_entry p n) (value_at (g_xattr_history g) since (p, n))"

fun entry_now :: "green \<Rightarrow> identity_key \<Rightarrow> entry option" where
  "entry_now g (IkFile p) = map_option (file_entry p) (bt_get (g_content g) p)"
| "entry_now g (IkSpecial p) = map_option (special_entry p) (bt_get (g_specials g) p)"
| "entry_now g (IkDir p) = (if bs_mem (g_dirs g) p then Some (dir_entry p) else None)"
| "entry_now g (IkMode p) = map_option (mode_entry p) (bt_get (g_modes g) p)"
| "entry_now g (IkSymlink p) = map_option (link_entry symlink_tag p) (bt_get (g_symlinks g) p)"
| "entry_now g (IkHardlink p) = map_option (link_entry hardlink_tag p) (bt_get (g_hardlinks g) p)"
| "entry_now g (IkXattr p n) = map_option (xattr_entry p n) (bt_get (g_xattrs g) (p, n))"

definition entries_of :: "green \<Rightarrow> identity_key \<Rightarrow> ver \<Rightarrow> entry option \<times> entry option" where
  "entries_of g key since = (entry_at g since key, entry_now g key)"

definition fold_key :: "xof \<Rightarrow> green \<Rightarrow> ver \<Rightarrow> identity_key \<Rightarrow> lanes \<Rightarrow> lanes" where
  "fold_key xof g since key h =
     (let (old, new) = entries_of g key since;
          h = (case old of None \<Rightarrow> h | Some e \<Rightarrow> set_hash_remove xof h e)
      in case new of None \<Rightarrow> h | Some e \<Rightarrow> set_hash_add xof h e)"

definition fold_identity :: "xof \<Rightarrow> green \<Rightarrow> green" where
  "fold_identity xof g =
     g\<lparr>g_identity := fold (fold_key xof g (g_identity_version g)) (g_identity_dirty g) (g_identity g),
       g_identity_dirty := [],
       g_identity_version := head g\<rparr>"

definition head_identity :: "xof \<Rightarrow> (byte list \<Rightarrow> byte list) \<Rightarrow> green \<Rightarrow> byte list \<times> green" where
  "head_identity xof digest g =
     (let g' = fold_identity xof g in (set_hash_identity digest (g_identity g'), g'))"

text \<open>Every current entry, in the order the loops of \<open>head_identity_from_scratch\<close> add them.\<close>

definition scratch_entries :: "green \<Rightarrow> entry list" where
  "scratch_entries g =
     map (\<lambda>e. special_entry (fst e) (snd e)) (g_specials g)
     @ map (\<lambda>e. file_entry (fst e) (snd e)) (g_content g)
     @ map dir_entry (g_dirs g)
     @ map (\<lambda>e. mode_entry (fst e) (snd e)) (g_modes g)
     @ map (\<lambda>e. link_entry symlink_tag (fst e) (snd e)) (g_symlinks g)
     @ map (\<lambda>e. link_entry hardlink_tag (fst e) (snd e)) (g_hardlinks g)
     @ map (\<lambda>e. xattr_entry (fst (fst e)) (snd (fst e)) (snd e)) (g_xattrs g)"

definition head_identity_from_scratch :: "xof \<Rightarrow> (byte list \<Rightarrow> byte list) \<Rightarrow> green \<Rightarrow> byte list" where
  "head_identity_from_scratch xof digest g =
     set_hash_identity digest (foldl (set_hash_add xof) set_hash_default (scratch_entries g))"

section \<open>What changed between two versions\<close>

text \<open>The last loop: an alias of an IPC inode that changed is changed too.\<close>

definition mark_alias :: "green \<Rightarrow> ver \<Rightarrow> ver \<Rightarrow> path \<times> path option history \<Rightarrow> path btset \<Rightarrow> path btset" where
  "mark_alias g from to e changed =
     (if \<exists>target \<in> set (opt_list (history_at (snd e) from) @ opt_list (history_at (snd e) to)).
           bt_contains (g_special_history g) target \<and> bs_mem changed target
      then bs_insert (fst e) changed else changed)"

definition changed_between :: "green \<Rightarrow> ver \<Rightarrow> ver \<Rightarrow> path list" where
  "changed_between g from to =
     (let changed = bs_extend (paths_changed_in (g_content_history g) from to) [];
          changed = bs_extend (paths_changed_in (g_special_history g) from to) changed;
          changed = bs_extend (paths_changed_in (g_dir_history g) from to) changed;
          changed = bs_extend (paths_changed_in (g_mode_history g) from to) changed;
          changed = bs_extend (paths_changed_in (g_symlink_history g) from to) changed;
          changed = bs_extend (paths_changed_in (g_hardlink_history g) from to) changed;
          changed = bs_extend (map fst (paths_changed_in (g_xattr_history g) from to)) changed
      in fold (mark_alias g from to) (g_hardlink_history g) changed)"

section \<open>The dimensions\<close>

text \<open>Each dimension of the record as the triple \<open>Versioned\<close> reasons about.\<close>

definition content_dim :: "green \<Rightarrow> (path, byte list) vdim" where
  "content_dim g = (g_content g, g_last_changed g, g_content_history g)"

definition special_dim :: "green \<Rightarrow> (path, special_node) vdim" where
  "special_dim g = (g_specials g, g_special_changed g, g_special_history g)"

definition mode_dim :: "green \<Rightarrow> (path, nat) vdim" where
  "mode_dim g = (g_modes g, g_mode_changed g, g_mode_history g)"

definition symlink_dim :: "green \<Rightarrow> (path, path) vdim" where
  "symlink_dim g = (g_symlinks g, g_symlink_changed g, g_symlink_history g)"

definition hardlink_dim :: "green \<Rightarrow> (path, path) vdim" where
  "hardlink_dim g = (g_hardlinks g, g_hardlink_changed g, g_hardlink_history g)"

definition xattr_dim :: "green \<Rightarrow> (attr_key, byte list) vdim" where
  "xattr_dim g = (g_xattrs g, g_xattr_changed g, g_xattr_history g)"

definition dir_dim :: "green \<Rightarrow> path ddim" where
  "dir_dim g = (g_dirs g, g_dir_history g)"

lemmas dim_defs = content_dim_def special_dim_def mode_dim_def symlink_dim_def hardlink_dim_def
  xattr_dim_def dir_dim_def

text \<open>Every dimension is in order at version \<open>v\<close>.\<close>

definition dims_ok :: "ver \<Rightarrow> green \<Rightarrow> bool" where
  "dims_ok v g \<longleftrightarrow> vd_inv v (content_dim g) \<and> vd_inv v (special_dim g) \<and> vd_inv v (mode_dim g) \<and>
     vd_inv v (symlink_dim g) \<and> vd_inv v (hardlink_dim g) \<and> vd_inv v (xattr_dim g) \<and> dd_inv v (dir_dim g)"

lemma dims_ok_mono: "dims_ok v g \<Longrightarrow> v \<le> w \<Longrightarrow> dims_ok w g"
  by (auto simp: dims_ok_def intro: vd.inv_mono dd.inv_mono)

text \<open>At the newest version every entry is the current one.\<close>

lemma entry_at_dims:
  "entry_at g v (IkFile p) = map_option (file_entry p) (vd_at (content_dim g) v p)"
  "entry_at g v (IkSpecial p) = map_option (special_entry p) (vd_at (special_dim g) v p)"
  "entry_at g v (IkDir p) = map_option (\<lambda>_. dir_entry p) (dd_at (dir_dim g) v p)"
  "entry_at g v (IkMode p) = map_option (mode_entry p) (vd_at (mode_dim g) v p)"
  "entry_at g v (IkSymlink p) = map_option (link_entry symlink_tag p) (vd_at (symlink_dim g) v p)"
  "entry_at g v (IkHardlink p) = map_option (link_entry hardlink_tag p) (vd_at (hardlink_dim g) v p)"
  "entry_at g v (IkXattr p n) = map_option (xattr_entry p n) (vd_at (xattr_dim g) v (p, n))"
  by (simp_all add: dim_defs vd_at_def dd_at_def content_at_def)

lemma entry_now_dims:
  "entry_now g (IkFile p) = map_option (file_entry p) (vd_cur (content_dim g) p)"
  "entry_now g (IkSpecial p) = map_option (special_entry p) (vd_cur (special_dim g) p)"
  "entry_now g (IkDir p) = map_option (\<lambda>_. dir_entry p) (dd_cur (dir_dim g) p)"
  "entry_now g (IkMode p) = map_option (mode_entry p) (vd_cur (mode_dim g) p)"
  "entry_now g (IkSymlink p) = map_option (link_entry symlink_tag p) (vd_cur (symlink_dim g) p)"
  "entry_now g (IkHardlink p) = map_option (link_entry hardlink_tag p) (vd_cur (hardlink_dim g) p)"
  "entry_now g (IkXattr p n) = map_option (xattr_entry p n) (vd_cur (xattr_dim g) (p, n))"
  by (simp_all add: dim_defs vd_cur_def dd_cur_def)

lemma entry_at_now: "dims_ok v g \<Longrightarrow> v \<le> w \<Longrightarrow> entry_at g w k = entry_now g k"
  by (cases k) (simp_all only: entry_at_dims entry_now_dims, simp_all add: dims_ok_def vd.at_cur [of v] dd.at_cur [of v])

end
