(* ===== verification/Merge.thy ===== *)
theory Merge
  imports Green_State Position_Map
begin

text \<open>
  The verdict of \<open>crates/merge/src/engine.rs\<close>: an increment's document resolved into its changes per
  dimension, each change merged against the head, and the accepted effects or the conflict
  windows collected in the order the code collects them. Nothing of the green is written but the
  counter of fast-path hits.
\<close>

section \<open>An increment resolved\<close>

record resolved =
  rs_content :: "(path, op list) btmap"
  rs_creates :: "path btset"
  rs_specials :: "(path, special_node) btmap"
  rs_invalid :: "path btset"
  rs_unlinks :: "path btset"
  rs_mkdirs :: "path btset"
  rs_rmdirs :: "path btset"
  rs_modes :: "(path, nat) btmap"
  rs_symlinks :: "(path, path) btmap"
  rs_hardlinks :: "(path, path) btmap"
  rs_renames :: "(path, path) btmap"
  rs_xattr_sets :: "(path \<times> path \<times> byte list) list"
  rs_xattr_removes :: "(path \<times> path) list"

definition resolved_default :: resolved where
  "resolved_default = \<lparr>rs_content = [], rs_creates = [], rs_specials = [], rs_invalid = [],
     rs_unlinks = [], rs_mkdirs = [], rs_rmdirs = [], rs_modes = [], rs_symlinks = [],
     rs_hardlinks = [], rs_renames = [], rs_xattr_sets = [], rs_xattr_removes = []\<rparr>"

definition cleared :: "resolved \<Rightarrow> path btset" where
  "cleared r = bs_extend (bt_values (rs_renames r)) (bs_extend (rs_rmdirs r) (rs_unlinks r))"

definition establishes :: "resolved \<Rightarrow> path \<Rightarrow> bool" where
  "establishes r p \<longleftrightarrow> bs_mem (rs_creates r) p \<or> bs_mem (rs_mkdirs r) p
     \<or> bt_contains (rs_renames r) p \<or> bt_contains (rs_specials r) p"

text \<open>The closure \<open>name\<close> of \<open>resolve\<close>.\<close>

definition name_at :: "ops_doc \<Rightarrow> nat \<Rightarrow> path" where
  "name_at doc index = unwrap_or (path_at (doc_paths doc) (to_u16 index)) ''''"

definition post_slice :: "byte list \<Rightarrow> nat \<Rightarrow> nat \<Rightarrow> byte list" where
  "post_slice post src len =
     (let start = min src (length post);
          end = min (sat_add start len) (length post)
      in unwrap_or (slice_get post start end) [])"

definition resolve_op :: "increment \<Rightarrow> op \<Rightarrow> resolved \<Rightarrow> resolved" where
  "resolve_op inc p r =
     (let path = name_at (inc_doc inc) (op_path p); name = name_at (inc_doc inc)
      in if is_content (op_kind p) then r\<lparr>rs_content := bt_push path p (rs_content r)\<rparr>
         else case op_kind p of
             KMknod \<Rightarrow>
               (case special_payload (inc_doc inc) (inc_post inc) p of
                  Inr node \<Rightarrow> r\<lparr>rs_specials := bt_insert path node (rs_specials r)\<rparr>
                | Inl _ \<Rightarrow> r\<lparr>rs_invalid := bs_insert path (rs_invalid r)\<rparr>)
           | KCreate \<Rightarrow> r\<lparr>rs_creates := bs_insert path (rs_creates r)\<rparr>
           | KUnlink \<Rightarrow> r\<lparr>rs_unlinks := bs_insert path (rs_unlinks r)\<rparr>
           | KMkdir \<Rightarrow> r\<lparr>rs_mkdirs := bs_insert path (rs_mkdirs r)\<rparr>
           | KRmdir \<Rightarrow> r\<lparr>rs_rmdirs := bs_insert path (rs_rmdirs r)\<rparr>
           | KSetMode \<Rightarrow> r\<lparr>rs_modes := bt_insert path (to_u32 (op_len p)) (rs_modes r)\<rparr>
           | KSymlink \<Rightarrow> r\<lparr>rs_symlinks := bt_insert path (name (op_src p)) (rs_symlinks r)\<rparr>
           | KLink \<Rightarrow> r\<lparr>rs_hardlinks := bt_insert path (name (op_src p)) (rs_hardlinks r)\<rparr>
           | KRename \<Rightarrow> r\<lparr>rs_renames := bt_insert path (name (op_src p)) (rs_renames r)\<rparr>
           | KSetXattr \<Rightarrow>
               r\<lparr>rs_xattr_sets := rs_xattr_sets r @
                   [(path, name (op_at p), post_slice (inc_post inc) (op_src p) (op_len p))]\<rparr>
           | KRemoveXattr \<Rightarrow> r\<lparr>rs_xattr_removes := rs_xattr_removes r @ [(path, name (op_at p))]\<rparr>
           | _ \<Rightarrow> r)"

text \<open>The loop after it: an IPC creation of a path the increment names in another way is invalid.\<close>

definition clashing_special :: "resolved \<Rightarrow> path \<Rightarrow> bool" where
  "clashing_special r p \<longleftrightarrow> bs_mem (rs_creates r) p \<or> bt_contains (rs_content r) p \<or> bs_mem (rs_mkdirs r) p
     \<or> bt_contains (rs_symlinks r) p \<or> bt_contains (rs_hardlinks r) p \<or> bt_contains (rs_renames r) p
     \<or> bs_mem (rs_unlinks r) p \<or> bs_mem (rs_rmdirs r) p"

definition resolve :: "increment \<Rightarrow> resolved" where
  "resolve inc =
     (let r = fold (resolve_op inc) (doc_ops (inc_doc inc)) resolved_default
      in r\<lparr>rs_invalid := bs_extend (filter (clashing_special r) (bt_keys (rs_specials r))) (rs_invalid r)\<rparr>)"

section \<open>Effects\<close>

datatype effect =
    Special path special_node
  | RemoveSpecial path
  | SetContent path "byte list" "op list"
  | RemoveContent path
  | MakeDir path
  | RemoveDir path
  | Mode path nat
  | Symlink path path
  | RemoveSymlink path
  | Hardlink path path
  | RemoveHardlink path
  | SetXattr path path "byte list"
  | RemoveXattr path path

fun effect_key :: "effect \<Rightarrow> identity_key" where
  "effect_key (Special p _) = IkSpecial p"
| "effect_key (RemoveSpecial p) = IkSpecial p"
| "effect_key (SetContent p _ _) = IkFile p"
| "effect_key (RemoveContent p) = IkFile p"
| "effect_key (MakeDir p) = IkDir p"
| "effect_key (RemoveDir p) = IkDir p"
| "effect_key (Mode p _) = IkMode p"
| "effect_key (Symlink p _) = IkSymlink p"
| "effect_key (RemoveSymlink p) = IkSymlink p"
| "effect_key (Hardlink p _) = IkHardlink p"
| "effect_key (RemoveHardlink p) = IkHardlink p"
| "effect_key (SetXattr p n _) = IkXattr p n"
| "effect_key (RemoveXattr p n) = IkXattr p n"

definition insert_whole :: "nat \<Rightarrow> op" where
  "insert_whole len = \<lparr>op_kind = KInsert, op_flags = 0, op_path = 0, op_at = 0, op_len = len, op_src = 0\<rparr>"

definition window :: "path \<Rightarrow> conflict_class \<Rightarrow> conflict_window" where
  "window p c = \<lparr>w_path = p, w_range = range_new 0 0, w_class = c\<rparr>"

definition intervening :: "green \<Rightarrow> path \<Rightarrow> ver \<Rightarrow> op list list" where
  "intervening g p base = List.map_filter (\<lambda>delta. bt_get delta p) (drop base (g_deltas g))"

text \<open>\<open>changed.get(key).copied().unwrap_or(0)\<close>.\<close>

definition changed_at :: "('k, ver) btmap \<Rightarrow> 'k \<Rightarrow> ver" where
  "changed_at m k = unwrap_or (bt_get m k) 0"

definition starts_with :: "path \<Rightarrow> path \<Rightarrow> bool" where
  "starts_with p q \<longleftrightarrow> take (length q) p = q"

definition has_live_child :: "green \<Rightarrow> path \<Rightarrow> path btset \<Rightarrow> bool" where
  "has_live_child g pre gone =
     (let live = (\<lambda>p. starts_with p pre \<and> \<not> bs_mem gone p)
      in list_ex live (bt_keys (g_content g)) \<or> list_ex live (g_dirs g)
       \<or> list_ex live (bt_keys (g_symlinks g)) \<or> list_ex live (bt_keys (g_hardlinks g))
       \<or> list_ex live (bt_keys (g_specials g)))"

definition occupied_by_nonfile :: "green \<Rightarrow> path \<Rightarrow> bool" where
  "occupied_by_nonfile g p \<longleftrightarrow> bs_mem (g_dirs g) p \<or> bt_contains (g_symlinks g) p
     \<or> bt_contains (g_hardlinks g) p \<or> bt_contains (g_specials g) p"

section \<open>Names\<close>

text \<open>\<open>merge_rename\<close>: the effects it pushes.\<close>

definition merge_rename :: "green \<Rightarrow> path \<Rightarrow> ver \<Rightarrow> path \<Rightarrow> conflict_window + effect list" where
  "merge_rename g dst base from =
     (if from = dst then Inr []
      else if \<not> (bt_contains (g_content g) from \<or> bt_contains (g_symlinks g) from \<or> bt_contains (g_hardlinks g) from)
        then Inl (window dst RenameRename)
      else if occupied_by_nonfile g dst then Inl (window dst TypeChanged)
      else if changed_at (g_last_changed g) dst > base then Inl (window dst RenameRename)
      else Inr (case bt_get (g_content g) from of
          Some source \<Rightarrow> [SetContent dst source [insert_whole (length source)], RemoveContent from]
        | None \<Rightarrow>
            (case bt_get (g_symlinks g) from of
               Some target \<Rightarrow> [Symlink dst target, RemoveSymlink from]
             | None \<Rightarrow>
                 (case bt_get (g_hardlinks g) from of
                    Some target \<Rightarrow> [Hardlink dst target, RemoveHardlink from]
                  | None \<Rightarrow> []))))"

definition merge_create :: "green \<Rightarrow> path \<Rightarrow> byte list \<Rightarrow> conflict_window + effect option" where
  "merge_create g p bytes =
     (if occupied_by_nonfile g p then Inl (window p TypeChanged)
      else case bt_get (g_content g) p of
          Some current \<Rightarrow> if current = bytes then Inr None else Inl (window p CreateCreate)
        | None \<Rightarrow> Inr (Some (SetContent p bytes [insert_whole (length bytes)])))"

definition merge_unlink :: "green \<Rightarrow> path \<Rightarrow> ver \<Rightarrow> conflict_window + effect option" where
  "merge_unlink g p base =
     (if bt_contains (g_specials g) p then
        if changed_at (g_special_changed g) p > base \<or> changed_at (g_mode_changed g) p > base
           \<or> list_ex (\<lambda>((q, _), version). q = p \<and> version > base) (g_xattr_changed g)
           \<or> list_ex (\<lambda>target. target = p) (bt_values (g_hardlinks g))
        then Inl (window p DeleteModify)
        else Inr (Some (RemoveSpecial p))
      else if bt_contains (g_content g) p then
        if changed_at (g_last_changed g) p > base then Inl (window p DeleteModify)
        else Inr (Some (RemoveContent p))
      else if bt_contains (g_symlinks g) p then
        if changed_at (g_symlink_changed g) p > base then Inl (window p DeleteModify)
        else Inr (Some (RemoveSymlink p))
      else if bt_contains (g_hardlinks g) p then
        if changed_at (g_hardlink_changed g) p > base then Inl (window p DeleteModify)
        else Inr (Some (RemoveHardlink p))
      else Inr None)"

section \<open>Content\<close>

text \<open>
  Pass one of \<open>merge_content\<close>: the operations placed at their mapped positions, the overwrites that
  met an intervening change, and the range of the first other operation that met one.
\<close>

definition classify_op :: "op list list \<Rightarrow> op \<Rightarrow> op list \<times> op list \<times> range option \<Rightarrow> op list \<times> op list \<times> range option" where
  "classify_op between p st =
     (let (mapped, candidates, shifting) = st
      in case map_range between (touched_range p) of
           Shifted shifted \<Rightarrow> (mapped @ [p\<lparr>op_at := r_start shifted\<rparr>], candidates, shifting)
         | Overlaps \<Rightarrow>
             if op_kind p = KOverwrite then (mapped, candidates @ [p], shifting)
             else (mapped, candidates, Some (unwrap_or shifting (touched_range p))))"

definition classify_ops :: "op list list \<Rightarrow> op list \<Rightarrow> op list \<times> op list \<times> range option" where
  "classify_ops between ops = fold (classify_op between) ops ([], [], None)"

text \<open>Pass two on one candidate: whether the head already holds the bytes it declares.\<close>

definition identical_span :: "op list list \<Rightarrow> byte list \<Rightarrow> byte list \<Rightarrow> op \<Rightarrow> bool" where
  "identical_span between post current p =
     (let span = touched_range p;
          head_start = (case map_range between (range_new (r_start span) 0) of
              Shifted h \<Rightarrow> r_start h
            | Overlaps \<Rightarrow> r_start span);
          agent_bytes = span_bytes post (op_src p) (op_len p);
          end = sat_add head_start (length agent_bytes)
      in slice_get current head_start end = Some agent_bytes)"

text \<open>Both passes, once the intervening deltas are known.\<close>

definition judge_content ::
  "green \<Rightarrow> increment \<Rightarrow> path \<Rightarrow> op list \<Rightarrow> op list list \<Rightarrow> conflict_window list + effect option" where
  "judge_content g inc p ops between =
     (let current = unwrap_or (bt_get (g_content g) p) [];
          (mapped, candidates, shifting) = classify_ops between ops
      in case shifting of
           Some r \<Rightarrow>
             let base_bytes = unwrap_or (content_at g p (inc_base inc)) [];
                 agent_final = apply_ops base_bytes ops (inc_post inc)
             in if agent_final = current then Inr None
                else Inl [\<lparr>w_path = p, w_range = r, w_class = Overlap\<rparr>]
         | None \<Rightarrow>
             let differing = map (\<lambda>q. \<lparr>w_path = p, w_range = touched_range q, w_class = Overlap\<rparr>)
                   (filter (\<lambda>q. \<not> identical_span between (inc_post inc) current q) candidates)
             in if differing \<noteq> [] then Inl differing
                else if mapped = [] then Inr None
                else Inr (Some (SetContent p (apply_ops current mapped (inc_post inc)) mapped)))"

definition merge_content ::
  "increment \<Rightarrow> path \<Rightarrow> op list \<Rightarrow> green \<Rightarrow> (conflict_window list + effect option) \<times> green" where
  "merge_content inc p ops g =
     (if \<not> bt_contains (g_content g) p then
        (Inl [window p (if occupied_by_nonfile g p then TypeChanged else DeleteModify)], g)
      else
        let unchanged = changed_at (g_last_changed g) p \<le> inc_base inc;
            g' = (if unchanged then g\<lparr>g_fast_path_hits := sat_add (g_fast_path_hits g) 1\<rparr> else g);
            between = (if unchanged then [] else intervening g p (inc_base inc))
        in (judge_content g inc p ops between, g'))"

section \<open>Directories and metadata\<close>

definition merge_mkdir :: "green \<Rightarrow> path \<Rightarrow> conflict_window + effect option" where
  "merge_mkdir g p =
     (if bt_contains (g_content g) p \<or> bt_contains (g_symlinks g) p \<or> bt_contains (g_hardlinks g) p
         \<or> bt_contains (g_specials g) p then Inl (window p TypeChanged)
      else if bs_mem (g_dirs g) p then Inr None
      else Inr (Some (MakeDir p)))"

definition merge_rmdir :: "green \<Rightarrow> path \<Rightarrow> path btset \<Rightarrow> conflict_window + effect option" where
  "merge_rmdir g p gone =
     (if bt_contains (g_content g) p \<or> bt_contains (g_symlinks g) p \<or> bt_contains (g_hardlinks g) p
         \<or> bt_contains (g_specials g) p then Inl (window p TypeChanged)
      else if \<not> bs_mem (g_dirs g) p then Inr None
      else if has_live_child g (p @ ''/'') gone then Inl (window p DeleteModify)
      else Inr (Some (RemoveDir p)))"

definition special_kind_changed :: "green \<Rightarrow> path \<Rightarrow> ver \<Rightarrow> bool" where
  "special_kind_changed g p base =
     (let current = map_option sp_kind (bt_get (g_specials g) p)
      in if current = None \<and> \<not> bt_contains (g_content g) p \<and> \<not> bs_mem (g_dirs g) p
            \<and> \<not> bt_contains (g_symlinks g) p \<and> \<not> bt_contains (g_hardlinks g) p then False
         else map_option sp_kind (value_at (g_special_history g) base p) \<noteq> current)"

definition merge_setmode :: "green \<Rightarrow> path \<Rightarrow> ver \<Rightarrow> nat \<Rightarrow> bool \<Rightarrow> conflict_window + effect option" where
  "merge_setmode g p base md established =
     (if \<not> bt_contains (g_content g) p \<and> \<not> bs_mem (g_dirs g) p \<and> \<not> bt_contains (g_specials g) p
         \<and> \<not> established then Inl (window p DeleteModify)
      else if \<not> established \<and> special_kind_changed g p base then Inl (window p TypeChanged)
      else if changed_at (g_mode_changed g) p > base then
        if bt_get (g_modes g) p = Some md then Inr None else Inl (window p MetaMeta)
      else Inr (Some (Mode p md)))"

definition merge_symlink :: "green \<Rightarrow> path \<Rightarrow> ver \<Rightarrow> path \<Rightarrow> conflict_window + effect option" where
  "merge_symlink g p base target =
     (if bt_contains (g_content g) p \<or> bs_mem (g_dirs g) p \<or> bt_contains (g_hardlinks g) p
         \<or> bt_contains (g_specials g) p then Inl (window p TypeChanged)
      else if changed_at (g_symlink_changed g) p > base then
        if bt_get (g_symlinks g) p = Some target then Inr None else Inl (window p CreateCreate)
      else Inr (Some (Symlink p target)))"

definition merge_hardlink :: "green \<Rightarrow> path \<Rightarrow> ver \<Rightarrow> path \<Rightarrow> conflict_window + effect option" where
  "merge_hardlink g p base target =
     (if bt_contains (g_content g) p \<or> bs_mem (g_dirs g) p \<or> bt_contains (g_symlinks g) p
         \<or> bt_contains (g_specials g) p then Inl (window p TypeChanged)
      else if changed_at (g_hardlink_changed g) p > base then
        if bt_get (g_hardlinks g) p = Some target then Inr None else Inl (window p CreateCreate)
      else Inr (Some (Hardlink p target)))"

definition merge_set_xattr ::
  "green \<Rightarrow> path \<Rightarrow> path \<Rightarrow> ver \<Rightarrow> byte list \<Rightarrow> bool \<Rightarrow> conflict_window + effect option" where
  "merge_set_xattr g p name base val established =
     (if \<not> bt_contains (g_content g) p \<and> \<not> bs_mem (g_dirs g) p \<and> \<not> bt_contains (g_specials g) p
         \<and> \<not> established then Inl (window p DeleteModify)
      else if \<not> established \<and> special_kind_changed g p base then Inl (window p TypeChanged)
      else if changed_at (g_xattr_changed g) (p, name) > base then
        if bt_get (g_xattrs g) (p, name) = Some val then Inr None else Inl (window p MetaMeta)
      else Inr (Some (SetXattr p name val)))"

definition merge_remove_xattr :: "green \<Rightarrow> path \<Rightarrow> path \<Rightarrow> ver \<Rightarrow> conflict_window + effect option" where
  "merge_remove_xattr g p name base =
     (if special_kind_changed g p base then Inl (window p TypeChanged)
      else if \<not> bt_contains (g_xattrs g) (p, name) then Inr None
      else if changed_at (g_xattr_changed g) (p, name) > base then Inl (window p MetaMeta)
      else Inr (Some (RemoveXattr p name)))"

definition merge_special :: "green \<Rightarrow> path \<Rightarrow> ver \<Rightarrow> special_node \<Rightarrow> conflict_window + effect option" where
  "merge_special g p base node =
     (if bt_contains (g_content g) p \<or> bs_mem (g_dirs g) p \<or> bt_contains (g_symlinks g) p
         \<or> bt_contains (g_hardlinks g) p then Inl (window p TypeChanged)
      else
        let late = (if changed_at (g_special_changed g) p > base then Inl (window p CreateCreate)
                    else Inr (Some (Special p node)))
        in case bt_get (g_specials g) p of
             Some current \<Rightarrow>
               if sp_kind current \<noteq> sp_kind node then Inl (window p TypeChanged)
               else if current = node then Inr None
               else late
           | None \<Rightarrow> late)"

section \<open>The verdict\<close>

definition unfit_content :: "green \<Rightarrow> increment \<Rightarrow> resolved \<Rightarrow> path list" where
  "unfit_content g inc r =
     map fst (filter (\<lambda>(p, ops).
       let edited = unwrap_or (bt_get (rs_renames r) p) p;
           base_len = (if bs_mem (rs_creates r) p then 0
                       else case content_at g edited (inc_base inc) of None \<Rightarrow> 0 | Some bs \<Rightarrow> length bs)
       in \<not> fits_base ops base_len (length (inc_post inc))) (rs_content r))"

text \<open>The two vectors a verdict fills, and \<open>record\<close>, which files one merge result into them.\<close>

type_synonym findings = "effect list \<times> conflict_window list"

definition record_result :: "conflict_window + effect option \<Rightarrow> findings \<Rightarrow> findings" where
  "record_result result st =
     (let (effects, windows) = st
      in case result of
           Inr (Some e) \<Rightarrow> (effects @ [e], windows)
         | Inr None \<Rightarrow> (effects, windows)
         | Inl w \<Rightarrow> (effects, windows @ [w]))"

definition record_rename :: "conflict_window + effect list \<Rightarrow> findings \<Rightarrow> findings" where
  "record_rename result st =
     (let (effects, windows) = st
      in case result of
           Inr es \<Rightarrow> (effects @ es, windows)
         | Inl w \<Rightarrow> (effects, windows @ [w]))"

definition decide_edit :: "increment \<Rightarrow> resolved \<Rightarrow> path \<times> op list \<Rightarrow> findings \<times> green \<Rightarrow> findings \<times> green" where
  "decide_edit inc r e st =
     (let (p, ops) = e; ((effects, windows), g) = st
      in if bs_mem (rs_creates r) p \<or> bt_contains (rs_renames r) p then st
         else case merge_content inc p ops g of
             (Inr (Some f), g) \<Rightarrow> ((effects @ [f], windows), g)
           | (Inr None, g) \<Rightarrow> ((effects, windows), g)
           | (Inl found, g) \<Rightarrow> ((effects, windows @ found), g))"

definition decide_content :: "increment \<Rightarrow> resolved \<Rightarrow> findings \<times> green \<Rightarrow> findings \<times> green" where
  "decide_content inc r st =
     (let (acc, g) = st;
          acc = fold (\<lambda>(dst, from). record_rename (merge_rename g dst (inc_base inc) from)) (rs_renames r) acc;
          acc = fold (\<lambda>p. record_result (merge_create g p
                  (apply_ops [] (unwrap_or (bt_get (rs_content r) p) []) (inc_post inc)))) (rs_creates r) acc;
          acc = fold (\<lambda>p. record_result (merge_unlink g p (inc_base inc))) (rs_unlinks r) acc
      in fold (decide_edit inc r) (rs_content r) (acc, g))"

definition decide_directories :: "green \<Rightarrow> resolved \<Rightarrow> findings \<Rightarrow> findings" where
  "decide_directories g r acc =
     (let gone = cleared r;
          acc = fold (\<lambda>p. record_result (merge_mkdir g p)) (rs_mkdirs r) acc
      in fold (\<lambda>p. record_result (merge_rmdir g p gone)) (rs_rmdirs r) acc)"

definition decide_metadata :: "green \<Rightarrow> increment \<Rightarrow> resolved \<Rightarrow> findings \<Rightarrow> findings" where
  "decide_metadata g inc r acc =
     (let acc = fold (\<lambda>(p, md). record_result (merge_setmode g p (inc_base inc) md (establishes r p)))
                  (rs_modes r) acc;
          acc = fold (\<lambda>(p, t). record_result (merge_symlink g p (inc_base inc) t)) (rs_symlinks r) acc;
          acc = fold (\<lambda>(p, t). record_result (merge_hardlink g p (inc_base inc) t)) (rs_hardlinks r) acc;
          acc = fold (\<lambda>(p, n, v). record_result (merge_set_xattr g p n (inc_base inc) v (establishes r p)))
                  (rs_xattr_sets r) acc
      in fold (\<lambda>(p, n). record_result (merge_remove_xattr g p n (inc_base inc))) (rs_xattr_removes r) acc)"

definition decide :: "increment \<Rightarrow> resolved \<Rightarrow> green \<Rightarrow> (conflict_window list + effect list) \<times> green" where
  "decide inc r g =
     (let windows = map (\<lambda>p. window p TypeChanged) (rs_invalid r @ unfit_content g inc r);
          acc = fold (\<lambda>(p, node). record_result (merge_special g p (inc_base inc) node)) (rs_specials r) ([], windows);
          (acc, g) = decide_content inc r (acc, g);
          acc = decide_directories g r acc;
          (effects, windows) = decide_metadata g inc r acc
      in (if windows = [] then Inr effects else Inl windows, g))"

end
