(* ===== verification/Commit.thy ===== *)
theory Commit
  imports Merge
begin

text \<open>
  The writes of \<open>crates/merge/src/engine.rs\<close>: the accepted effects committed as the next version
  (content removals before content sets), the bounded cache of rejected results, and \<open>submit\<close>.
\<close>

section \<open>The commit\<close>

text \<open>\<open>size_of::<SpecialNode>()\<close>: four \<open>i64\<close>, two \<open>u32\<close> and the kind, padded to a multiple of eight.\<close>

definition special_node_bytes :: nat where
  "special_node_bytes = 48"

definition charge :: "nat \<Rightarrow> green \<Rightarrow> green" where
  "charge n g = g\<lparr>g_history_bytes := sat_add (g_history_bytes g) n\<rparr>"

definition mark :: "identity_key \<Rightarrow> green \<Rightarrow> green" where
  "mark k g = g\<lparr>g_identity_dirty := bs_insert k (g_identity_dirty g)\<rparr>"

definition commit_special :: "path \<Rightarrow> special_node \<Rightarrow> ver \<Rightarrow> green \<Rightarrow> green" where
  "commit_special p node v g =
     (let g = (if bt_contains (g_specials g) p then charge special_node_bytes g else g)
      in g\<lparr>g_specials := bt_insert p node (g_specials g),
           g_special_changed := bt_insert p v (g_special_changed g),
           g_special_history := bt_push p (v, Some node) (g_special_history g)\<rparr>)"

text \<open>The mode and each attribute of a removed inode go with it.\<close>

definition drop_mode :: "path \<Rightarrow> ver \<Rightarrow> green \<Rightarrow> green" where
  "drop_mode p v g =
     (if bt_contains (g_modes g) p then
        mark (IkMode p) (g\<lparr>g_modes := bt_remove p (g_modes g),
          g_mode_changed := bt_insert p v (g_mode_changed g),
          g_mode_history := bt_push p (v, None) (g_mode_history g)\<rparr>)
      else g)"

definition drop_xattr :: "ver \<Rightarrow> attr_key \<Rightarrow> green \<Rightarrow> green" where
  "drop_xattr v key g =
     mark (IkXattr (fst key) (snd key)) (g\<lparr>g_xattrs := bt_remove key (g_xattrs g),
       g_xattr_changed := bt_insert key v (g_xattr_changed g),
       g_xattr_history := bt_push key (v, None) (g_xattr_history g)\<rparr>)"

definition remove_special :: "path \<Rightarrow> ver \<Rightarrow> green \<Rightarrow> green" where
  "remove_special p v g =
     (let g = (if bt_contains (g_specials g) p then charge special_node_bytes g else g);
          g = g\<lparr>g_specials := bt_remove p (g_specials g),
                g_special_changed := bt_insert p v (g_special_changed g)\<rparr>;
          g = drop_mode p v g;
          attributes = filter (\<lambda>key. fst key = p) (bt_keys (g_xattrs g));
          g = fold (drop_xattr v) attributes g
      in g\<lparr>g_special_history := bt_push p (v, None) (g_special_history g)\<rparr>)"

text \<open>The effects that act at once; the two that stage content leave the green as it is.\<close>

fun commit_now :: "ver \<Rightarrow> effect \<Rightarrow> green \<Rightarrow> green" where
  "commit_now v (Special p node) g = commit_special p node v g"
| "commit_now v (RemoveSpecial p) g = remove_special p v g"
| "commit_now v (SetContent p bytes ops) g = g"
| "commit_now v (RemoveContent p) g = g"
| "commit_now v (MakeDir p) g =
     g\<lparr>g_dirs := bs_insert p (g_dirs g), g_dir_history := bt_push p (v, True) (g_dir_history g)\<rparr>"
| "commit_now v (RemoveDir p) g =
     g\<lparr>g_dirs := bs_remove p (g_dirs g), g_dir_history := bt_push p (v, False) (g_dir_history g)\<rparr>"
| "commit_now v (Mode p md) g =
     g\<lparr>g_modes := bt_insert p md (g_modes g), g_mode_changed := bt_insert p v (g_mode_changed g),
       g_mode_history := bt_push p (v, Some md) (g_mode_history g)\<rparr>"
| "commit_now v (Symlink p target) g =
     g\<lparr>g_symlinks := bt_insert p target (g_symlinks g),
       g_symlink_changed := bt_insert p v (g_symlink_changed g),
       g_symlink_history := bt_push p (v, Some target) (g_symlink_history g)\<rparr>"
| "commit_now v (RemoveSymlink p) g =
     g\<lparr>g_symlinks := bt_remove p (g_symlinks g),
       g_symlink_changed := bt_insert p v (g_symlink_changed g),
       g_symlink_history := bt_push p (v, None) (g_symlink_history g)\<rparr>"
| "commit_now v (Hardlink p target) g =
     g\<lparr>g_hardlinks := bt_insert p target (g_hardlinks g),
       g_hardlink_changed := bt_insert p v (g_hardlink_changed g),
       g_hardlink_history := bt_push p (v, Some target) (g_hardlink_history g)\<rparr>"
| "commit_now v (RemoveHardlink p) g =
     g\<lparr>g_hardlinks := bt_remove p (g_hardlinks g),
       g_hardlink_changed := bt_insert p v (g_hardlink_changed g),
       g_hardlink_history := bt_push p (v, None) (g_hardlink_history g)\<rparr>"
| "commit_now v (SetXattr p name val) g =
     g\<lparr>g_xattrs := bt_insert (p, name) val (g_xattrs g),
       g_xattr_changed := bt_insert (p, name) v (g_xattr_changed g),
       g_xattr_history := bt_push (p, name) (v, Some val) (g_xattr_history g)\<rparr>"
| "commit_now v (RemoveXattr p name) g =
     g\<lparr>g_xattrs := bt_remove (p, name) (g_xattrs g),
       g_xattr_changed := bt_insert (p, name) v (g_xattr_changed g),
       g_xattr_history := bt_push (p, name) (v, None) (g_xattr_history g)\<rparr>"

fun staged_remove :: "effect \<Rightarrow> path list" where
  "staged_remove (RemoveContent p) = [p]"
| "staged_remove _ = []"

fun staged_set :: "effect \<Rightarrow> (path \<times> byte list \<times> op list) list" where
  "staged_set (SetContent p bytes ops) = [(p, bytes, ops)]"
| "staged_set _ = []"

text \<open>One iteration of the first loop of \<open>commit\<close>, over the green and the two staging vectors.\<close>

definition commit_effect ::
  "ver \<Rightarrow> effect \<Rightarrow> green \<times> path list \<times> (path \<times> byte list \<times> op list) list \<Rightarrow>
   green \<times> path list \<times> (path \<times> byte list \<times> op list) list" where
  "commit_effect v e st =
     (let (g, removed, sets) = st
      in (commit_now v e (mark (effect_key e) g), removed @ staged_remove e, sets @ staged_set e))"

definition remove_content :: "ver \<Rightarrow> path \<Rightarrow> green \<Rightarrow> green" where
  "remove_content v p g =
     (let g = (case bt_get (g_content g) p of None \<Rightarrow> g | Some previous \<Rightarrow> charge (length previous) g)
      in g\<lparr>g_content := bt_remove p (g_content g),
           g_last_changed := bt_insert p v (g_last_changed g),
           g_content_history := bt_push p (v, None) (g_content_history g)\<rparr>)"

definition set_content :: "ver \<Rightarrow> path \<times> byte list \<times> op list \<Rightarrow> green \<Rightarrow> green" where
  "set_content v s g =
     (let (p, bytes, _) = s;
          g = (case bt_get (g_content g) p of None \<Rightarrow> g | Some previous \<Rightarrow> charge (length previous) g)
      in g\<lparr>g_content := bt_insert p bytes (g_content g),
           g_last_changed := bt_insert p v (g_last_changed g),
           g_content_history := bt_push p (v, Some bytes) (g_content_history g)\<rparr>)"

text \<open>\<open>delta.insert(path, ops)\<close> for every staged set, in order.\<close>

definition delta_of :: "(path \<times> byte list \<times> op list) list \<Rightarrow> (path, op list) btmap" where
  "delta_of sets = bt_of_list (map (\<lambda>(p, _, ops). (p, ops)) sets)"

definition commit :: "effect list \<Rightarrow> ver \<Rightarrow> green \<Rightarrow> green" where
  "commit effects v g =
     (let (g, removed, sets) = fold (commit_effect v) effects (g, [], []);
          g = fold (remove_content v) removed g;
          g = fold (set_content v) sets g
      in g\<lparr>g_deltas := g_deltas g @ [delta_of sets]\<rparr>)"

section \<open>The rejected-result cache\<close>

text \<open>\<open>size_of::<Range>()\<close> and \<open>size_of::<MergeConflictClass>()\<close>.\<close>

definition window_bytes :: "conflict_window \<Rightarrow> nat" where
  "window_bytes w = sat_add (sat_add (length (w_path w)) 16) 1"

definition rejected_entry_bytes :: "conflict_window list \<Rightarrow> nat" where
  "rejected_entry_bytes ws = foldl sat_add 32 (map window_bytes ws)"

text \<open>The removal of one evicted identity, the body both eviction loops share.\<close>

definition evict :: "identity32 \<Rightarrow> green \<Rightarrow> green" where
  "evict oldest g =
     (case bt_get (g_rejected g) oldest of
        None \<Rightarrow> g
      | Some evicted \<Rightarrow>
          g\<lparr>g_rejected := bt_remove oldest (g_rejected g),
            g_rejected_bytes := g_rejected_bytes g - rejected_entry_bytes evicted,
            g_rejected_evicted := sat_add (g_rejected_evicted g) 1\<rparr>)"

lemma evict_order [simp]: "g_rejected_order (evict k g) = g_rejected_order g"
  by (simp add: evict_def split: option.splits)

text \<open>\<open>while over(rejected_bytes) { let Some(oldest) = rejected_order.pop_front() else break; \<dots> }\<close>.\<close>

function evict_while :: "(nat \<Rightarrow> bool) \<Rightarrow> green \<Rightarrow> green" where
  "evict_while over g =
     (if over (g_rejected_bytes g) then
        (case g_rejected_order g of
           [] \<Rightarrow> g
         | oldest # rest \<Rightarrow> evict_while over (evict oldest (g\<lparr>g_rejected_order := rest\<rparr>)))
      else g)"
  by pat_completeness auto
termination
  by (relation "measure (\<lambda>(_, g). length (g_rejected_order g))") auto

declare evict_while.simps [simp del]

definition retain_rejected :: "identity32 \<Rightarrow> conflict_window list \<Rightarrow> green \<Rightarrow> green" where
  "retain_rejected ident ws g =
     (let needed = rejected_entry_bytes ws
      in if needed > g_rejected_budget g then g\<lparr>g_rejected_evicted := sat_add (g_rejected_evicted g) 1\<rparr>
         else
           let g = evict_while (\<lambda>bytes. sat_add bytes needed > g_rejected_budget g) g
           in g\<lparr>g_rejected := bt_insert ident ws (g_rejected g),
                g_rejected_order := g_rejected_order g @ [ident],
                g_rejected_bytes := sat_add (g_rejected_bytes g) needed\<rparr>)"

definition set_rejected_budget :: "nat \<Rightarrow> green \<Rightarrow> green" where
  "set_rejected_budget bytes g = evict_while (\<lambda>held. held > bytes) (g\<lparr>g_rejected_budget := bytes\<rparr>)"

definition forget_rejected :: "identity32 \<Rightarrow> green \<Rightarrow> nat \<times> green" where
  "forget_rejected ident g =
     (case bt_get (g_rejected g) ident of
        None \<Rightarrow> (0, g)
      | Some ws \<Rightarrow>
          let released = rejected_entry_bytes ws
          in (released, g\<lparr>g_rejected := bt_remove ident (g_rejected g),
                g_rejected_order := filter (\<lambda>kept. kept \<noteq> ident) (g_rejected_order g),
                g_rejected_bytes := g_rejected_bytes g - released,
                g_rejected_evicted := sat_add (g_rejected_evicted g) 1\<rparr>))"

definition rejected_cache :: "green \<Rightarrow> nat \<times> nat \<times> nat" where
  "rejected_cache g = (length (g_rejected g), g_rejected_bytes g, g_rejected_evicted g)"

section \<open>Submitting\<close>

definition submit :: "increment \<Rightarrow> green \<Rightarrow> outcome \<times> green" where
  "submit inc g =
     (case bt_get (g_accepted g) (inc_id inc) of
        Some v \<Rightarrow> (Accepted v, g)
      | None \<Rightarrow>
          (case bt_get (g_rejected g) (inc_id inc) of
             Some ws \<Rightarrow> (OutConflict ws, g)
           | None \<Rightarrow>
               (case decide inc (resolve inc) g of
                  (Inr effects, g) \<Rightarrow>
                    let v = sat_add (head g) 1; g = commit effects v g
                    in (Accepted v, g\<lparr>g_accepted := bt_insert (inc_id inc) v (g_accepted g)\<rparr>)
                | (Inl ws, g) \<Rightarrow> (OutConflict ws, retain_rejected (inc_id inc) ws g))))"

end
