(* ===== verification/Retention.thy ===== *)
theory Retention
  imports Commit
begin

text \<open>
  What a green keeps beyond its current state, and how it lets go of it
  (\<open>crates/merge/src/engine.rs\<close>): the reservation of an increment, the retained bytes as running
  totals and recounted from the histories, and folding the histories below a version.
\<close>

definition counts_path :: "opkind \<Rightarrow> bool" where
  "counts_path k \<longleftrightarrow> is_content k \<or> k \<in> {KCreate, KUnlink, KRename, KMknod}"

text \<open>The paths one operation of the document adds to the reservation's set.\<close>

definition reserved_paths :: "ops_doc \<Rightarrow> op \<Rightarrow> path list" where
  "reserved_paths doc p =
     (if counts_path (op_kind p) then opt_list (path_at (doc_paths doc) (op_path p)) else [])
     @ (if op_kind p = KRename \<and> op_src p \<le> u16_max then opt_list (path_at (doc_paths doc) (op_src p)) else [])"

definition history_reservation :: "green \<Rightarrow> increment \<Rightarrow> nat" where
  "history_reservation g inc =
     (if bt_contains (g_accepted g) (inc_id inc) then 0
      else
        let paths = bs_extend (concat (map (reserved_paths (inc_doc inc)) (doc_ops (inc_doc inc)))) []
        in foldl (\<lambda>total p.
             sat_add (sat_add total (case bt_get (g_content g) p of None \<Rightarrow> 0 | Some bs \<Rightarrow> length bs))
               (if bt_contains (g_specials g) p then special_node_bytes else 0)) 0 paths)"

definition retention_charge :: "green \<Rightarrow> nat" where
  "retention_charge g = sat_add (g_history_bytes g) (g_rejected_bytes g)"

record retained =
  rb_content :: nat
  rb_history :: nat
  rb_rejected :: nat

definition retained_bytes :: "green \<Rightarrow> retained" where
  "retained_bytes g =
     \<lparr>rb_content = sat_add (wrap_sum (map length (bt_values (g_content g))))
        (sat_mul (length (g_specials g)) special_node_bytes),
      rb_history = g_history_bytes g, rb_rejected = g_rejected_bytes g\<rparr>"

text \<open>\<open>history.iter().rev().skip(1)\<close>: every entry but the last, the newest first.\<close>

definition superseded :: "'a history \<Rightarrow> 'a history" where
  "superseded h = drop 1 (rev h)"

definition history_bytes_recounted :: "green \<Rightarrow> nat" where
  "history_bytes_recounted g =
     (let special_bytes = wrap_sum (map (\<lambda>h.
            sat_mul (length (filter (\<lambda>e. snd e \<noteq> None) (superseded h))) special_node_bytes)
            (bt_values (g_special_history g)))
      in sat_add special_bytes (wrap_sum (map (\<lambda>h.
            wrap_sum (map (\<lambda>e. case snd e of None \<Rightarrow> 0 | Some bs \<Rightarrow> length bs) (superseded h)))
            (bt_values (g_content_history g)))))"

section \<open>Folding\<close>

definition content_cost :: "byte list option \<Rightarrow> nat" where
  "content_cost x = (case x of None \<Rightarrow> 0 | Some bs \<Rightarrow> length bs)"

definition special_cost :: "special_node option \<Rightarrow> nat" where
  "special_cost x = (if x \<noteq> None then special_node_bytes else 0)"

text \<open>The bytes one loop over a table's histories releases, added to what was released before.\<close>

definition fold_released :: "('k, 'a history) btmap \<Rightarrow> ver \<Rightarrow> ('a \<Rightarrow> nat) \<Rightarrow> nat \<Rightarrow> nat" where
  "fold_released hs floor cost released =
     foldl (\<lambda>r e. sat_add r (snd (fold_entries (snd e) floor cost))) released hs"

definition fold_history_before :: "xof \<Rightarrow> ver \<Rightarrow> green \<Rightarrow> nat \<times> green" where
  "fold_history_before xof floor g =
     (if floor \<le> g_folded_below g then (0, g)
      else
        let g = (if g_identity_version g < floor then fold_identity xof g else g);
            released = fold_released (g_content_history g) floor content_cost 0;
            released = fold_released (g_special_history g) floor special_cost released
        in (released,
            g\<lparr>g_folded_below := floor,
              g_content_history := fold_table (g_content_history g) floor,
              g_special_history := fold_table (g_special_history g) floor,
              g_mode_history := fold_table (g_mode_history g) floor,
              g_symlink_history := fold_table (g_symlink_history g) floor,
              g_hardlink_history := fold_table (g_hardlink_history g) floor,
              g_xattr_history := fold_table (g_xattr_history g) floor,
              g_dir_history := fold_table (g_dir_history g) floor,
              g_history_bytes := g_history_bytes g - released\<rparr>))"

lemma folded_below_after: "g_folded_below (snd (fold_history_before xof floor g)) = max floor (g_folded_below g)"
  by (simp add: fold_history_before_def fold_identity_def Let_def)

text \<open>
  The loop of \<open>fold_history_to_budget\<close>. A floor is a \<open>u64\<close>, so the second half of the guard, which
  a floor above the range of the type would need to end the loop, is the first one's consequence.
\<close>

function fold_budget_loop :: "xof \<Rightarrow> ver \<Rightarrow> nat \<Rightarrow> nat \<Rightarrow> green \<Rightarrow> nat \<times> green" where
  "fold_budget_loop xof reachable budget released g =
     (if g_history_bytes g > budget \<and> g_folded_below g < min reachable u64_max then
        let next = sat_add (g_folded_below g) 1;
            (n, g') = fold_history_before xof next g
        in fold_budget_loop xof reachable budget (sat_add released n) g'
      else (released, g))"
  by pat_completeness auto
termination
proof (relation "measure (\<lambda>(_, reachable, _, _, g). min reachable u64_max - g_folded_below g)")
  fix xof :: xof and reachable budget released n and g g' :: green and up p
  assume "budget < g_history_bytes g \<and> g_folded_below g < min reachable u64_max"
    "up = sat_add (g_folded_below g) 1" "p = fold_history_before xof up g" "(n, g') = p"
  then show "((xof, reachable, budget, sat_add released n, g'), xof, reachable, budget, released, g)
      \<in> measure (\<lambda>(_, reachable, _, _, g). min reachable u64_max - g_folded_below g)"
    using folded_below_after [of xof up g] by (auto simp: sat_add_small dest: arg_cong [of _ _ snd])
qed simp

declare fold_budget_loop.simps [simp del]

definition fold_history_to_budget :: "xof \<Rightarrow> ver \<Rightarrow> nat \<Rightarrow> green \<Rightarrow> nat \<times> green" where
  "fold_history_to_budget xof reachable budget g = fold_budget_loop xof reachable budget 0 g"

end
