(* ===== verification/Rebase.thy ===== *)
theory Rebase
  imports Commit
begin

text \<open>
  \<open>Green::rebase\<close> (\<open>crates/merge/src/engine.rs\<close>): the verdict \<open>submit\<close> would give, with nothing
  committed; the accepted effects restated as the work's changes over the head and its journal.
\<close>

datatype rebased =
    Rebased ver "(path, byte list option) btmap" "volume_op list"
  | RebaseConflict "conflict_window list"

definition content_volume_op :: "path \<Rightarrow> op \<Rightarrow> volume_op option" where
  "content_volume_op p q =
     (case op_kind q of
        KOverwrite \<Rightarrow> Some (VOverwrite p (op_at q) (op_len q))
      | KInsert \<Rightarrow> Some (VInsert p (op_at q) (op_len q))
      | KExtend \<Rightarrow> Some (VExtend p (op_at q) (op_len q))
      | KDelete \<Rightarrow> Some (VDelete p (op_at q) (op_len q))
      | KTruncate \<Rightarrow> Some (VTruncate p (op_len q))
      | _ \<Rightarrow> None)"

text \<open>The operations one effect adds to the journal.\<close>

fun restate :: "green \<Rightarrow> effect \<Rightarrow> volume_op list" where
  "restate g (Special p node) =
     (if bt_contains (g_specials g) p then [VUnlink p] else [])
     @ [VMknod p node (unwrap_or (mode g p) 0)]"
| "restate g (RemoveSpecial p) = [VUnlink p]"
| "restate g (SetContent p bytes ops) =
     (if bt_contains (g_content g) p then [] else [VCreate p]) @ List.map_filter (content_volume_op p) ops"
| "restate g (RemoveContent p) = [VUnlink p]"
| "restate g (MakeDir p) = [VMkdir p]"
| "restate g (RemoveDir p) = [VRmdir p]"
| "restate g (Mode p md) = [VSetMode p md]"
| "restate g (Symlink p target) = [VSymlink p target]"
| "restate g (RemoveSymlink p) = [VUnlink p]"
| "restate g (RemoveHardlink p) = [VUnlink p]"
| "restate g (Hardlink p target) = [VLink p target]"
| "restate g (SetXattr p name val) = [VSetXattr p name val]"
| "restate g (RemoveXattr p name) = [VRemoveXattr p name]"

fun rebase_change :: "effect \<Rightarrow> (path, byte list option) btmap \<Rightarrow> (path, byte list option) btmap" where
  "rebase_change (SetContent p bytes _) changed = bt_insert p (Some bytes) changed"
| "rebase_change (RemoveContent p) changed = bt_insert p None changed"
| "rebase_change _ changed = changed"

definition rebased_from :: "green \<Rightarrow> effect list \<Rightarrow> ver \<Rightarrow> rebased" where
  "rebased_from g effects to =
     (let changed = fold rebase_change effects [];
          journal = concat (map (restate g) effects);
          changed = filter (\<lambda>(p, after). after \<noteq> bt_get (g_content g) p) changed
      in Rebased to changed journal)"

definition rebase :: "increment \<Rightarrow> green \<Rightarrow> rebased \<times> green" where
  "rebase inc g =
     (let to = head g;
          resolved = resolve inc;
          before = g_fast_path_hits g;
          (decision, g) = decide inc resolved g;
          g = g\<lparr>g_fast_path_hits := before\<rparr>
      in case decision of
           Inl ws \<Rightarrow> (RebaseConflict ws, g)
         | Inr effects \<Rightarrow> (rebased_from g effects to, g))"

end
