(* ===== verification/Entities.thy ===== *)
theory Entities
  imports Volume_Ops
begin

text \<open>
  The replay of \<open>crates/merge/src/increment.rs\<close>: each file of the work volume as an entity that
  carries where it came from, the content operations declared against it and where it is now; and
  one function per namespace operation on the set of them.
\<close>

text \<open>A \<open>for\<close> loop whose body may return early with an error.\<close>

fun try_fold :: "('a \<Rightarrow> 's \<Rightarrow> 'e + 's) \<Rightarrow> 'a list \<Rightarrow> 's \<Rightarrow> 'e + 's" where
  "try_fold f [] s = Inr s"
| "try_fold f (x # xs) s = rbind (f x s) (try_fold f xs)"

record entity =
  en_origin :: "path option"
  en_base_len :: nat
  en_content :: "content_op list"
  en_live :: bool
  en_final :: path
  en_clobbered :: bool

definition live_index :: "entity list \<Rightarrow> path \<Rightarrow> nat option" where
  "live_index es p = position (\<lambda>e. en_live e \<and> en_final e = p) es"

definition consumed :: "entity list \<Rightarrow> path \<Rightarrow> bool" where
  "consumed es p \<longleftrightarrow> list_ex (\<lambda>e. en_origin e = Some p) es"

definition materialize_base :: "entity list \<Rightarrow> base \<Rightarrow> path \<Rightarrow> (nat \<times> entity list) option" where
  "materialize_base es b p =
     (if consumed es p then None
      else case base_len_of b p of
          None \<Rightarrow> None
        | Some len \<Rightarrow>
            Some (length es, es @ [\<lparr>en_origin = Some p, en_base_len = len, en_content = [],
              en_live = True, en_final = p, en_clobbered = False\<rparr>]))"

text \<open>\<open>live_index(\<dots>).or_else(|| materialize_base(\<dots>)).ok_or_else(error)\<close>.\<close>

definition live_or_base :: "entity list \<Rightarrow> base \<Rightarrow> path \<Rightarrow> derive_error \<Rightarrow> derive_error + nat \<times> entity list" where
  "live_or_base es b p err =
     (case live_index es p of
        Some i \<Rightarrow> Inr (i, es)
      | None \<Rightarrow> ok_or (materialize_base es b p) err)"

definition apply_create :: "base \<Rightarrow> path \<Rightarrow> entity list \<Rightarrow> derive_error + entity list" where
  "apply_create b p es =
     (if live_index es p \<noteq> None then Inl (CreateOverExisting p)
      else case position (\<lambda>e. \<not> en_live e \<and> \<not> en_clobbered e \<and> en_final e = p \<and> en_origin e = Some p) es of
          Some i \<Rightarrow>
            Inr (es[i := (es ! i)\<lparr>en_clobbered := True\<rparr>] @
              [\<lparr>en_origin = Some p, en_base_len = en_base_len (es ! i), en_content = [CTruncate 0],
                en_live = True, en_final = p, en_clobbered = False\<rparr>])
        | None \<Rightarrow>
            if base_len_of b p \<noteq> None then
              if consumed es p then Inl (Unsupported p) else Inl (CreateOverExisting p)
            else
              Inr (es @ [\<lparr>en_origin = None, en_base_len = 0, en_content = [], en_live = True,
                en_final = p, en_clobbered = False\<rparr>]))"

definition apply_unlink :: "base \<Rightarrow> path \<Rightarrow> entity list \<Rightarrow> derive_error + entity list" where
  "apply_unlink b p es =
     rbind (live_or_base es b p (UnlinkMissing p)) (\<lambda>(i, es).
     rbind (ok_or (list_get es i) (UnlinkMissing p)) (\<lambda>e.
     Inr (es[i := e\<lparr>en_live := False, en_content := []\<rparr>])))"

definition resolve_rename_target :: "base \<Rightarrow> path \<Rightarrow> entity list \<Rightarrow> derive_error + nat option \<times> entity list" where
  "resolve_rename_target b to es =
     (case live_index es to of
        Some i \<Rightarrow> Inr (Some i, es)
      | None \<Rightarrow>
          if base_len_of b to \<noteq> None then
            if consumed es to then Inl (Unsupported to)
            else case materialize_base es b to of
                Some (i, es) \<Rightarrow> Inr (Some i, es)
              | None \<Rightarrow> Inr (None, es)
          else Inr (None, es))"

text \<open>The block that replaces what a rename finds at its destination.\<close>

definition clobber :: "path \<Rightarrow> path \<Rightarrow> nat \<Rightarrow> nat \<Rightarrow> entity list \<Rightarrow> derive_error + entity list" where
  "clobber from to source dst es =
     rbind (ok_or (list_get es dst) (RenameMissingSource from)) (\<lambda>d.
     let es = es[dst := d\<lparr>en_live := False, en_clobbered := True\<rparr>];
         dst_at_own_base = (en_origin d = Some to)
     in rbind (ok_or (list_get es source) (RenameMissingSource from)) (\<lambda>moved.
        Inr (if dst_at_own_base \<and> en_origin moved = None
             then es[source := moved\<lparr>en_origin := Some to, en_base_len := en_base_len d,
               en_content := CTruncate 0 # en_content moved\<rparr>]
             else es)))"

definition apply_rename :: "base \<Rightarrow> path \<Rightarrow> path \<Rightarrow> entity list \<Rightarrow> derive_error + entity list" where
  "apply_rename b from to es =
     (if from = to then Inr es
      else
        rbind (live_or_base es b from (RenameMissingSource from)) (\<lambda>(source, es).
        rbind (resolve_rename_target b to es) (\<lambda>(destination, es).
        rbind (case destination of None \<Rightarrow> Inr es | Some dst \<Rightarrow> clobber from to source dst es) (\<lambda>es.
        rbind (ok_or (list_get es source) (RenameMissingSource from)) (\<lambda>moved.
        Inr (es[source := moved\<lparr>en_final := to\<rparr>]))))))"

definition apply_volume_op :: "base \<Rightarrow> volume_op \<Rightarrow> entity list \<Rightarrow> derive_error + entity list" where
  "apply_volume_op b p es =
     (case vop_content p of
        Some c \<Rightarrow>
          let q = unwrap_or (single_path p) ''''
          in rbind (live_or_base es b q (ContentOnMissing q)) (\<lambda>(i, es).
             rbind (ok_or (list_get es i) (ContentOnMissing q)) (\<lambda>e.
             Inr (es[i := e\<lparr>en_content := en_content e @ [c]\<rparr>])))
      | None \<Rightarrow>
          (case p of
             VCreate q \<Rightarrow> apply_create b q es
           | VUnlink q \<Rightarrow> apply_unlink b q es
           | VRename from to \<Rightarrow> apply_rename b from to es
           | _ \<Rightarrow> Inr es))"

end
