(* ===== verification/Deriver.thy ===== *)
theory Deriver
  imports Entities Ordered_Maps
begin

text \<open>
  The composition of \<open>crates/merge/src/increment.rs\<close> and the IPC half of
  \<open>crates/merge/src/special.rs\<close>: the journal of a work volume composed per dimension against the
  base, and \<open>compose_volume\<close>, which refuses a journal with a typed error or seals one ops document.
\<close>

section \<open>IPC inodes\<close>

record special_composition =
  sc_paths :: "path btset"
  sc_survivors :: "path btset"
  sc_changes :: "(path, special_node option) btmap"

fun special_step :: "base \<Rightarrow> path btset \<Rightarrow> volume_op \<Rightarrow> (path, special_node) btmap \<Rightarrow>
    derive_error + (path, special_node) btmap" where
  "special_step b paths (VMknod p node _) present =
     (if bt_contains present p then Inl (CreateOverExisting p) else Inr (bt_insert p node present))"
| "special_step b paths (VUnlink p) present =
     (if bs_mem paths p then
        if list_ex (\<lambda>(_, target). target = p) (b_hardlinks b) then Inl (Unsupported p)
        else if \<not> bt_contains present p then Inl (UnlinkMissing p)
        else Inr (bt_remove p present)
      else Inr present)"
| "special_step b paths _ present = Inr present"

fun mknod_path :: "volume_op \<Rightarrow> path option" where
  "mknod_path (VMknod p _ _) = Some p"
| "mknod_path _ = None"

definition special_composition_of :: "base \<Rightarrow> volume_op list \<Rightarrow> derive_error + special_composition" where
  "special_composition_of b journal =
     (let initial = bt_of_list (b_specials b);
          paths = bs_extend (List.map_filter mknod_path journal) (bt_keys initial)
      in rbind (try_fold (special_step b paths) journal initial) (\<lambda>present.
         Inr \<lparr>sc_paths = paths, sc_survivors = bt_keys present,
              sc_changes = List.map_filter (\<lambda>p. let v = bt_get present p
                in if v \<noteq> bt_get initial p then Some (p, v) else None) paths\<rparr>))"

text \<open>One iteration of the loop of \<open>emit\<close>, over the document and the next payload's offset.\<close>

definition emit_special :: "path \<times> special_node option \<Rightarrow> ops_doc \<times> nat \<Rightarrow> ops_doc \<times> nat" where
  "emit_special e st =
     (let (doc, offset) = st;
          (i, paths) = intern (fst e) (doc_paths doc);
          (kind, len, src, offset) =
            (if snd e \<noteq> None then (KMknod, encoded_bytes, offset, sat_add offset encoded_bytes)
             else (KUnlink, 0, u64_max, offset))
      in (\<lparr>doc_paths = paths, doc_ops = doc_ops doc @
            [\<lparr>op_kind = kind, op_flags = 0, op_path = i, op_at = 0, op_len = len, op_src = src\<rparr>]\<rparr>, offset))"

definition emit_specials :: "special_composition \<Rightarrow> ops_doc \<Rightarrow> ops_doc" where
  "emit_specials c doc =
     (let offset = fold max (map (\<lambda>p. sat_add (op_src p) (op_len p))
            (filter (\<lambda>p. op_kind p \<in> {KOverwrite, KInsert, KExtend, KSetXattr}) (doc_ops doc))) 0;
          (doc, _) = fold emit_special (sc_changes c) (doc, offset)
      in canonicalize doc)"

section \<open>Directories, modes, attributes\<close>

fun present_step :: "volume_op \<Rightarrow> path btset \<Rightarrow> path btset" where
  "present_step (VMkdir p) s = bs_insert p s"
| "present_step (VRmdir p) s = bs_remove p s"
| "present_step _ s = s"

definition present_directories :: "base \<Rightarrow> volume_op list \<Rightarrow> path btset" where
  "present_directories b journal = fold present_step journal (bs_extend (b_dirs b) [])"

fun mode_step :: "path btset \<Rightarrow> volume_op \<Rightarrow> (path, nat) btmap \<Rightarrow> (path, nat) btmap" where
  "mode_step survivors (VSetMode p m) final = bt_insert p m final"
| "mode_step survivors (VMknod p _ m) final = (if bs_mem survivors p then bt_insert p m final else final)"
| "mode_step survivors _ final = final"

definition compose_modes ::
  "base \<Rightarrow> volume_op list \<Rightarrow> path btset \<Rightarrow> path btset \<Rightarrow> path btset \<Rightarrow> derive_error + (path \<times> nat) list" where
  "compose_modes b journal survivors renamed_away present_dirs =
     try_fold (\<lambda>(p, m) emissions.
       if bs_mem renamed_away p then Inl (Unsupported p)
       else if \<not> bs_mem survivors p \<and> \<not> bs_mem present_dirs p then Inl (SetModeMissing p)
       else Inr (if base_mode_of b p \<noteq> Some m then emissions @ [(p, m)] else emissions))
       (fold (mode_step survivors) journal []) []"

datatype xattr_emission = XSet path path "byte list" | XRemoved path path

fun xattr_step :: "volume_op \<Rightarrow> (path \<times> path, byte list option) btmap \<Rightarrow> (path \<times> path, byte list option) btmap" where
  "xattr_step (VSetXattr p n v) state = bt_insert (p, n) (Some v) state"
| "xattr_step (VRemoveXattr p n) state = bt_insert (p, n) None state"
| "xattr_step _ state = state"

definition compose_xattrs ::
  "base \<Rightarrow> volume_op list \<Rightarrow> path btset \<Rightarrow> path btset \<Rightarrow> path btset \<Rightarrow> derive_error + xattr_emission list" where
  "compose_xattrs b journal survivors renamed_away present_dirs =
     try_fold (\<lambda>((p, n), final_value) emissions.
       if bs_mem renamed_away p then Inl (Unsupported p)
       else if \<not> bs_mem survivors p \<and> \<not> bs_mem present_dirs p then Inl (XattrMissing p)
       else Inr (case final_value of
           Some v \<Rightarrow> if base_xattr b p n \<noteq> Some v then emissions @ [XSet p n v] else emissions
         | None \<Rightarrow> if base_xattr b p n \<noteq> None then emissions @ [XRemoved p n] else emissions))
       (fold xattr_step journal []) []"

datatype directory_emission = DirMade path | DirRemoved path

definition base_is_dir :: "base \<Rightarrow> path \<Rightarrow> bool" where
  "base_is_dir b p \<longleftrightarrow> list_ex (\<lambda>d. d = p) (b_dirs b)"

fun directory_step :: "base \<Rightarrow> volume_op \<Rightarrow> (path, bool) btmap \<Rightarrow> derive_error + (path, bool) btmap" where
  "directory_step b (VMkdir p) present =
     (if unwrap_or (bt_get present p) (base_is_dir b p) then Inl (MkdirOverExisting p)
      else Inr (bt_insert p True present))"
| "directory_step b (VRmdir p) present =
     (if \<not> unwrap_or (bt_get present p) (base_is_dir b p) then Inl (RmdirMissing p)
      else Inr (bt_insert p False present))"
| "directory_step b _ present = Inr present"

definition compose_directories :: "base \<Rightarrow> volume_op list \<Rightarrow> derive_error + directory_emission list" where
  "compose_directories b journal =
     rbind (try_fold (directory_step b) journal []) (\<lambda>present.
     Inr (List.map_filter (\<lambda>(p, here).
       if here \<and> \<not> base_is_dir b p then Some (DirMade p)
       else if \<not> here \<and> base_is_dir b p then Some (DirRemoved p)
       else None) present))"

section \<open>Links\<close>

text \<open>The closure \<open>initial\<close>: whether a link is present at base, and its target.\<close>

definition link_initial :: "path option \<Rightarrow> bool \<times> path" where
  "link_initial target = (case target of Some t \<Rightarrow> (True, t) | None \<Rightarrow> (False, ''''))"

datatype symlink_emission = SymMade path path | SymRemoved path

fun symlink_path :: "volume_op \<Rightarrow> path option" where
  "symlink_path (VSymlink p _) = Some p"
| "symlink_path _ = None"

definition symlink_paths :: "base \<Rightarrow> volume_op list \<Rightarrow> path btset" where
  "symlink_paths b journal = bs_extend (List.map_filter symlink_path journal) (bs_extend (map fst (b_symlinks b)) [])"

fun symlink_step :: "base \<Rightarrow> path btset \<Rightarrow> volume_op \<Rightarrow> (path, bool \<times> path) btmap \<Rightarrow>
    derive_error + (path, bool \<times> path) btmap" where
  "symlink_step b paths (VSymlink p t) state =
     (let here = unwrap_or (bt_get state p) (link_initial (base_symlink_target b p))
      in if fst here then Inl (SymlinkOverExisting p) else Inr (bt_insert p (True, t) state))"
| "symlink_step b paths (VUnlink p) state =
     (if bs_mem paths p then
        let here = unwrap_or (bt_get state p) (link_initial (base_symlink_target b p))
        in if \<not> fst here then Inl (UnlinkMissing p) else Inr (bt_insert p (False, snd here) state)
      else Inr state)"
| "symlink_step b paths _ state = Inr state"

definition compose_symlinks :: "base \<Rightarrow> volume_op list \<Rightarrow> path btset \<Rightarrow> derive_error + symlink_emission list" where
  "compose_symlinks b journal paths =
     rbind (try_fold (symlink_step b paths) journal []) (\<lambda>state.
     Inr (List.map_filter (\<lambda>(p, here, target).
       let base_target = base_symlink_target b p
       in if here then (if base_target \<noteq> Some target then Some (SymMade p target) else None)
          else if base_target \<noteq> None then Some (SymRemoved p)
          else None) state))"

datatype link_emission = LinkMade path path | LinkRemoved path

fun link_path :: "volume_op \<Rightarrow> path option" where
  "link_path (VLink p _) = Some p"
| "link_path _ = None"

definition hardlink_paths :: "base \<Rightarrow> volume_op list \<Rightarrow> path btset" where
  "hardlink_paths b journal = bs_extend (List.map_filter link_path journal) (bs_extend (map fst (b_hardlinks b)) [])"

fun hardlink_step :: "base \<Rightarrow> path btset \<Rightarrow> volume_op \<Rightarrow> (path, bool \<times> path) btmap \<Rightarrow>
    derive_error + (path, bool \<times> path) btmap" where
  "hardlink_step b paths (VLink p t) state =
     (let here = unwrap_or (bt_get state p) (link_initial (base_hardlink_target b p))
      in if fst here then Inl (LinkOverExisting p) else Inr (bt_insert p (True, t) state))"
| "hardlink_step b paths (VUnlink p) state =
     (if bs_mem paths p then
        let here = unwrap_or (bt_get state p) (link_initial (base_hardlink_target b p))
        in if \<not> fst here then Inl (UnlinkMissing p) else Inr (bt_insert p (False, snd here) state)
      else Inr state)"
| "hardlink_step b paths _ state = Inr state"

definition compose_hardlinks :: "base \<Rightarrow> volume_op list \<Rightarrow> path btset \<Rightarrow> derive_error + link_emission list" where
  "compose_hardlinks b journal paths =
     rbind (try_fold (hardlink_step b paths) journal []) (\<lambda>state.
     Inr (List.map_filter (\<lambda>(p, here, target).
       let base_target = base_hardlink_target b p
       in if here then (if base_target \<noteq> Some target then Some (LinkMade p target) else None)
          else if base_target \<noteq> None then Some (LinkRemoved p)
          else None) state))"

section \<open>Kinds that collide\<close>

text \<open>The four sets of paths the journal uses as a file, a directory, a symlink, a hard link.\<close>

record intents =
  it_files :: "path btset"
  it_dirs :: "path btset"
  it_syms :: "path btset"
  it_links :: "path btset"

fun intent_step :: "(path \<Rightarrow> bool) \<Rightarrow> volume_op \<Rightarrow> intents \<Rightarrow> intents" where
  "intent_step skip (VMkdir p) s = s\<lparr>it_dirs := bs_insert p (it_dirs s)\<rparr>"
| "intent_step skip (VRmdir p) s = s\<lparr>it_dirs := bs_insert p (it_dirs s)\<rparr>"
| "intent_step skip (VSymlink p _) s = s\<lparr>it_syms := bs_insert p (it_syms s)\<rparr>"
| "intent_step skip (VLink p _) s = s\<lparr>it_links := bs_insert p (it_links s)\<rparr>"
| "intent_step skip (VRename f t) s = s\<lparr>it_files := bs_insert t (bs_insert f (it_files s))\<rparr>"
| "intent_step skip (VUnlink p) s = (if skip p then s else s\<lparr>it_files := bs_insert p (it_files s)\<rparr>)"
| "intent_step skip other s =
     (case single_path other of None \<Rightarrow> s | Some p \<Rightarrow> s\<lparr>it_files := bs_insert p (it_files s)\<rparr>)"

text \<open>\<open>for path in paths { if bad(path) { return Err(error(path)); } }\<close>.\<close>

definition refuse_any :: "(path \<Rightarrow> bool) \<Rightarrow> (path \<Rightarrow> derive_error) \<Rightarrow> path list \<Rightarrow> derive_error + unit" where
  "refuse_any bad err paths = (case find bad paths of None \<Rightarrow> Inr () | Some p \<Rightarrow> Inl (err p))"

definition check_no_file_directory_collision :: "base \<Rightarrow> volume_op list \<Rightarrow> derive_error + unit" where
  "check_no_file_directory_collision b journal =
     (let sym_paths = symlink_paths b journal;
          link_paths = hardlink_paths b journal
      in rbind (special_composition_of b journal) (\<lambda>specials.
         let skip = (\<lambda>p. bs_mem sym_paths p \<or> bs_mem link_paths p \<or> bs_mem (sc_paths specials) p);
             s = fold (intent_step skip) journal \<lparr>it_files = [], it_dirs = [], it_syms = [], it_links = []\<rparr>;
             in_files = bs_mem (it_files s); in_dirs = bs_mem (it_dirs s);
             in_syms = bs_mem (it_syms s); in_links = bs_mem (it_links s);
             base_file = (\<lambda>p. list_ex (\<lambda>e. fst e = p) (b_files b));
             base_dir = base_is_dir b;
             base_sym = (\<lambda>p. list_ex (\<lambda>e. fst e = p) (b_symlinks b));
             base_link = (\<lambda>p. list_ex (\<lambda>e. fst e = p) (b_hardlinks b))
         in rbind (refuse_any (\<lambda>p. in_files p \<or> in_dirs p \<or> in_syms p \<or> in_links p
                     \<or> base_file p \<or> base_dir p \<or> base_sym p \<or> base_link p) PathKindConflict (sc_paths specials)) (\<lambda>_.
            rbind (refuse_any (\<lambda>p. in_dirs p \<or> base_dir p \<or> base_sym p \<or> base_link p)
                     PathIsFileAndDirectory (it_files s)) (\<lambda>_.
            rbind (refuse_any (\<lambda>p. in_files p \<or> base_file p \<or> base_sym p)
                     PathIsFileAndDirectory (it_dirs s)) (\<lambda>_.
            rbind (refuse_any (\<lambda>p. in_files p \<or> in_dirs p \<or> in_links p \<or> base_file p \<or> base_dir p \<or> base_link p)
                     PathKindConflict (it_syms s)) (\<lambda>_.
            refuse_any (\<lambda>p. in_files p \<or> in_dirs p \<or> base_file p \<or> base_dir p \<or> base_sym p)
                     PathKindConflict (it_links s)))))))"

end
