(* ===== verification/Seal.thy ===== *)
theory Seal
  imports Deriver
begin

text \<open>
  The second half of \<open>crates/merge/src/increment.rs\<close>: the sealed entities classified into emissions
  and removals, the path table of the document, the post-state regions, and \<open>compose_volume\<close>.
\<close>

section \<open>The operation records\<close>

definition set_xattr_op :: "nat \<Rightarrow> nat \<Rightarrow> nat \<Rightarrow> nat \<Rightarrow> op" where
  "set_xattr_op p name offset len =
     \<lparr>op_kind = KSetXattr, op_flags = 0, op_path = p, op_at = name, op_len = len, op_src = offset\<rparr>"

definition remove_xattr_op :: "nat \<Rightarrow> nat \<Rightarrow> op" where
  "remove_xattr_op p name =
     \<lparr>op_kind = KRemoveXattr, op_flags = 0, op_path = p, op_at = name, op_len = 0, op_src = u64_max\<rparr>"

definition set_mode_op :: "nat \<Rightarrow> nat \<Rightarrow> op" where
  "set_mode_op p md =
     \<lparr>op_kind = KSetMode, op_flags = 0, op_path = p, op_at = 0, op_len = md, op_src = u64_max\<rparr>"

definition symlink_op :: "nat \<Rightarrow> nat \<Rightarrow> op" where
  "symlink_op link target =
     \<lparr>op_kind = KSymlink, op_flags = 0, op_path = link, op_at = 0, op_len = 0, op_src = target\<rparr>"

definition link_op :: "nat \<Rightarrow> nat \<Rightarrow> op" where
  "link_op link target =
     \<lparr>op_kind = KLink, op_flags = 0, op_path = link, op_at = 0, op_len = 0, op_src = target\<rparr>"

definition namespace_op :: "opkind \<Rightarrow> nat \<Rightarrow> op" where
  "namespace_op kind p =
     \<lparr>op_kind = kind, op_flags = 0, op_path = p, op_at = 0, op_len = 0, op_src = u64_max\<rparr>"

definition rename_op :: "nat \<Rightarrow> nat \<Rightarrow> op" where
  "rename_op dst src =
     \<lparr>op_kind = KRename, op_flags = 0, op_path = dst, op_at = 0, op_len = 0, op_src = src\<rparr>"

definition adds_content :: "opkind \<Rightarrow> bool" where
  "adds_content k \<longleftrightarrow> k \<in> {KOverwrite, KInsert, KExtend}"

section \<open>Classification\<close>

record emission =
  em_final :: path
  em_source :: "path option"
  em_created :: bool
  em_ops :: "op list"
  em_len :: nat

definition renamed :: "entity \<Rightarrow> bool" where
  "renamed e = (case en_origin e of None \<Rightarrow> False | Some origin \<Rightarrow> origin \<noteq> en_final e)"

definition emission_of :: "entity \<Rightarrow> emission option" where
  "emission_of e =
     (let (ops, final_len) = compose_content_sized (en_base_len e) (en_content e);
          created = (en_origin e = None)
      in if \<not> created \<and> \<not> renamed e \<and> ops = [] then None
         else Some \<lparr>em_final = en_final e, em_source = (if renamed e then en_origin e else None),
                em_created = created, em_ops = ops, em_len = final_len\<rparr>)"

definition classify :: "entity list \<Rightarrow> emission list \<times> path list" where
  "classify es =
     (let emissions = List.map_filter emission_of (filter en_live es);
          survivors = bs_extend (map en_final (filter en_live es)) [];
          gone = List.map_filter en_origin (filter (\<lambda>e. \<not> en_live e) es);
          removed = remdups_adj (sort (filter (\<lambda>p. \<not> bs_mem survivors p) gone))
      in (emissions, removed))"

fun directory_names :: "directory_emission \<Rightarrow> path list" where
  "directory_names (DirMade p) = [p]"
| "directory_names (DirRemoved p) = [p]"

fun symlink_names :: "symlink_emission \<Rightarrow> path list" where
  "symlink_names (SymMade p t) = [p, t]"
| "symlink_names (SymRemoved p) = [p]"

fun xattr_names :: "xattr_emission \<Rightarrow> path list" where
  "xattr_names (XSet p n _) = [p, n]"
| "xattr_names (XRemoved p n) = [p, n]"

fun link_names :: "link_emission \<Rightarrow> path list" where
  "link_names (LinkMade p t) = [p, t]"
| "link_names (LinkRemoved p) = [p]"

definition document_names ::
  "emission list \<Rightarrow> path list \<Rightarrow> directory_emission list \<Rightarrow> (path \<times> nat) list \<Rightarrow> symlink_emission list \<Rightarrow>
   xattr_emission list \<Rightarrow> link_emission list \<Rightarrow> path list" where
  "document_names emissions removed directories modes symlinks xattrs hardlinks =
     remdups_adj (sort (
       concat (map (\<lambda>m. em_final m # (case em_source m of None \<Rightarrow> [] | Some s \<Rightarrow> [s])) emissions)
       @ removed @ concat (map directory_names directories) @ map fst modes
       @ concat (map symlink_names symlinks) @ concat (map xattr_names xattrs)
       @ concat (map link_names hardlinks)))"

text \<open>
  The closure \<open>index_of\<close>: \<open>binary_search_by\<close> on the sorted, duplicate-free names finds the one
  position of a name.
\<close>

definition index_of :: "path list \<Rightarrow> path \<Rightarrow> nat" where
  "index_of names p = (case position (\<lambda>q. q = p) names of None \<Rightarrow> u16_max | Some i \<Rightarrow> to_u16 i)"

fun emit_directory :: "path list \<Rightarrow> directory_emission \<Rightarrow> op" where
  "emit_directory names (DirMade p) = namespace_op KMkdir (index_of names p)"
| "emit_directory names (DirRemoved p) = namespace_op KRmdir (index_of names p)"

fun emit_symlink :: "path list \<Rightarrow> symlink_emission \<Rightarrow> op" where
  "emit_symlink names (SymMade p t) = symlink_op (index_of names p) (index_of names t)"
| "emit_symlink names (SymRemoved p) = namespace_op KUnlink (index_of names p)"

fun emit_link :: "path list \<Rightarrow> link_emission \<Rightarrow> op" where
  "emit_link names (LinkMade p t) = link_op (index_of names p) (index_of names t)"
| "emit_link names (LinkRemoved p) = namespace_op KUnlink (index_of names p)"

definition emit_namespace ::
  "path list \<Rightarrow> path list \<Rightarrow> directory_emission list \<Rightarrow> (path \<times> nat) list \<Rightarrow> symlink_emission list \<Rightarrow>
   link_emission list \<Rightarrow> op list" where
  "emit_namespace names removed directories modes symlinks hardlinks =
     map (\<lambda>p. namespace_op KUnlink (index_of names p)) removed
     @ map (emit_directory names) directories
     @ map (\<lambda>(p, md). set_mode_op (index_of names p) md) modes
     @ map (emit_symlink names) symlinks
     @ map (emit_link names) hardlinks"

section \<open>Sealing\<close>

definition push_content :: "nat \<Rightarrow> nat \<Rightarrow> op list \<Rightarrow> op list" where
  "push_content i region ops =
     map (\<lambda>p. let p = p\<lparr>op_path := i\<rparr>
              in if adds_content (op_kind p) then p\<lparr>op_src := sat_add (op_src p) region\<rparr> else p) ops"

definition seal_file :: "path list \<Rightarrow> emission \<Rightarrow> op list \<times> nat \<Rightarrow> op list \<times> nat" where
  "seal_file names m st =
     (let (ops, region) = st;
          dst = index_of names (em_final m);
          name = (case em_source m of
              Some s \<Rightarrow> [rename_op dst (index_of names s)]
            | None \<Rightarrow> if em_created m then [namespace_op KCreate dst] else [])
      in (ops @ name @ push_content dst region (em_ops m), sat_add region (em_len m)))"

fun seal_xattr :: "path list \<Rightarrow> xattr_emission \<Rightarrow> op list \<times> nat \<Rightarrow> op list \<times> nat" where
  "seal_xattr names (XSet p n v) st =
     (fst st @ [set_xattr_op (index_of names p) (index_of names n) (snd st) (length v)],
      sat_add (snd st) (length v))"
| "seal_xattr names (XRemoved p n) st =
     (fst st @ [remove_xattr_op (index_of names p) (index_of names n)], snd st)"

definition seal ::
  "entity list \<Rightarrow> directory_emission list \<Rightarrow> (path \<times> nat) list \<Rightarrow> symlink_emission list \<Rightarrow>
   xattr_emission list \<Rightarrow> link_emission list \<Rightarrow> ops_doc" where
  "seal es directories modes symlinks xattrs hardlinks =
     (let (emissions, removed) = classify es;
          names = document_names emissions removed directories modes symlinks xattrs hardlinks;
          (ops, region) = fold (seal_file names) (sort_key em_final emissions) ([], 0);
          (ops, _) = fold (seal_xattr names) xattrs (ops, region)
      in canonicalize \<lparr>doc_paths = intern_all names (doc_paths doc_new),
           doc_ops = ops @ emit_namespace names removed directories modes symlinks hardlinks\<rparr>)"

section \<open>The whole journal\<close>

text \<open>The operations the replay skips: those another composition has done.\<close>

definition replayed :: "path btset \<Rightarrow> path btset \<Rightarrow> path btset \<Rightarrow> volume_op \<Rightarrow> bool" where
  "replayed sym_paths link_paths special_paths p \<longleftrightarrow>
     \<not> (is_directory p \<or> is_symlink p \<or> is_link p \<or> is_mknod p) \<and>
     (case p of VUnlink q \<Rightarrow> \<not> (bs_mem sym_paths q \<or> bs_mem link_paths q \<or> bs_mem special_paths q) | _ \<Rightarrow> True)"

definition survivors_of :: "base \<Rightarrow> entity list \<Rightarrow> path btset \<Rightarrow> path btset" where
  "survivors_of b es special_survivors =
     (let origins = bs_extend (List.map_filter en_origin es) [];
          survivors = bs_extend (map en_final (filter en_live es)) [];
          survivors = bs_extend (filter (\<lambda>p. \<not> bs_mem origins p) (map fst (b_files b))) survivors
      in bs_extend special_survivors survivors)"

definition renamed_away_of :: "entity list \<Rightarrow> path btset" where
  "renamed_away_of es = bs_extend (List.map_filter (\<lambda>e. if renamed e then en_origin e else None) (filter en_live es)) []"

definition compose_volume :: "base \<Rightarrow> volume_op list \<Rightarrow> derive_error + ops_doc" where
  "compose_volume b journal =
     rbind (special_composition_of b journal) (\<lambda>specials.
     rbind (check_no_file_directory_collision b journal) (\<lambda>_.
     rbind (compose_directories b journal) (\<lambda>directories.
     let sym_paths = symlink_paths b journal
     in rbind (compose_symlinks b journal sym_paths) (\<lambda>symlinks.
     let link_paths = hardlink_paths b journal
     in rbind (compose_hardlinks b journal link_paths) (\<lambda>hardlinks.
     rbind (try_fold (apply_volume_op b) (filter (replayed sym_paths link_paths (sc_paths specials)) journal) []) (\<lambda>es.
     let survivors = survivors_of b es (sc_survivors specials);
         away = renamed_away_of es;
         present_dirs = present_directories b journal
     in rbind (compose_modes b journal survivors away present_dirs) (\<lambda>modes.
     rbind (compose_xattrs b journal survivors away present_dirs) (\<lambda>xattrs.
     Inr (emit_specials specials (seal es directories modes symlinks xattrs hardlinks))))))))))"

end
