(* ===== verification/Commit_Laws.thy ===== *)
theory Commit_Laws
  imports Retention
begin

text \<open>
  What one commit does to the green. Every write of \<open>Commit\<close> is a put at the new version in one
  dimension, so a commit keeps the dimensions in order, leaves every earlier version as it was,
  marks every key it changes, and charges exactly what it supersedes.
\<close>

section \<open>One write\<close>

text \<open>The fields no write of a commit touches.\<close>

definition frame where
  "frame g = (g_identity g, g_identity_version g, g_deltas g, g_accepted g, g_rejected g, g_rejected_order g,
     g_rejected_bytes g, g_rejected_budget g, g_rejected_evicted g, g_folded_below g, g_fast_path_hits g)"

text \<open>The bytes the content and IPC histories hold beyond the current values.\<close>

definition retained_exact :: "green \<Rightarrow> nat" where
  "retained_exact g = vd_retained content_cost (content_dim g) + vd_retained special_cost (special_dim g)"

definition accounted :: "green \<Rightarrow> bool" where
  "accounted g \<longleftrightarrow> g_history_bytes g = retained_exact g"

text \<open>The total as it saturates.\<close>

definition tallied :: "green \<Rightarrow> bool" where
  "tallied g \<longleftrightarrow> g_history_bytes g = min u64_max (retained_exact g)"

lemma tallied_accounted: "retained_exact g \<le> u64_max \<Longrightarrow> tallied g \<longleftrightarrow> accounted g"
  by (simp add: tallied_def accounted_def)

definition same_past :: "ver \<Rightarrow> green \<Rightarrow> green \<Rightarrow> bool" where
  "same_past v g g' \<longleftrightarrow> (\<forall>w<v. vd_at (content_dim g') w = vd_at (content_dim g) w
     \<and> vd_at (special_dim g') w = vd_at (special_dim g) w \<and> vd_at (mode_dim g') w = vd_at (mode_dim g) w
     \<and> vd_at (symlink_dim g') w = vd_at (symlink_dim g) w \<and> vd_at (hardlink_dim g') w = vd_at (hardlink_dim g) w
     \<and> vd_at (xattr_dim g') w = vd_at (xattr_dim g) w \<and> dd_at (dir_dim g') w = dd_at (dir_dim g) w)"

text \<open>A step of a commit of version \<open>v\<close>.\<close>

definition advances :: "ver \<Rightarrow> green \<Rightarrow> green \<Rightarrow> bool" where
  "advances v g g' \<longleftrightarrow> dims_ok v g' \<and> bs_ok (g_identity_dirty g') \<and> same_past v g g' \<and> frame g' = frame g
     \<and> set (g_identity_dirty g) \<subseteq> set (g_identity_dirty g')
     \<and> (\<forall>k. k \<notin> set (g_identity_dirty g') \<longrightarrow> entry_now g' k = entry_now g k)
     \<and> retained_exact g \<le> retained_exact g'
     \<and> (tallied g \<longrightarrow> tallied g')"

lemma advances_refl: "dims_ok v g \<Longrightarrow> bs_ok (g_identity_dirty g) \<Longrightarrow> advances v g g"
  by (simp add: advances_def same_past_def)

lemma advances_trans: "advances v a b \<Longrightarrow> advances v b c \<Longrightarrow> advances v a c"
  by (auto simp: advances_def same_past_def)

lemma advances_ok: "advances v g g' \<Longrightarrow> dims_ok v g' \<and> bs_ok (g_identity_dirty g')"
  by (simp add: advances_def)

lemma advances_fold:
  assumes "\<And>x g. x \<in> set xs \<Longrightarrow> dims_ok v g \<and> bs_ok (g_identity_dirty g) \<Longrightarrow> P x g \<Longrightarrow> advances v g (f x g)"
    and "\<And>x g g'. advances v g g' \<Longrightarrow> P x g \<Longrightarrow> P x g'"
    and "dims_ok v g" "bs_ok (g_identity_dirty g)" "\<And>x. x \<in> set xs \<Longrightarrow> P x g"
  shows "advances v g (fold f xs g)"
  using assms(1,3,4,5)
proof (induction xs arbitrary: g)
  case (Cons x xs)
  have step: "advances v g (f x g)" using Cons.prems by auto
  have "advances v (f x g) (fold f xs (f x g))"
    using Cons.prems step advances_ok [OF step] assms(2) [OF step] by (intro Cons.IH) auto
  with step show ?case by (auto intro: advances_trans)
qed (simp add: advances_refl)

text \<open>A dimension as it was, or written once at version \<open>v\<close> at a key of \<open>K\<close>.\<close>

definition vd_moves :: "ver \<Rightarrow> ('k::linorder \<Rightarrow> bool) \<Rightarrow> ('k, 'v) vdim \<Rightarrow> ('k, 'v) vdim \<Rightarrow> bool" where
  "vd_moves v K s s' \<longleftrightarrow> s' = s \<or> (\<exists>k x. K k \<and> s' = vd_put v k x s)"

definition dd_moves :: "ver \<Rightarrow> ('k::linorder \<Rightarrow> bool) \<Rightarrow> 'k ddim \<Rightarrow> 'k ddim \<Rightarrow> bool" where
  "dd_moves v K s s' \<longleftrightarrow> s' = s \<or> (\<exists>k x. K k \<and> s' = dd_put v k x s)"

lemma vd_moves_same [simp]: "vd_moves v K s s"
  by (simp add: vd_moves_def)

lemma dd_moves_same [simp]: "dd_moves v K s s"
  by (simp add: dd_moves_def)

lemma vd_moves_put: "K k \<Longrightarrow> vd_moves v K s (vd_put v k x s)"
  by (auto simp: vd_moves_def)

lemma dd_moves_put: "K k \<Longrightarrow> dd_moves v K s (dd_put v k x s)"
  by (auto simp: dd_moves_def)

lemma vd_moves_laws:
  assumes "vd_moves v K s s'" "vd_inv v s"
  shows "vd_inv v s'" "w < v \<Longrightarrow> vd_at s' w = vd_at s w" "\<not> K j \<Longrightarrow> vd_cur s' j = vd_cur s j"
  using assms by (auto simp: vd_moves_def vd.put_inv vd.put_at vd.put_cur fun_eq_iff)

lemma dd_moves_laws:
  assumes "dd_moves v K s s'" "dd_inv v s"
  shows "dd_inv v s'" "w < v \<Longrightarrow> dd_at s' w = dd_at s w" "\<not> K j \<Longrightarrow> dd_cur s' j = dd_cur s j"
  using assms by (auto simp: dd_moves_def dd.put_inv dd.put_at dd.put_cur fun_eq_iff)

lemma advancesI:
  fixes g g' :: green
  defines "D \<equiv> set (g_identity_dirty g')"
  assumes ok: "dims_ok v g" "bs_ok (g_identity_dirty g')" "set (g_identity_dirty g) \<subseteq> D" "frame g' = frame g"
    and m: "vd_moves v (\<lambda>p. IkFile p \<in> D) (content_dim g) (content_dim g')"
      "vd_moves v (\<lambda>p. IkSpecial p \<in> D) (special_dim g) (special_dim g')"
      "vd_moves v (\<lambda>p. IkMode p \<in> D) (mode_dim g) (mode_dim g')"
      "vd_moves v (\<lambda>p. IkSymlink p \<in> D) (symlink_dim g) (symlink_dim g')"
      "vd_moves v (\<lambda>p. IkHardlink p \<in> D) (hardlink_dim g) (hardlink_dim g')"
      "vd_moves v (\<lambda>(p, n). IkXattr p n \<in> D) (xattr_dim g) (xattr_dim g')"
      "dd_moves v (\<lambda>p. IkDir p \<in> D) (dir_dim g) (dir_dim g')"
    and r: "retained_exact g \<le> retained_exact g'" "tallied g \<longrightarrow> tallied g'"
  shows "advances v g g'"
proof -
  note inv = ok(1) [unfolded dims_ok_def]
  note laws = vd_moves_laws [OF m(1)] vd_moves_laws [OF m(2)] vd_moves_laws [OF m(3)] vd_moves_laws [OF m(4)]
    vd_moves_laws [OF m(5)] vd_moves_laws [OF m(6)] dd_moves_laws [OF m(7)]
  have e: "entry_now g' k = entry_now g k" if "k \<notin> D" for k
    using that inv by (cases k) (simp_all only: entry_now_dims, simp_all add: laws)
  have "dims_ok v g'" "same_past v g g'"
    using inv by (simp_all add: dims_ok_def same_past_def laws)
  with ok r e show ?thesis by (simp add: advances_def D_def)
qed

text \<open>What a write of the content or of the IPC table charges.\<close>

lemma content_charge:
  assumes "dims_ok v g" "content_dim g' = vd_put v p x (content_dim g)" "special_dim g' = special_dim g"
    and "g_history_bytes g' = (case bt_get (g_content g) p of None \<Rightarrow> g_history_bytes g
      | Some b \<Rightarrow> sat_add (g_history_bytes g) (length b))"
  shows "retained_exact g \<le> retained_exact g'" "tallied g \<longrightarrow> tallied g'"
proof -
  have "vd_inv v (content_dim g)" using assms(1) by (simp add: dims_ok_def)
  from vd_retained_put [OF this, of content_cost p x]
  have "retained_exact g' = retained_exact g + content_cost (vd_cur (content_dim g) p)"
    by (simp add: retained_exact_def assms content_cost_def)
  also have "vd_cur (content_dim g) p = bt_get (g_content g) p" by (simp add: vd_cur_def content_dim_def)
  finally show "retained_exact g \<le> retained_exact g'" "tallied g \<longrightarrow> tallied g'"
    using assms(4) by (auto simp: tallied_def sat_add_def content_cost_def split: option.splits)
qed

lemma special_charge:
  assumes "dims_ok v g" "special_dim g' = vd_put v p x (special_dim g)" "content_dim g' = content_dim g"
    and "g_history_bytes g' = (if bt_contains (g_specials g) p then sat_add (g_history_bytes g) special_node_bytes
      else g_history_bytes g)"
  shows "retained_exact g \<le> retained_exact g'" "tallied g \<longrightarrow> tallied g'"
proof -
  have "vd_inv v (special_dim g)" using assms(1) by (simp add: dims_ok_def)
  from vd_retained_put [OF this, of special_cost p x]
  have "retained_exact g' = retained_exact g + special_cost (vd_cur (special_dim g) p)"
    by (simp add: retained_exact_def assms special_cost_def)
  also have "special_cost (vd_cur (special_dim g) p) = (if bt_contains (g_specials g) p then special_node_bytes else 0)"
    by (simp add: special_cost_def vd_cur_def special_dim_def bt_contains_def)
  finally show "retained_exact g \<le> retained_exact g'" "tallied g \<longrightarrow> tallied g'"
    using assms(4) by (auto simp: tallied_def sat_add_def)
qed

text \<open>A write that touches neither table charges nothing.\<close>

lemma no_charge:
  assumes "content_dim g' = content_dim g" "special_dim g' = special_dim g" "g_history_bytes g' = g_history_bytes g"
  shows "retained_exact g \<le> retained_exact g'" "tallied g \<longrightarrow> tallied g'"
  using assms by (simp_all add: retained_exact_def tallied_def)

lemma advances_mark: "dims_ok v g \<Longrightarrow> bs_ok (g_identity_dirty g) \<Longrightarrow> advances v g (mark k g)"
  by (rule advancesI) (auto simp: mark_def dim_defs frame_def retained_exact_def tallied_def)

section \<open>The writes of the code\<close>

definition fits :: "ver \<Rightarrow> green \<Rightarrow> bool" where
  "fits v g \<longleftrightarrow> dims_ok v g \<and> bs_ok (g_identity_dirty g)"

lemma remove_content_advances:
  assumes "fits v g" "IkFile p \<in> set (g_identity_dirty g)"
  shows "advances v g (remove_content v p g)" "content_dim (remove_content v p g) = vd_put v p None (content_dim g)"
proof -
  let ?g = "remove_content v p g"
  show d: "content_dim ?g = vd_put v p None (content_dim g)"
    by (cases "bt_get (g_content g) p") (simp_all add: remove_content_def dim_defs vd_put_def charge_def Let_def)
  have s: "special_dim ?g = special_dim g" "mode_dim ?g = mode_dim g" "symlink_dim ?g = symlink_dim g"
    "hardlink_dim ?g = hardlink_dim g" "xattr_dim ?g = xattr_dim g" "dir_dim ?g = dir_dim g" "frame ?g = frame g"
    "g_identity_dirty ?g = g_identity_dirty g"
    by (cases "bt_get (g_content g) p";
        simp add: remove_content_def dim_defs charge_def Let_def frame_def)+
  have h: "g_history_bytes ?g = (case bt_get (g_content g) p of None \<Rightarrow> g_history_bytes g
      | Some b \<Rightarrow> sat_add (g_history_bytes g) (length b))"
    by (simp add: remove_content_def charge_def Let_def split: option.splits)
  show "advances v g ?g"
    using assms content_charge [OF _ d s(1) h] by (intro advancesI) (auto simp: fits_def s d vd_moves_put)
qed

lemma set_content_advances:
  assumes "fits v g" "IkFile p \<in> set (g_identity_dirty g)"
  shows "advances v g (set_content v (p, b, ops) g)"
    "content_dim (set_content v (p, b, ops) g) = vd_put v p (Some b) (content_dim g)"
proof -
  let ?g = "set_content v (p, b, ops) g"
  show d: "content_dim ?g = vd_put v p (Some b) (content_dim g)"
    by (cases "bt_get (g_content g) p") (simp_all add: set_content_def dim_defs vd_put_def charge_def Let_def)
  have s: "special_dim ?g = special_dim g" "mode_dim ?g = mode_dim g" "symlink_dim ?g = symlink_dim g"
    "hardlink_dim ?g = hardlink_dim g" "xattr_dim ?g = xattr_dim g" "dir_dim ?g = dir_dim g" "frame ?g = frame g"
    "g_identity_dirty ?g = g_identity_dirty g"
    by (cases "bt_get (g_content g) p"; simp add: set_content_def dim_defs charge_def Let_def frame_def)+
  have h: "g_history_bytes ?g = (case bt_get (g_content g) p of None \<Rightarrow> g_history_bytes g
      | Some b \<Rightarrow> sat_add (g_history_bytes g) (length b))"
    by (simp add: set_content_def charge_def Let_def split: option.splits)
  show "advances v g ?g"
    using assms content_charge [OF _ d s(1) h] by (intro advancesI) (auto simp: fits_def s d vd_moves_put)
qed

lemma commit_special_advances:
  assumes "fits v g" "IkSpecial p \<in> set (g_identity_dirty g)"
  shows "advances v g (commit_special p node v g)"
proof -
  let ?g = "commit_special p node v g"
  have d: "special_dim ?g = vd_put v p (Some node) (special_dim g)"
    by (simp add: commit_special_def dim_defs vd_put_def charge_def Let_def)
  have s: "content_dim ?g = content_dim g" "mode_dim ?g = mode_dim g" "symlink_dim ?g = symlink_dim g"
    "hardlink_dim ?g = hardlink_dim g" "xattr_dim ?g = xattr_dim g" "dir_dim ?g = dir_dim g" "frame ?g = frame g"
    "g_identity_dirty ?g = g_identity_dirty g"
    by (simp add: commit_special_def dim_defs charge_def Let_def frame_def)+
  have h: "g_history_bytes ?g = (if bt_contains (g_specials g) p
      then sat_add (g_history_bytes g) special_node_bytes else g_history_bytes g)"
    by (simp add: commit_special_def charge_def Let_def)
  show "advances v g ?g"
    using assms special_charge [OF _ d s(1) h] by (intro advancesI) (auto simp: fits_def s d vd_moves_put)
qed

lemma drop_mode_advances: "fits v g \<Longrightarrow> advances v g (drop_mode p v g)"
proof -
  assume f: "fits v g"
  let ?g = "drop_mode p v g"
  have d: "vd_moves v (\<lambda>p. IkMode p \<in> set (g_identity_dirty ?g)) (mode_dim g) (mode_dim ?g)"
  proof (cases "bt_contains (g_modes g) p")
    case True
    then have "mode_dim ?g = vd_put v p None (mode_dim g)" "IkMode p \<in> set (g_identity_dirty ?g)"
      by (simp_all add: drop_mode_def mark_def dim_defs vd_put_def)
    then show ?thesis by (simp add: vd_moves_put)
  qed (simp add: drop_mode_def)
  show "advances v g ?g"
    by (rule advancesI) (use f d in \<open>auto simp: fits_def drop_mode_def mark_def dim_defs frame_def retained_exact_def tallied_def\<close>)
qed

lemma drop_xattr_advances: "fits v g \<Longrightarrow> advances v g (drop_xattr v key g)"
proof -
  assume f: "fits v g"
  let ?g = "drop_xattr v key g"
  have "xattr_dim ?g = vd_put v key None (xattr_dim g)" "IkXattr (fst key) (snd key) \<in> set (g_identity_dirty ?g)"
    by (simp_all add: drop_xattr_def mark_def dim_defs vd_put_def)
  then have "vd_moves v (\<lambda>(p, n). IkXattr p n \<in> set (g_identity_dirty ?g)) (xattr_dim g) (xattr_dim ?g)"
    by (simp add: vd_moves_put case_prod_unfold)
  then show "advances v g ?g"
    by (intro advancesI) (use f in \<open>auto simp: fits_def drop_xattr_def mark_def dim_defs frame_def retained_exact_def tallied_def\<close>)
qed

text \<open>The removal of an IPC inode, its history entry pushed with the rest of its table.\<close>

definition remove_inode :: "path \<Rightarrow> ver \<Rightarrow> green \<Rightarrow> green" where
  "remove_inode p v g =
     (let g = (if bt_contains (g_specials g) p then charge special_node_bytes g else g)
      in g\<lparr>g_specials := bt_remove p (g_specials g), g_special_changed := bt_insert p v (g_special_changed g),
           g_special_history := bt_push p (v, None) (g_special_history g)\<rparr>)"

lemma drop_mode_special_history:
  "drop_mode p v (g\<lparr>g_special_history := h\<rparr>) = (drop_mode p v g)\<lparr>g_special_history := h\<rparr>"
  by (simp add: drop_mode_def mark_def)

lemma drop_xattr_special_history:
  "drop_xattr v k (g\<lparr>g_special_history := h\<rparr>) = (drop_xattr v k g)\<lparr>g_special_history := h\<rparr>"
  by (simp add: drop_xattr_def mark_def)

lemma drop_xattrs_special_history:
  "fold (drop_xattr v) ks (g\<lparr>g_special_history := h\<rparr>) = (fold (drop_xattr v) ks g)\<lparr>g_special_history := h\<rparr>"
  by (induction ks arbitrary: g) (simp_all add: drop_xattr_special_history)

lemma drop_mode_keeps: "g_special_history (drop_mode p v g) = g_special_history g"
  "g_xattrs (drop_mode p v g) = g_xattrs g"
  by (simp_all add: drop_mode_def mark_def)

lemma drop_xattrs_keep: "g_special_history (fold (drop_xattr v) ks g) = g_special_history g"
  by (induction ks arbitrary: g) (simp_all add: drop_xattr_def mark_def)

lemma remove_special_split:
  "remove_special p v g = fold (drop_xattr v) (filter (\<lambda>key. fst key = p) (bt_keys (g_xattrs g)))
     (drop_mode p v (remove_inode p v g))"
proof -
  define a where "a = (if bt_contains (g_specials g) p then charge special_node_bytes g else g)"
  define b where "b = a\<lparr>g_specials := bt_remove p (g_specials a), g_special_changed := bt_insert p v (g_special_changed a)\<rparr>"
  have x: "g_xattrs b = g_xattrs g" "g_special_history b = g_special_history a"
    by (simp_all add: b_def a_def charge_def)
  have "remove_inode p v g = b\<lparr>g_special_history := bt_push p (v, None) (g_special_history a)\<rparr>"
    by (simp add: remove_inode_def Let_def a_def [symmetric] b_def)
  moreover have "remove_special p v g = (fold (drop_xattr v) (filter (\<lambda>key. fst key = p) (bt_keys (g_xattrs g)))
      (drop_mode p v b))\<lparr>g_special_history := bt_push p (v, None) (g_special_history a)\<rparr>"
    unfolding remove_special_def Let_def a_def [symmetric] b_def [symmetric]
    by (simp add: drop_mode_keeps drop_xattrs_keep x)
  ultimately show ?thesis by (simp add: drop_mode_special_history drop_xattrs_special_history)
qed

lemma remove_inode_advances:
  assumes "fits v g" "IkSpecial p \<in> set (g_identity_dirty g)"
  shows "advances v g (remove_inode p v g)"
proof -
  let ?g = "remove_inode p v g"
  have d: "special_dim ?g = vd_put v p None (special_dim g)"
    by (simp add: remove_inode_def dim_defs vd_put_def charge_def Let_def)
  have s: "content_dim ?g = content_dim g" "mode_dim ?g = mode_dim g" "symlink_dim ?g = symlink_dim g"
    "hardlink_dim ?g = hardlink_dim g" "xattr_dim ?g = xattr_dim g" "dir_dim ?g = dir_dim g" "frame ?g = frame g"
    "g_identity_dirty ?g = g_identity_dirty g"
    by (simp add: remove_inode_def dim_defs charge_def Let_def frame_def)+
  have h: "g_history_bytes ?g = (if bt_contains (g_specials g) p
      then sat_add (g_history_bytes g) special_node_bytes else g_history_bytes g)"
    by (simp add: remove_inode_def charge_def Let_def)
  show "advances v g ?g"
    using assms special_charge [OF _ d s(1) h] by (intro advancesI) (auto simp: fits_def s d vd_moves_put)
qed

lemma advances_fits: "advances v g g' \<Longrightarrow> fits v g'"
  by (simp add: advances_def fits_def)

lemma advances_dirty: "advances v g g' \<Longrightarrow> set (g_identity_dirty g) \<subseteq> set (g_identity_dirty g')"
  by (simp add: advances_def)

lemma drop_xattrs_advance: "fits v g \<Longrightarrow> advances v g (fold (drop_xattr v) ks g)"
proof (induction ks arbitrary: g)
  case (Cons k ks)
  from drop_xattr_advances [OF Cons.prems, of k] have "advances v g (drop_xattr v k g)" .
  moreover from Cons.IH [OF advances_fits [OF this]] have "advances v (drop_xattr v k g) (fold (drop_xattr v) ks (drop_xattr v k g))" .
  ultimately show ?case by (auto intro: advances_trans)
qed (simp add: advances_refl fits_def)

lemma remove_special_advances:
  assumes "fits v g" "IkSpecial p \<in> set (g_identity_dirty g)"
  shows "advances v g (remove_special p v g)"
proof -
  note a = remove_inode_advances [OF assms]
  note b = drop_mode_advances [OF advances_fits [OF a], of p]
  note c = drop_xattrs_advance [OF advances_fits [OF b]]
  show ?thesis unfolding remove_special_split by (rule advances_trans [OF a advances_trans [OF b c]])
qed

text \<open>Every effect whose key is marked.\<close>

lemma commit_now_advances:
  assumes "fits v g" "effect_key e \<in> set (g_identity_dirty g)"
  shows "advances v g (commit_now v e g)"
proof (cases e)
  case (Special p node)
  then show ?thesis using commit_special_advances assms by simp
next
  case (RemoveSpecial p)
  then show ?thesis using remove_special_advances assms by simp
qed (rule advancesI; use assms in \<open>auto simp: fits_def dim_defs frame_def retained_exact_def tallied_def
       vd_moves_def dd_moves_def vd_put_def dd_put_def intro!: exI split: option.splits\<close>)+

section \<open>The whole commit\<close>

lemma commit_now_content: "content_dim (commit_now v e g) = content_dim g"
proof -
  have "content_dim (fold (drop_xattr v) ks h) = content_dim h" for ks h
    by (induction ks arbitrary: h) (simp_all add: drop_xattr_def mark_def dim_defs)
  then show ?thesis
    by (cases e) (simp_all add: remove_special_split drop_mode_def remove_inode_def commit_special_def mark_def
        charge_def dim_defs Let_def)
qed

lemma commit_effects:
  assumes "fits v g" "fold (commit_effect v) es (g, rs, ss) = (h, rs', ss')"
  shows "advances v g h \<and> content_dim h = content_dim g \<and> rs' = rs @ concat (map staged_remove es)
      \<and> ss' = ss @ concat (map staged_set es) \<and> effect_key ` set es \<subseteq> set (g_identity_dirty h)"
  using assms
proof (induction es arbitrary: g rs ss)
  case (Cons e es)
  define a where "a = mark (effect_key e) g"
  define b where "b = commit_now v e a"
  have m: "advances v g a" unfolding a_def using Cons.prems(1) by (intro advances_mark) (simp_all add: fits_def)
  have k: "effect_key e \<in> set (g_identity_dirty a)" by (simp add: a_def mark_def)
  have n: "advances v a b" unfolding b_def by (rule commit_now_advances [OF advances_fits [OF m] k])
  have c: "content_dim b = content_dim g" by (simp add: b_def commit_now_content) (simp add: a_def mark_def dim_defs)
  have "fold (commit_effect v) es (b, rs @ staged_remove e, ss @ staged_set e) = (h, rs', ss')"
    using Cons.prems(2) by (simp add: commit_effect_def [of v e] a_def b_def)
  note ih = Cons.IH [OF advances_fits [OF n] this]
  have "effect_key e \<in> set (g_identity_dirty h)" using k n ih by (auto simp: advances_def)
  moreover have "advances v g h" using m n ih by (auto intro: advances_trans)
  ultimately show ?case using ih c by auto
qed (simp add: advances_refl fits_def)

lemma remove_contents:
  assumes "fits v g" "IkFile ` set ps \<subseteq> set (g_identity_dirty g)"
  shows "advances v g (fold (remove_content v) ps g)
    \<and> content_dim (fold (remove_content v) ps g) = vd.puts v (map (\<lambda>p. (p, None)) ps) (content_dim g)"
  using assms
proof (induction ps arbitrary: g)
  case (Cons p ps)
  note a = remove_content_advances [OF Cons.prems(1), of p]
  have "advances v (remove_content v p g) (fold (remove_content v) ps (remove_content v p g))
      \<and> content_dim (fold (remove_content v) ps (remove_content v p g))
        = vd.puts v (map (\<lambda>p. (p, None)) ps) (content_dim (remove_content v p g))"
  proof (rule Cons.IH)
    show "fits v (remove_content v p g)" using Cons.prems a(1) by (auto dest: advances_fits)
    show "IkFile ` set ps \<subseteq> set (g_identity_dirty (remove_content v p g))"
      using Cons.prems advances_dirty [OF a(1)] by auto
  qed
  with a Cons.prems show ?case by (auto simp: vd.puts_def intro: advances_trans)
qed (simp add: advances_refl fits_def vd.puts_def)

lemma set_contents:
  assumes "fits v g" "IkFile ` fst ` set ss \<subseteq> set (g_identity_dirty g)"
  shows "advances v g (fold (set_content v) ss g)
    \<and> content_dim (fold (set_content v) ss g) = vd.puts v (map (\<lambda>(p, b, _). (p, Some b)) ss) (content_dim g)"
  using assms
proof (induction ss arbitrary: g)
  case (Cons s ss)
  obtain p b ops where s: "s = (p, b, ops)" by (cases s)
  note a = set_content_advances [OF Cons.prems(1), of p b ops]
  have "advances v (set_content v s g) (fold (set_content v) ss (set_content v s g))
      \<and> content_dim (fold (set_content v) ss (set_content v s g))
        = vd.puts v (map (\<lambda>(p, b, _). (p, Some b)) ss) (content_dim (set_content v s g))"
  proof (rule Cons.IH)
    show "fits v (set_content v s g)" using Cons.prems a(1) by (auto simp: s dest: advances_fits)
    show "IkFile ` fst ` set ss \<subseteq> set (g_identity_dirty (set_content v s g))"
      using Cons.prems advances_dirty [OF a(1)] by (auto simp: s)
  qed
  with a Cons.prems show ?case by (auto simp: s vd.puts_def intro: advances_trans)
qed (simp add: advances_refl fits_def vd.puts_def)

text \<open>The content a list of effects leaves: every removal, then every set.\<close>

definition content_changes :: "effect list \<Rightarrow> (path \<times> byte list option) list" where
  "content_changes es = map (\<lambda>p. (p, None)) (concat (map staged_remove es))
     @ map (\<lambda>(p, b, _). (p, Some b)) (concat (map staged_set es))"

lemma staged_keys:
  "p \<in> set (concat (map staged_remove es)) \<Longrightarrow> IkFile p \<in> effect_key ` set es"
  "s \<in> set (concat (map staged_set es)) \<Longrightarrow> IkFile (fst s) \<in> effect_key ` set es"
proof -
  assume "p \<in> set (concat (map staged_remove es))"
  then obtain e where "e \<in> set es" "p \<in> set (staged_remove e)" by auto
  then have "IkFile p = effect_key e" by - (cases e; auto)
  with \<open>e \<in> set es\<close> show "IkFile p \<in> effect_key ` set es" by simp
next
  assume "s \<in> set (concat (map staged_set es))"
  then obtain e where "e \<in> set es" "s \<in> set (staged_set e)" by auto
  then have "IkFile (fst s) = effect_key e" by - (cases e; auto)
  with \<open>e \<in> set es\<close> show "IkFile (fst s) \<in> effect_key ` set es" by simp
qed

lemma commit_spec:
  assumes "fits v g"
  obtains h where "advances v g h" "content_dim h = vd.puts v (content_changes es) (content_dim g)"
    "commit es v g = h\<lparr>g_deltas := g_deltas h @ [delta_of (concat (map staged_set es))]\<rparr>"
proof -
  obtain a rs ss where a: "fold (commit_effect v) es (g, [], []) = (a, rs, ss)" by (metis prod_cases3)
  note e = commit_effects [OF assms a]
  define b where "b = fold (remove_content v) rs a"
  define c where "c = fold (set_content v) ss b"
  have keys: "IkFile ` set rs \<subseteq> set (g_identity_dirty a)" "IkFile ` fst ` set ss \<subseteq> set (g_identity_dirty a)"
    using e staged_keys by fastforce+
  note r = remove_contents [OF advances_fits keys(1), of v g, folded b_def]
  have b: "advances v a b" "content_dim b = vd.puts v (map (\<lambda>p. (p, None)) rs) (content_dim a)" using r e by auto
  then have "IkFile ` fst ` set ss \<subseteq> set (g_identity_dirty b)" using keys(2) by (auto simp: advances_def)
  from set_contents [OF advances_fits [OF b(1)] this] have c: "advances v b c"
    "content_dim c = vd.puts v (map (\<lambda>(p, b, _). (p, Some b)) ss) (content_dim b)" by (simp_all add: c_def)
  show ?thesis
  proof (rule that [of c])
    show "advances v g c" using e b c by (blast intro: advances_trans)
    show "content_dim c = vd.puts v (content_changes es) (content_dim g)"
      using e b c by (simp add: content_changes_def vd.puts_def)
    show "commit es v g = c\<lparr>g_deltas := g_deltas c @ [delta_of (concat (map staged_set es))]\<rparr>"
      using e by (simp add: commit_def a b_def c_def Let_def)
  qed
qed

end
