(* ===== verification/Submit_Laws.thy ===== *)
theory Submit_Laws
  imports Commit_Laws
begin

text \<open>
  What \<open>submit\<close> does to the green: a verdict writes only the fast-path counter, a conflict only the
  rejected-result cache beside it, and an accept is one commit.
\<close>

section \<open>What a verdict leaves alone\<close>

text \<open>The green without its rejected-result cache and its counters.\<close>

definition chain_state :: "green \<Rightarrow> green" where
  "chain_state g = g\<lparr>g_rejected := [], g_rejected_order := [], g_rejected_bytes := 0, g_rejected_budget := 0,
     g_rejected_evicted := 0, g_fast_path_hits := 0\<rparr>"

definition no_hits :: "green \<Rightarrow> green" where
  "no_hits g = g\<lparr>g_fast_path_hits := 0\<rparr>"

lemma no_hits_update [simp]: "no_hits (g\<lparr>g_fast_path_hits := n\<rparr>) = no_hits g"
  by (simp add: no_hits_def)

lemma no_hits_set: "no_hits a = no_hits b \<Longrightarrow> a\<lparr>g_fast_path_hits := n\<rparr> = b\<lparr>g_fast_path_hits := n\<rparr>"
proof -
  assume e: "no_hits a = no_hits b"
  have "a\<lparr>g_fast_path_hits := n\<rparr> = (no_hits a)\<lparr>g_fast_path_hits := n\<rparr>" by (simp add: no_hits_def)
  also have "\<dots> = b\<lparr>g_fast_path_hits := n\<rparr>" unfolding e by (simp add: no_hits_def)
  finally show ?thesis .
qed

lemma merge_content_green: "no_hits (snd (merge_content inc p ops g)) = no_hits g"
  by (simp add: merge_content_def Let_def)

lemma decide_edit_green: "no_hits (snd (decide_edit inc r e st)) = no_hits (snd st)"
  using merge_content_green [of inc "fst e" "snd e" "snd st"]
  by (auto simp: decide_edit_def split: prod.split sum.split option.split)

lemma decide_edits_green: "no_hits (snd (fold (decide_edit inc r) es st)) = no_hits (snd st)"
  by (induction es arbitrary: st) (simp_all add: decide_edit_green)

lemma decide_green: "no_hits (snd (decide inc r g)) = no_hits g"
  by (simp add: decide_def decide_content_def Let_def case_prod_unfold decide_edits_green)

lemma no_hits_chain: "no_hits a = no_hits b \<Longrightarrow> chain_state a = chain_state b"
proof -
  assume e: "no_hits a = no_hits b"
  have "chain_state a = chain_state (no_hits a)" "chain_state b = chain_state (no_hits b)"
    by (simp_all add: chain_state_def no_hits_def)
  then show ?thesis by (simp add: e)
qed

lemma decide_chain: "decide inc r g = (d, g') \<Longrightarrow> chain_state g' = chain_state g"
  using decide_green [of inc r g] by (auto intro: no_hits_chain)

lemma chain_state_updates [simp]:
  "chain_state (g\<lparr>g_rejected := a\<rparr>) = chain_state g" "chain_state (g\<lparr>g_rejected_order := b\<rparr>) = chain_state g"
  "chain_state (g\<lparr>g_rejected_bytes := c\<rparr>) = chain_state g" "chain_state (g\<lparr>g_rejected_budget := c\<rparr>) = chain_state g"
  "chain_state (g\<lparr>g_rejected_evicted := c\<rparr>) = chain_state g" "chain_state (g\<lparr>g_fast_path_hits := c\<rparr>) = chain_state g"
  by (simp_all add: chain_state_def)

lemma evict_chain [simp]: "chain_state (evict k g) = chain_state g"
  by (simp add: evict_def split: option.splits)

lemma evict_while_chain [simp]: "chain_state (evict_while over g) = chain_state g"
  by (induction over g rule: evict_while.induct) (subst evict_while.simps, auto split: list.split)

lemma retain_chain [simp]: "chain_state (retain_rejected k ws g) = chain_state g"
  by (simp add: retain_rejected_def Let_def)

lemma budget_chain [simp]: "chain_state (set_rejected_budget n g) = chain_state g"
  by (simp add: set_rejected_budget_def)

lemma forget_chain [simp]: "chain_state (snd (forget_rejected k g)) = chain_state g"
  by (simp add: forget_rejected_def Let_def split: option.split)

text \<open>The three ways a submit ends.\<close>

lemma submit_cases:
  obtains (retry) v where "bt_get (g_accepted g) (inc_id inc) = Some v" "submit inc g = (Accepted v, g)"
  | (conflict) ws h where "bt_get (g_accepted g) (inc_id inc) = None" "submit inc g = (OutConflict ws, h)"
      "chain_state h = chain_state g"
  | (accept) es h where "bt_get (g_accepted g) (inc_id inc) = None" "bt_get (g_rejected g) (inc_id inc) = None"
      "decide inc (resolve inc) g = (Inr es, h)" "no_hits h = no_hits g"
      "submit inc g = (Accepted (sat_add (head g) 1),
         (commit es (sat_add (head g) 1) h)\<lparr>g_accepted := bt_insert (inc_id inc) (sat_add (head g) 1)
            (g_accepted (commit es (sat_add (head g) 1) h))\<rparr>)"
proof (cases "bt_get (g_accepted g) (inc_id inc)")
  case (Some v)
  then show ?thesis using retry by (simp add: submit_def)
next
  case None
  note fresh = None
  show ?thesis
  proof (cases "bt_get (g_rejected g) (inc_id inc)")
    case (Some ws)
    then show ?thesis using conflict [OF fresh, of ws g] fresh by (simp add: submit_def)
  next
    case None
    obtain d h where d: "decide inc (resolve inc) g = (d, h)" by fastforce
    have h: "no_hits h = no_hits g" using decide_green [of inc "resolve inc" g] by (simp add: d)
    show ?thesis
    proof (cases d)
      case (Inl ws)
      then show ?thesis using conflict [OF fresh, of ws] no_hits_chain [OF h] fresh None d by (simp add: submit_def)
    next
      case (Inr es)
      have "head h = head g" using arg_cong [OF h, of head] by (simp add: no_hits_def head_def)
      then show ?thesis using accept [OF fresh None _ h, of es] fresh None d Inr by (simp add: submit_def Let_def)
    qed
  qed
qed

section \<open>The invariant of a green\<close>

text \<open>
  The running identity is the set hash of the entries at its version, and a key not marked dirty
  has the same entry at the head.
\<close>

definition identity_ok :: "xof \<Rightarrow> green \<Rightarrow> bool" where
  "identity_ok xof g \<longleftrightarrow> bs_ok (g_identity_dirty g) \<and> g_identity_version g \<le> head g
     \<and> lt.sums xof (g_identity g) (entry_at g (g_identity_version g))
     \<and> (\<forall>k. k \<notin> set (g_identity_dirty g) \<longrightarrow> entry_at g (g_identity_version g) k = entry_now g k)"

definition green_ok :: "xof \<Rightarrow> green \<Rightarrow> bool" where
  "green_ok xof g \<longleftrightarrow> dims_ok (head g) g \<and> identity_ok xof g"

lemma chain_state_fields [simp]:
  "head (chain_state g) = head g" "content_dim (chain_state g) = content_dim g"
  "special_dim (chain_state g) = special_dim g" "mode_dim (chain_state g) = mode_dim g"
  "symlink_dim (chain_state g) = symlink_dim g" "hardlink_dim (chain_state g) = hardlink_dim g"
  "xattr_dim (chain_state g) = xattr_dim g" "dir_dim (chain_state g) = dir_dim g"
  "g_identity (chain_state g) = g_identity g" "g_identity_version (chain_state g) = g_identity_version g"
  "g_identity_dirty (chain_state g) = g_identity_dirty g" "g_accepted (chain_state g) = g_accepted g"
  "g_deltas (chain_state g) = g_deltas g" "g_history_bytes (chain_state g) = g_history_bytes g"
  "g_content (chain_state g) = g_content g" "g_folded_below (chain_state g) = g_folded_below g"
  by (simp_all add: chain_state_def head_def dim_defs)

text \<open>Whatever reads only the dimensions and the identity reads the same of two greens that differ in the rest.\<close>

lemma entries_dims:
  assumes "content_dim a = content_dim b" "special_dim a = special_dim b" "mode_dim a = mode_dim b"
    "symlink_dim a = symlink_dim b" "hardlink_dim a = hardlink_dim b" "xattr_dim a = xattr_dim b" "dir_dim a = dir_dim b"
  shows "entry_at a w = entry_at b w" "entry_now a = entry_now b" "dims_ok v a = dims_ok v b"
    "retained_exact a = retained_exact b"
proof -
  show "entry_at a w = entry_at b w"
  proof
    fix k show "entry_at a w k = entry_at b w k" by (cases k) (simp_all only: entry_at_dims assms)
  qed
  show "entry_now a = entry_now b"
  proof
    fix k show "entry_now a k = entry_now b k" by (cases k) (simp_all only: entry_now_dims assms)
  qed
qed (simp_all add: dims_ok_def retained_exact_def assms)

lemma green_ok_chain_state: "green_ok xof (chain_state g) \<longleftrightarrow> green_ok xof g"
  using entries_dims [of "chain_state g" g] by (simp add: green_ok_def identity_ok_def)

lemma green_ok_chain: "chain_state a = chain_state b \<Longrightarrow> green_ok xof a \<longleftrightarrow> green_ok xof b"
  using green_ok_chain_state by metis

lemma entry_at_past: "same_past v g h \<Longrightarrow> w < v \<Longrightarrow> entry_at h w = entry_at g w"
proof
  fix k assume "same_past v g h" "w < v"
  then show "entry_at h w k = entry_at g w k" by (cases k) (simp_all only: entry_at_dims same_past_def)
qed

text \<open>A commit of the next version.\<close>

lemma green_ok_commit:
  assumes ok: "green_ok xof g"
  shows "green_ok xof (commit es (Suc (head g)) g)" "head (commit es (Suc (head g)) g) = Suc (head g)"
    "g_accepted (commit es (Suc (head g)) g) = g_accepted g"
    "same_past (Suc (head g)) g (commit es (Suc (head g)) g)"
    "content_dim (commit es (Suc (head g)) g) = vd.puts (Suc (head g)) (content_changes es) (content_dim g)"
    "accounted g \<Longrightarrow> retained_exact (commit es (Suc (head g)) g) \<le> u64_max \<Longrightarrow> accounted (commit es (Suc (head g)) g)"
    "g_rejected (commit es (Suc (head g)) g) = g_rejected g" "g_rejected_order (commit es (Suc (head g)) g) = g_rejected_order g"
    "g_rejected_bytes (commit es (Suc (head g)) g) = g_rejected_bytes g"
    "g_rejected_budget (commit es (Suc (head g)) g) = g_rejected_budget g"
    "g_folded_below (commit es (Suc (head g)) g) = g_folded_below g"
    "g_deltas (commit es (Suc (head g)) g) = g_deltas g @ [delta_of (concat (map staged_set es))]"
    "tallied g \<Longrightarrow> tallied (commit es (Suc (head g)) g)"
proof -
  let ?v = "Suc (head g)" and ?c = "commit es (Suc (head g)) g"
  have f: "fits ?v g" using ok dims_ok_mono [of "head g" g ?v] by (simp add: fits_def green_ok_def identity_ok_def)
  obtain h where h: "advances ?v g h" "content_dim h = vd.puts ?v (content_changes es) (content_dim g)"
    and c: "?c = h\<lparr>g_deltas := g_deltas h @ [delta_of (concat (map staged_set es))]\<rparr>"
    using commit_spec [OF f] by metis
  have d: "content_dim ?c = content_dim h" "special_dim ?c = special_dim h" "mode_dim ?c = mode_dim h"
    "symlink_dim ?c = symlink_dim h" "hardlink_dim ?c = hardlink_dim h" "xattr_dim ?c = xattr_dim h"
    "dir_dim ?c = dir_dim h" "g_identity ?c = g_identity h" "g_identity_version ?c = g_identity_version h"
    "g_identity_dirty ?c = g_identity_dirty h" "g_accepted ?c = g_accepted h" "g_history_bytes ?c = g_history_bytes h"
    "g_rejected ?c = g_rejected h" "g_rejected_order ?c = g_rejected_order h" "g_rejected_bytes ?c = g_rejected_bytes h"
    "g_rejected_budget ?c = g_rejected_budget h" "g_folded_below ?c = g_folded_below h"
    unfolding c by (simp_all add: dim_defs)
  note same = entries_dims [OF d(1-7)]
  have fr: "g_identity h = g_identity g" "g_identity_version h = g_identity_version g" "g_accepted h = g_accepted g"
    "g_deltas h = g_deltas g" "g_rejected h = g_rejected g" "g_rejected_order h = g_rejected_order g"
    "g_rejected_bytes h = g_rejected_bytes g" "g_rejected_budget h = g_rejected_budget g"
    "g_folded_below h = g_folded_below g" using h(1) by (simp_all add: advances_def frame_def)
  show "g_rejected ?c = g_rejected g" "g_rejected_order ?c = g_rejected_order g" "g_rejected_bytes ?c = g_rejected_bytes g"
    "g_rejected_budget ?c = g_rejected_budget g" "g_folded_below ?c = g_folded_below g" by (simp_all add: d fr)
  show "g_deltas ?c = g_deltas g @ [delta_of (concat (map staged_set es))]" unfolding c by (simp add: fr)
  show t: "tallied ?c" if "tallied g" using h(1) that by (simp add: advances_def tallied_def same d)
  have "retained_exact g \<le> retained_exact ?c" using h(1) by (simp add: advances_def same)
  then show "accounted ?c" if "accounted g" "retained_exact ?c \<le> u64_max"
    using t tallied_accounted that by (meson le_trans)
  show hd: "head ?c = ?v" unfolding c by (simp add: head_def fr)
  show "g_accepted ?c = g_accepted g" by (simp add: d fr)
  show "same_past ?v g ?c" using h(1) by (simp add: advances_def same_past_def d)
  show "content_dim ?c = vd.puts ?v (content_changes es) (content_dim g)" by (simp add: d h(2))
  have past: "entry_at h w = entry_at g w" if "w < ?v" for w
    using entry_at_past [OF _ that] h(1) by (simp add: advances_def)
  have iv: "g_identity_version g \<le> head g" using ok by (simp add: green_ok_def identity_ok_def)
  have now: "entry_now h k = entry_now g k \<and> k \<notin> set (g_identity_dirty g)" if "k \<notin> set (g_identity_dirty h)" for k
    using h(1) that by (auto simp: advances_def)
  show "green_ok xof ?c"
    using ok h(1) iv past now by (auto simp: green_ok_def identity_ok_def hd same d fr advances_def)
qed

end
