(* ===== verification/Identity_Laws.thy ===== *)
theory Identity_Laws
  imports Submit_Laws
begin

text \<open>
  The head identity, kept by folding in only the keys a commit marked, is the one a recount of every
  entry gives: at the seed, after a commit, after the histories are folded.
\<close>

section \<open>The recount\<close>

definition scratch_keys :: "green \<Rightarrow> identity_key list" where
  "scratch_keys g = map IkSpecial (bt_keys (g_specials g)) @ map IkFile (bt_keys (g_content g))
     @ map IkDir (g_dirs g) @ map IkMode (bt_keys (g_modes g)) @ map IkSymlink (bt_keys (g_symlinks g))
     @ map IkHardlink (bt_keys (g_hardlinks g)) @ map (\<lambda>(p, n). IkXattr p n) (bt_keys (g_xattrs g))"

lemma bs_ok_distinct: "bs_ok s \<Longrightarrow> distinct s"
  by (simp add: bs_ok_def strict_sorted_iff)

lemma bt_keys_distinct: "bt_ok m \<Longrightarrow> distinct (bt_keys m)"
  by (simp add: bt_keys_def bt_ok_distinct)

lemma dims_ok_tables:
  assumes "dims_ok v g"
  shows "bt_ok (g_content g)" "bt_ok (g_specials g)" "bt_ok (g_modes g)" "bt_ok (g_symlinks g)"
    "bt_ok (g_hardlinks g)" "bt_ok (g_xattrs g)" "bs_ok (g_dirs g)"
  using assms by (simp_all add: dims_ok_def vd_inv_def dd_inv_def dim_defs)

lemma scratch_keys_distinct: "dims_ok v g \<Longrightarrow> distinct (scratch_keys g)"
  using dims_ok_tables [of v g]
  by (auto simp: scratch_keys_def distinct_map inj_on_def bt_keys_distinct bs_ok_distinct)

lemma mem_bt_keys: "k \<in> set (bt_keys m) \<longleftrightarrow> bt_get m k \<noteq> None"
  by (simp add: set_bt_keys bt_contains_def)

lemma scratch_keys_set: "set (scratch_keys g) = {k. entry_now g k \<noteq> None}"
proof
  show "set (scratch_keys g) \<subseteq> {k. entry_now g k \<noteq> None}"
    by (auto simp: scratch_keys_def mem_bt_keys bs_mem_def)
  show "{k. entry_now g k \<noteq> None} \<subseteq> set (scratch_keys g)"
  proof
    fix k assume "k \<in> {k. entry_now g k \<noteq> None}"
    then show "k \<in> set (scratch_keys g)"
      by (cases k) (auto simp: scratch_keys_def mem_bt_keys bs_mem_def image_iff Bex_def split: if_splits)
  qed
qed

lemma map_keys_entries:
  assumes "bt_ok m" "\<And>k. e (c k) = map_option (f k) (bt_get m k)"
  shows "map (the \<circ> e) (map c (bt_keys m)) = map (\<lambda>x. f (fst x) (snd x)) m"
proof -
  have "the (e (c (fst x))) = f (fst x) (snd x)" if "x \<in> set m" for x
    using that bt_get_in [OF assms(1), of "fst x" "snd x"] by (simp add: assms(2))
  then show ?thesis by (simp add: bt_keys_def)
qed

lemma scratch_keys_entries: "dims_ok v g \<Longrightarrow> map (the \<circ> entry_now g) (scratch_keys g) = scratch_entries g"
proof -
  assume "dims_ok v g"
  note t = dims_ok_tables [OF this]
  have "map (the \<circ> entry_now g) (map IkDir (g_dirs g)) = map dir_entry (g_dirs g)" by (simp add: bs_mem_def)
  moreover have "map (the \<circ> entry_now g) (map (\<lambda>(p, n). IkXattr p n) (bt_keys (g_xattrs g)))
      = map (\<lambda>e. xattr_entry (fst (fst e)) (snd (fst e)) (snd e)) (g_xattrs g)"
    using map_keys_entries [OF t(6), of "entry_now g" "\<lambda>(p, n). IkXattr p n" "\<lambda>k. xattr_entry (fst k) (snd k)"]
    by (auto simp: case_prod_unfold)
  ultimately show ?thesis
    unfolding scratch_keys_def scratch_entries_def map_append
    using map_keys_entries [OF t(2), of "entry_now g" IkSpecial special_entry]
      map_keys_entries [OF t(1), of "entry_now g" IkFile file_entry]
      map_keys_entries [OF t(3), of "entry_now g" IkMode mode_entry]
      map_keys_entries [OF t(4), of "entry_now g" IkSymlink "link_entry symlink_tag"]
      map_keys_entries [OF t(5), of "entry_now g" IkHardlink "link_entry hardlink_tag"]
    by simp
qed

lemma scratch_sums: "dims_ok v g \<Longrightarrow> lt.sums xof (foldl (set_hash_add xof) set_hash_default (scratch_entries g)) (entry_now g)"
  by (rule lt.sumsI [OF scratch_keys_distinct scratch_keys_set]) (simp_all only: scratch_keys_entries)

section \<open>Bringing the identity to the head\<close>

lemma fold_key_bring: "fold_key xof g since = lt.bring xof (entry_at g since) (entry_now g)"
  by (intro ext) (simp add: fold_key_def lt.bring_def entries_of_def)

lemma fold_identity_ok:
  assumes "green_ok xof g"
  shows "green_ok xof (fold_identity xof g)" "lt.sums xof (g_identity (fold_identity xof g)) (entry_now g)"
proof -
  let ?iv = "g_identity_version g" and ?f = "fold_identity xof g"
  have ok: "dims_ok (head g) g" "bs_ok (g_identity_dirty g)" "lt.sums xof (g_identity g) (entry_at g ?iv)"
    "\<And>k. k \<notin> set (g_identity_dirty g) \<Longrightarrow> entry_at g ?iv k = entry_now g k"
    using assms by (simp_all add: green_ok_def identity_ok_def)
  have "(\<lambda>k. if k \<in> set (g_identity_dirty g) then entry_now g k else entry_at g ?iv k) = entry_now g"
    using ok(4) by auto
  with lt.sums_fold [OF ok(3) bs_ok_distinct [OF ok(2)], of "entry_now g"]
  show s: "lt.sums xof (g_identity ?f) (entry_now g)"
    by (simp add: fold_identity_def fold_key_bring)
  have d: "content_dim ?f = content_dim g" "special_dim ?f = special_dim g" "mode_dim ?f = mode_dim g"
    "symlink_dim ?f = symlink_dim g" "hardlink_dim ?f = hardlink_dim g" "xattr_dim ?f = xattr_dim g" "dir_dim ?f = dir_dim g"
    "head ?f = head g" "g_identity_version ?f = head g" "g_identity_dirty ?f = []"
    by (simp_all add: fold_identity_def dim_defs head_def)
  note same = entries_dims [OF d(1-7)]
  have "entry_at g (head g) = entry_now g" using entry_at_now [OF ok(1)] by auto
  with s ok(1) show "green_ok xof ?f" by (simp add: green_ok_def identity_ok_def d same)
qed

lemma head_identity_scratch:
  assumes "green_ok xof g"
  shows "fst (head_identity xof digest g) = head_identity_from_scratch xof digest g"
proof -
  have "dims_ok (head g) g" using assms by (simp add: green_ok_def)
  from lt.sums_unique [OF fold_identity_ok(2) [OF assms] scratch_sums [OF this]] show ?thesis
    by (simp add: head_identity_def head_identity_from_scratch_def)
qed

section \<open>Folding the histories\<close>

definition folded_dims where
  "folded_dims floor g h \<longleftrightarrow> content_dim h = vd_fold floor (content_dim g) \<and> special_dim h = vd_fold floor (special_dim g)
     \<and> mode_dim h = vd_fold floor (mode_dim g) \<and> symlink_dim h = vd_fold floor (symlink_dim g)
     \<and> hardlink_dim h = vd_fold floor (hardlink_dim g) \<and> xattr_dim h = vd_fold floor (xattr_dim g)
     \<and> dir_dim h = dd_fold floor (dir_dim g)"

lemma folded_laws:
  assumes "folded_dims floor g h"
  shows "dims_ok v g \<Longrightarrow> dims_ok v h" "entry_now h = entry_now g" "floor \<le> w \<Longrightarrow> entry_at h w = entry_at g w"
proof -
  note d = assms [unfolded folded_dims_def]
  show "dims_ok v g \<Longrightarrow> dims_ok v h" by (simp add: dims_ok_def d vd.fold_inv dd.fold_inv)
  show "entry_now h = entry_now g"
  proof
    fix k show "entry_now h k = entry_now g k"
      by (cases k) (simp_all only: entry_now_dims d vd.fold_cur dd.fold_cur)
  qed
  show "entry_at h w = entry_at g w" if "floor \<le> w"
  proof
    fix k show "entry_at h w k = entry_at g w k"
      using that by (cases k) (simp_all only: entry_at_dims d vd.fold_at dd.fold_at)
  qed
qed

lemma fold_history_green_ok:
  assumes "green_ok xof g"
  shows "green_ok xof (snd (fold_history_before xof floor g))"
proof (cases "floor \<le> g_folded_below g")
  case True
  then show ?thesis using assms by (simp add: fold_history_before_def)
next
  case False
  define a where "a = (if g_identity_version g < floor then fold_identity xof g else g)"
  have a: "green_ok xof a" using assms fold_identity_ok(1) by (simp add: a_def)
  have iv: "floor \<le> g_identity_version a \<or> g_identity_version a = head a"
    by (auto simp: a_def fold_identity_def head_def)
  define h where "h = snd (fold_history_before xof floor g)"
  have h: "folded_dims floor a h" "head h = head a" "g_identity h = g_identity a"
    "g_identity_version h = g_identity_version a" "g_identity_dirty h = g_identity_dirty a"
    using False by (simp_all add: h_def fold_history_before_def Let_def a_def [symmetric] folded_dims_def dim_defs
        vd_fold_def dd_fold_def head_def)
  note f = folded_laws [OF h(1)]
  have ok: "dims_ok (head a) a" using a by (simp add: green_ok_def)
  have "entry_at h (g_identity_version a) = entry_at a (g_identity_version a)"
    using iv f(3) entry_at_now [OF ok] entry_at_now [OF f(1) [OF ok]] f(2) by (metis ext order_refl)
  with a f(1) [OF ok] f(2) show ?thesis
    unfolding h_def [symmetric] by (simp add: green_ok_def identity_ok_def h)
qed

lemma fold_budget_green_ok: "green_ok xof g \<Longrightarrow> green_ok xof (snd (fold_budget_loop xof reachable budget released g))"
proof (induction xof reachable budget released g rule: fold_budget_loop.induct)
  case (1 xof reachable budget released g)
  then show ?case
    using fold_history_green_ok [OF "1.prems", of "sat_add (g_folded_below g) 1"]
    by (subst fold_budget_loop.simps) (auto simp: Let_def split: prod.split)
qed

end
