(* ===== verification/Cache_Laws.thy ===== *)
theory Cache_Laws
  imports Submit_Laws
begin

text \<open>
  The rejected-result cache: its running total is the bytes its entries cost, it never holds more
  than its budget, and its eviction order names each entry once.
\<close>

definition cache_cost :: "(identity32, conflict_window list) btmap \<Rightarrow> nat" where
  "cache_cost m = (\<Sum>e\<leftarrow>m. rejected_entry_bytes (snd e))"

text \<open>All of it but the bound, which a change of the budget restores by evicting.\<close>

definition cache_wf :: "green \<Rightarrow> bool" where
  "cache_wf g \<longleftrightarrow> bt_ok (g_rejected g) \<and> distinct (g_rejected_order g)
     \<and> set (g_rejected_order g) = {k. bt_contains (g_rejected g) k}
     \<and> g_rejected_bytes g = cache_cost (g_rejected g) \<and> g_rejected_budget g < u64_max
     \<and> (\<forall>k ws. bt_get (g_rejected g) k = Some ws \<longrightarrow> ws \<noteq> [])"

definition cache_ok :: "green \<Rightarrow> bool" where
  "cache_ok g \<longleftrightarrow> cache_wf g \<and> g_rejected_bytes g \<le> g_rejected_budget g"

lemma cache_cost_remove: "bt_ok m \<Longrightarrow> bt_get m k = Some ws \<Longrightarrow> cache_cost (bt_remove k m) = cache_cost m - rejected_entry_bytes ws"
  using sum_bt_remove [of m k ws "\<lambda>e. rejected_entry_bytes (snd e)"] by (simp add: cache_cost_def)

lemma cache_cost_insert: "bt_get m k = None \<Longrightarrow> cache_cost (bt_insert k ws m) = rejected_entry_bytes ws + cache_cost m"
  using sum_bt_insert_absent [of m k "\<lambda>e. rejected_entry_bytes (snd e)" ws] by (simp add: cache_cost_def)

lemma cache_empty: "cache_wf g \<Longrightarrow> g_rejected_order g = [] \<Longrightarrow> g_rejected g = [] \<and> g_rejected_bytes g = 0"
proof -
  assume w: "cache_wf g" and o: "g_rejected_order g = []"
  have "g_rejected g = []"
  proof (cases "g_rejected g")
    case (Cons e m)
    then have "bt_contains (g_rejected g) (fst e)" by (simp add: bt_contains_fst)
    with w o show ?thesis by (auto simp: cache_wf_def)
  qed simp
  with w show ?thesis by (simp add: cache_wf_def cache_cost_def)
qed

lemma evict_wf:
  assumes "cache_wf g" "g_rejected_order g = k # rest"
  shows "cache_wf (evict k (g\<lparr>g_rejected_order := rest\<rparr>))"
proof -
  have k: "bt_contains (g_rejected g) k" using assms by (auto simp: cache_wf_def)
  then obtain ws where ws: "bt_get (g_rejected g) k = Some ws" by (auto simp: bt_contains_def)
  have "set rest = {j. bt_contains (g_rejected g) j \<and> j \<noteq> k}" using assms by (auto simp: cache_wf_def)
  with assms ws show ?thesis
    by (auto simp: cache_wf_def evict_def cache_cost_remove split: if_splits)
qed

lemma evict_budget [simp]: "g_rejected_budget (evict k g) = g_rejected_budget g"
  by (simp add: evict_def split: option.split)

lemma evict_while_wf:
  "cache_wf g \<Longrightarrow> cache_wf (evict_while over g) \<and> g_rejected_budget (evict_while over g) = g_rejected_budget g
     \<and> set (g_rejected_order (evict_while over g)) \<subseteq> set (g_rejected_order g)
     \<and> (over (g_rejected_bytes (evict_while over g)) \<longrightarrow> g_rejected_bytes (evict_while over g) = 0)"
proof (induction over g rule: evict_while.induct)
  case (1 over g)
  show ?case
  proof (cases "over (g_rejected_bytes g)")
    case True
    show ?thesis
    proof (cases "g_rejected_order g")
      case Nil
      then show ?thesis using True "1.prems" cache_empty [OF "1.prems" Nil] by (simp add: evict_while.simps [of over g])
    next
      case (Cons k rest)
      note w = evict_wf [OF "1.prems" Cons]
      from "1.IH" [OF True Cons w] show ?thesis
        using True Cons by (auto simp: evict_while.simps [of over g])
    qed
  next
    case False
    then show ?thesis using "1.prems" by (simp add: evict_while.simps [of over g])
  qed
qed

lemma retain_ok:
  assumes "cache_ok g" "bt_get (g_rejected g) k = None" "ws \<noteq> []"
  shows "cache_ok (retain_rejected k ws g)"
proof (cases "rejected_entry_bytes ws > g_rejected_budget g")
  case True
  then show ?thesis using assms(1) by (simp add: retain_rejected_def cache_ok_def cache_wf_def Let_def)
next
  case False
  let ?n = "rejected_entry_bytes ws"
  define h where "h = evict_while (\<lambda>bytes. sat_add bytes ?n > g_rejected_budget g) g"
  have w: "cache_wf h" "g_rejected_budget h = g_rejected_budget g"
    "set (g_rejected_order h) \<subseteq> set (g_rejected_order g)"
    "sat_add (g_rejected_bytes h) ?n > g_rejected_budget g \<Longrightarrow> g_rejected_bytes h = 0"
    using evict_while_wf [of g "\<lambda>bytes. sat_add bytes ?n > g_rejected_budget g"] assms(1)
    by (simp_all add: h_def cache_ok_def)
  have k: "k \<notin> set (g_rejected_order h)" using w(3) assms(1,2) by (auto simp: cache_ok_def cache_wf_def bt_contains_def)
  then have new: "bt_get (g_rejected h) k = None" using w(1) by (auto simp: cache_wf_def bt_contains_def)
  have b: "g_rejected_budget g < u64_max" using assms(1) by (simp add: cache_ok_def cache_wf_def)
  have le: "g_rejected_bytes h + ?n \<le> g_rejected_budget g"
  proof (cases "sat_add (g_rejected_bytes h) ?n > g_rejected_budget g")
    case True
    then show ?thesis using w(4) False by simp
  next
    case F: False
    then show ?thesis using b by (auto simp: sat_add_def min_def split: if_splits)
  qed
  have r: "retain_rejected k ws g = h\<lparr>g_rejected := bt_insert k ws (g_rejected h),
      g_rejected_order := g_rejected_order h @ [k], g_rejected_bytes := sat_add (g_rejected_bytes h) ?n\<rparr>"
    using False by (simp add: retain_rejected_def Let_def h_def)
  show ?thesis unfolding r using w k new le b assms(3)
    by (auto simp: cache_ok_def cache_wf_def cache_cost_insert sat_add_small)
qed

lemma budget_ok: "cache_wf g \<Longrightarrow> n < u64_max \<Longrightarrow> cache_ok (set_rejected_budget n g)"
proof -
  assume g: "cache_wf g" and n: "n < u64_max"
  then have "cache_wf (g\<lparr>g_rejected_budget := n\<rparr>)" by (simp add: cache_wf_def)
  from evict_while_wf [OF this, of "\<lambda>held. held > n"] show ?thesis
    by (auto simp: set_rejected_budget_def cache_ok_def)
qed

lemma forget_ok: "cache_ok g \<Longrightarrow> cache_ok (snd (forget_rejected k g))"
  by (auto simp: forget_rejected_def Let_def cache_ok_def cache_wf_def cache_cost_remove split: option.splits if_splits)

text \<open>What a green's other operations leave of the cache.\<close>

definition cache_view where
  "cache_view g = (g_rejected g, g_rejected_order g, g_rejected_bytes g, g_rejected_budget g)"

lemma cache_ok_view: "cache_view a = cache_view b \<Longrightarrow> cache_ok a \<longleftrightarrow> cache_ok b"
  by (simp add: cache_view_def cache_ok_def cache_wf_def)

lemma decide_windows: "decide inc r g = (Inl ws, h) \<Longrightarrow> ws \<noteq> []"
  by (auto simp: decide_def Let_def case_prod_unfold split: if_splits)

end
