(* ===== verification/Retention_Laws.thy ===== *)
theory Retention_Laws
  imports Identity_Laws
begin

text \<open>
  The bytes a green retains: the running total is the recount of the histories after a commit and
  after a fold, and a fold releases exactly the bytes it no longer keeps.
\<close>

section \<open>The recount\<close>

lemma superseded_butlast: "superseded h = rev (butlast h)"
  by (cases h rule: rev_cases) (simp_all add: superseded_def)

lemma wrap_sum_map_small:
  "(\<Sum>x\<leftarrow>xs. f x) \<le> u64_max \<Longrightarrow> (\<And>x. x \<in> set xs \<Longrightarrow> f x \<le> u64_max \<Longrightarrow> g x = f x) \<Longrightarrow>
     wrap_sum (map g xs) = (\<Sum>x\<leftarrow>xs. f x)"
proof -
  assume s: "(\<Sum>x\<leftarrow>xs. f x) \<le> u64_max" and g: "\<And>x. x \<in> set xs \<Longrightarrow> f x \<le> u64_max \<Longrightarrow> g x = f x"
  have "f x \<le> u64_max" if "x \<in> set xs" for x
    using member_le_sum_list [of "f x" "map f xs"] that s by auto
  then have "map g xs = map f xs" using g by simp
  then show ?thesis using s by (simp only: wrap_sum_small)
qed

lemma special_kept: "length (filter (\<lambda>e. snd e \<noteq> None) (superseded h)) * special_node_bytes = kept_cost special_cost h"
proof -
  have "length (filter (\<lambda>e. snd e \<noteq> None) xs) * special_node_bytes = (\<Sum>e\<leftarrow>xs. special_cost (snd e))"
    for xs :: "special_node option history"
    by (induction xs) (simp_all add: special_cost_def)
  then show ?thesis by (simp add: superseded_butlast kept_cost_def sum_list_rev rev_map [symmetric])
qed

lemma content_kept: "(\<Sum>e\<leftarrow>superseded h. case snd e of None \<Rightarrow> 0 | Some bs \<Rightarrow> length bs) = kept_cost content_cost h"
  by (simp add: superseded_butlast kept_cost_def content_cost_def sum_list_rev rev_map [symmetric])

lemma recount_exact:
  assumes "retained_exact g \<le> u64_max"
  shows "history_bytes_recounted g = retained_exact g"
proof -
  let ?c = "\<Sum>h\<leftarrow>bt_values (g_content_history g). kept_cost content_cost h"
    and ?s = "\<Sum>h\<leftarrow>bt_values (g_special_history g). kept_cost special_cost h"
  have r: "retained_exact g = ?c + ?s"
    by (simp add: retained_exact_def vd_retained_def dim_defs bt_values_def comp_def)
  have "wrap_sum (map (\<lambda>h. wrap_sum (map (\<lambda>e. case snd e of None \<Rightarrow> 0 | Some bs \<Rightarrow> length bs) (superseded h)))
      (bt_values (g_content_history g))) = ?c"
    using assms by (intro wrap_sum_map_small) (simp_all add: r wrap_sum_small content_kept)
  moreover have "wrap_sum (map (\<lambda>h. sat_mul (length (filter (\<lambda>e. snd e \<noteq> None) (superseded h))) special_node_bytes)
      (bt_values (g_special_history g))) = ?s"
    unfolding sat_mul_def special_kept using assms by (intro wrap_sum_map_small) (simp_all add: r)
  ultimately show ?thesis using assms
    by (simp add: history_bytes_recounted_def r sat_add_small add.commute)
qed

section \<open>Folding\<close>

lemma fold_released_kept:
  "r + (\<Sum>e\<leftarrow>hs. kept_cost cost (snd e)) \<le> u64_max \<Longrightarrow>
     fold_released hs floor cost r + (\<Sum>e\<leftarrow>fold_table hs floor. kept_cost cost (snd e))
       = r + (\<Sum>e\<leftarrow>hs. kept_cost cost (snd e))"
proof (induction hs arbitrary: r)
  case (Cons e hs)
  let ?f = "fold_entries (snd e) floor cost"
  have "kept_cost cost (snd e) < 2 ^ 64" using Cons.prems by (simp add: u64_max_def)
  note k = fold_entries_kept [OF this, of floor]
  have n: "sat_add r (snd ?f) = r + snd ?f" using Cons.prems k by (intro sat_add_small) simp
  have "fold_released (e # hs) floor cost r = fold_released hs floor cost (r + snd ?f)"
    by (simp add: fold_released_def n)
  moreover have "fst (fold_entries (snd e) floor (\<lambda>_. 0)) = fst ?f" by (rule fold_entries_cost)
  moreover have "fold_released hs floor cost (r + snd ?f) + (\<Sum>e\<leftarrow>fold_table hs floor. kept_cost cost (snd e))
      = r + snd ?f + (\<Sum>e\<leftarrow>hs. kept_cost cost (snd e))"
    using Cons.prems k by (intro Cons.IH) simp
  ultimately show ?case using k by (simp add: fold_table_def)
qed (simp add: fold_released_def fold_table_def)

lemma fold_identity_retained:
  "retained_exact (fold_identity xof g) = retained_exact g" "g_history_bytes (fold_identity xof g) = g_history_bytes g"
  by (simp_all add: fold_identity_def retained_exact_def dim_defs)

lemma fold_history_accounted:
  assumes "accounted g" "retained_exact g \<le> u64_max"
  shows "accounted (snd (fold_history_before xof floor g))"
    "retained_exact (snd (fold_history_before xof floor g)) + fst (fold_history_before xof floor g) = retained_exact g"
proof -
  let ?f = "fold_history_before xof floor g"
  show sum: "retained_exact (snd ?f) + fst ?f = retained_exact g"
  proof (cases "floor \<le> g_folded_below g")
    case False
    define a where "a = (if g_identity_version g < floor then fold_identity xof g else g)"
    have r: "retained_exact a = retained_exact g" by (simp add: a_def fold_identity_retained)
    let ?c = "\<lambda>hs. \<Sum>e\<leftarrow>hs. kept_cost content_cost (snd e)" and ?s = "\<lambda>hs. \<Sum>e\<leftarrow>hs. kept_cost special_cost (snd e)"
    let ?n = "fold_released (g_content_history a) floor content_cost 0"
    have ra: "retained_exact a = ?c (g_content_history a) + ?s (g_special_history a)"
      by (simp add: retained_exact_def vd_retained_def dim_defs)
    have c: "?n + ?c (fold_table (g_content_history a) floor) = ?c (g_content_history a)"
      using fold_released_kept [where r = 0 and hs = "g_content_history a" and cost = content_cost and floor = floor] assms(2) r ra by simp
    moreover have "fold_released (g_special_history a) floor special_cost ?n + ?s (fold_table (g_special_history a) floor)
        = ?n + ?s (g_special_history a)"
      using c assms(2) r ra by (intro fold_released_kept) simp
    moreover have "fst ?f = fold_released (g_special_history a) floor special_cost ?n"
      "retained_exact (snd ?f) = ?c (fold_table (g_content_history a) floor) + ?s (fold_table (g_special_history a) floor)"
      using False by (simp_all add: fold_history_before_def Let_def a_def [symmetric] retained_exact_def vd_retained_def dim_defs)
    ultimately show ?thesis using r ra by simp
  qed (simp add: fold_history_before_def)
  have "g_history_bytes (snd ?f) = g_history_bytes g - fst ?f"
    by (simp add: fold_history_before_def Let_def fold_identity_retained)
  with sum assms(1) show "accounted (snd ?f)" by (simp add: accounted_def)
qed

text \<open>The loop ends within the budget or at the floor, and says what it released.\<close>

lemma fold_budget_laws:
  assumes "accounted g" "retained_exact g \<le> u64_max" "released + retained_exact g \<le> u64_max"
  shows "accounted (snd (fold_budget_loop xof reachable budget released g))"
    "retained_exact (snd (fold_budget_loop xof reachable budget released g))
       + fst (fold_budget_loop xof reachable budget released g) = retained_exact g + released"
    "g_history_bytes (snd (fold_budget_loop xof reachable budget released g)) \<le> budget
       \<or> min reachable u64_max \<le> g_folded_below (snd (fold_budget_loop xof reachable budget released g))"
    "g_folded_below (snd (fold_budget_loop xof reachable budget released g)) \<le> max (g_folded_below g) reachable"
  using assms
proof (induction xof reachable budget released g rule: fold_budget_loop.induct)
  case (1 xof reachable budget released g)
  let ?run = "g_history_bytes g > budget \<and> g_folded_below g < min reachable u64_max"
  let ?f = "fold_history_before xof (sat_add (g_folded_below g) 1) g"
  let ?l = "fold_budget_loop xof reachable budget (sat_add released (fst ?f)) (snd ?f)"
  have loop: "fold_budget_loop xof reachable budget released g = (if ?run then ?l else (released, g))"
    by (subst fold_budget_loop.simps) (simp add: Let_def case_prod_unfold)
  have step: "accounted (snd ?l)" "retained_exact (snd ?l) + fst ?l = retained_exact g + released"
      "g_history_bytes (snd ?l) \<le> budget \<or> min reachable u64_max \<le> g_folded_below (snd ?l)"
      "g_folded_below (snd ?l) \<le> max (g_folded_below g) reachable"
    if p: "accounted g" "retained_exact g \<le> u64_max" "released + retained_exact g \<le> u64_max" and run: ?run
  proof -
    note f = fold_history_accounted [OF p(1,2), of xof "sat_add (g_folded_below g) 1"]
    have s: "sat_add released (fst ?f) = released + fst ?f" using f(2) p(3) by (intro sat_add_small) simp
    have below: "g_folded_below (snd ?f) = Suc (g_folded_below g)"
      using run by (simp add: folded_below_after sat_add_small max_def)
    have q: "retained_exact (snd ?f) \<le> u64_max" "sat_add released (fst ?f) + retained_exact (snd ?f) \<le> u64_max"
      unfolding s using f(2) p by simp_all
    note ih = "1.IH" [OF run refl refl prod.collapse f(1) q]
    show "accounted (snd ?l)" "retained_exact (snd ?l) + fst ?l = retained_exact g + released"
      "g_history_bytes (snd ?l) \<le> budget \<or> min reachable u64_max \<le> g_folded_below (snd ?l)"
      "g_folded_below (snd ?l) \<le> max (g_folded_below g) reachable"
      using ih below s f(2) run by auto
  qed
  { case 1 then show ?case using step(1) by (cases ?run) (simp_all add: loop) }
  { case 2 then show ?case using step(2) by (cases ?run) (simp_all add: loop) }
  { case 3 then show ?case using step(3) by (cases ?run) (auto simp: loop) }
  { case 4 then show ?case using step(4) by (cases ?run) (auto simp: loop) }
qed

end
