(* ===== verification/Reachable.thy ===== *)
theory Reachable
  imports Identity_Laws Cache_Laws Retention_Laws Rebase
begin

text \<open>
  The greens a service can hold: one seeded from an origin, and what every public operation makes
  of one. The invariant of \<open>Submit_Laws\<close> holds of all of them.
\<close>

section \<open>The seed\<close>

lemma fold_insert_map: "bt_ok es \<Longrightarrow> fold (\<lambda>e. bt_insert (fst e) (f (snd e))) es [] = map (\<lambda>e. (fst e, f (snd e))) es"
proof -
  assume "bt_ok es"
  then have "bt_ok (map (\<lambda>e. (fst e, f (snd e))) es)" by (simp add: bt_ok_map_snd)
  from bt_of_list_id [OF this] show ?thesis
    by (simp add: bt_of_list_def foldl_conv_fold fold_map comp_def case_prod_unfold)
qed

lemma seed_specials:
  "fold (seed_special xof) es g = g\<lparr>
     g_identity := foldl (set_hash_add xof) (g_identity g) (map (\<lambda>e. special_entry (fst e) (snd e)) es),
     g_specials := fold (\<lambda>e. bt_insert (fst e) (snd e)) es (g_specials g),
     g_special_changed := fold (\<lambda>e. bt_insert (fst e) 0) es (g_special_changed g),
     g_special_history := fold (\<lambda>e. bt_insert (fst e) [(0, Some (snd e))]) es (g_special_history g)\<rparr>"
  by (induction es arbitrary: g) (simp_all add: seed_special_def)

lemma seed_files:
  "fold (seed_file xof) es g = g\<lparr>
     g_identity := foldl (set_hash_add xof) (g_identity g) (map (\<lambda>e. file_entry (fst e) (snd e)) es),
     g_content := fold (\<lambda>e. bt_insert (fst e) (snd e)) es (g_content g),
     g_last_changed := fold (\<lambda>e. bt_insert (fst e) 0) es (g_last_changed g),
     g_content_history := fold (\<lambda>e. bt_insert (fst e) [(0, Some (snd e))]) es (g_content_history g)\<rparr>"
  by (induction es arbitrary: g) (simp_all add: seed_file_def)

lemma seed_dirs:
  "distinct ps \<Longrightarrow> set ps \<inter> set (g_dirs g) = {} \<Longrightarrow> fold (seed_dir xof) ps g = g\<lparr>
     g_identity := foldl (set_hash_add xof) (g_identity g) (map dir_entry ps),
     g_dirs := fold bs_insert ps (g_dirs g),
     g_dir_history := fold (\<lambda>p. bt_insert p [(0, True)]) ps (g_dir_history g)\<rparr>"
  by (induction ps arbitrary: g) (auto simp: seed_dir_def bs_mem_def)

lemma seed_modes:
  "fold (seed_mode xof) es g = g\<lparr>
     g_identity := foldl (set_hash_add xof) (g_identity g) (map (\<lambda>e. mode_entry (fst e) (snd e)) es),
     g_modes := fold (\<lambda>e. bt_insert (fst e) (snd e)) es (g_modes g),
     g_mode_changed := fold (\<lambda>e. bt_insert (fst e) 0) es (g_mode_changed g),
     g_mode_history := fold (\<lambda>e. bt_insert (fst e) [(0, Some (snd e))]) es (g_mode_history g)\<rparr>"
  by (induction es arbitrary: g) (simp_all add: seed_mode_def)

lemma seed_symlinks:
  "fold (seed_symlink xof) es g = g\<lparr>
     g_identity := foldl (set_hash_add xof) (g_identity g) (map (\<lambda>e. link_entry symlink_tag (fst e) (snd e)) es),
     g_symlinks := fold (\<lambda>e. bt_insert (fst e) (snd e)) es (g_symlinks g),
     g_symlink_changed := fold (\<lambda>e. bt_insert (fst e) 0) es (g_symlink_changed g),
     g_symlink_history := fold (\<lambda>e. bt_insert (fst e) [(0, Some (snd e))]) es (g_symlink_history g)\<rparr>"
  by (induction es arbitrary: g) (simp_all add: seed_symlink_def)

lemma seed_hardlinks:
  "fold (seed_hardlink xof) es g = g\<lparr>
     g_identity := foldl (set_hash_add xof) (g_identity g) (map (\<lambda>e. link_entry hardlink_tag (fst e) (snd e)) es),
     g_hardlinks := fold (\<lambda>e. bt_insert (fst e) (snd e)) es (g_hardlinks g),
     g_hardlink_changed := fold (\<lambda>e. bt_insert (fst e) 0) es (g_hardlink_changed g),
     g_hardlink_history := fold (\<lambda>e. bt_insert (fst e) [(0, Some (snd e))]) es (g_hardlink_history g)\<rparr>"
  by (induction es arbitrary: g) (simp_all add: seed_hardlink_def)

text \<open>An attribute as an entry of the green's table.\<close>

definition attr_entry :: "path \<times> path \<times> byte list \<Rightarrow> attr_key \<times> byte list" where
  "attr_entry e = (xattr_key e, snd (snd e))"

lemma seed_xattrs:
  "fold (seed_xattr xof) es g = g\<lparr>
     g_identity := foldl (set_hash_add xof) (g_identity g)
       (map (\<lambda>e. xattr_entry (fst (fst e)) (snd (fst e)) (snd e)) (map attr_entry es)),
     g_xattrs := fold (\<lambda>e. bt_insert (fst e) (snd e)) (map attr_entry es) (g_xattrs g),
     g_xattr_changed := fold (\<lambda>e. bt_insert (fst e) 0) (map attr_entry es) (g_xattr_changed g),
     g_xattr_history := fold (\<lambda>e. bt_insert (fst e) [(0, Some (snd e))]) (map attr_entry es) (g_xattr_history g)\<rparr>"
  by (induction es arbitrary: g) (simp_all add: seed_xattr_def attr_entry_def Let_def)

lemma canonical_tables:
  "bt_ok (or_files (origin_canonicalize s))" "bt_ok (or_modes (origin_canonicalize s))"
  "bt_ok (or_symlinks (origin_canonicalize s))" "bt_ok (or_hardlinks (origin_canonicalize s))"
  "bt_ok (or_specials (origin_canonicalize s))" "bt_ok (map attr_entry (or_xattrs (origin_canonicalize s)))"
  "bs_ok (or_dirs (origin_canonicalize s))"
proof -
  show "bt_ok (map attr_entry (or_xattrs (origin_canonicalize s)))"
    using dedup_by_key_sorted [of xattr_key "or_xattrs s"]
    by (simp add: origin_canonicalize_def bt_ok_def attr_entry_def comp_def)
  show "bs_ok (or_dirs (origin_canonicalize s))"
    using dedup_asc [of id "sort (or_dirs s)"] by (simp add: origin_canonicalize_def bs_ok_def sorted_wrt_map)
qed (simp_all add: origin_canonicalize_def dedup_by_key_map)

text \<open>A dimension with every value written at version 0.\<close>

definition seed_dim :: "('k, 'v) btmap \<Rightarrow> ('k, 'v) vdim" where
  "seed_dim es = (es, map (\<lambda>e. (fst e, 0)) es, map (\<lambda>e. (fst e, [(0, Some (snd e))])) es)"

lemma seed_dim_fold:
  assumes "bt_ok es"
  shows "(fold (\<lambda>e. bt_insert (fst e) (snd e)) es [], fold (\<lambda>e. bt_insert (fst e) 0) es [],
     fold (\<lambda>e. bt_insert (fst e) [(0, Some (snd e))]) es []) = seed_dim es"
  using fold_insert_map [OF assms, of "\<lambda>x. x"] fold_insert_map [OF assms, of "\<lambda>x. 0"]
    fold_insert_map [OF assms, of "\<lambda>x. [(0, Some x)]"] by (simp add: seed_dim_def)

lemma seed_dim_inv: "bt_ok es \<Longrightarrow> vd_inv v (seed_dim es)"
proof -
  assume "bt_ok es"
  moreover have "bt_get (map (\<lambda>e. (fst e, 0::ver)) es) k = map_option (\<lambda>_. 0) (bt_get es k)" for k
    using bt_get_map_snd [of "\<lambda>_. 0::ver" es] by simp
  moreover have "bt_get (map (\<lambda>e. (fst e, [(0::ver, Some (snd e))])) es) k = map_option (\<lambda>x. [(0, Some x)]) (bt_get es k)" for k
    using bt_get_map_snd [of "\<lambda>x. [(0::ver, Some x)]" es] by simp
  moreover have "vd_key v x (map_option (\<lambda>_. 0) x) (map_option (\<lambda>x. [(0, Some x)]) x)" for x :: "'b option"
    by (cases x) (simp_all add: hist_ok_def)
  ultimately show ?thesis
    using bt_ok_map_snd [of "\<lambda>_. 0::ver" es] bt_ok_map_snd [of "\<lambda>x. [(0::ver, Some x)]" es]
    by (simp add: vd_inv_def seed_dim_def)
qed

lemma seed_dirs_inv: "bs_ok ps \<Longrightarrow> dd_inv v (fold bs_insert ps [], fold (\<lambda>p. bt_insert p [(0, True)]) ps [])"
proof -
  assume ps: "bs_ok ps"
  have ok: "bt_ok (map (\<lambda>p. (p, ())) ps)" using ps by (simp add: bt_ok_def bs_ok_def comp_def)
  have "fold bs_insert ps [] = ps"
    using ps by (intro bs_ext) (simp_all add: foldl_conv_fold [symmetric] bs_extend_def [symmetric])
  moreover have "fold (\<lambda>p. bt_insert p [(0::ver, True)]) ps [] = map (\<lambda>p. (p, [(0, True)])) ps"
    using fold_insert_map [OF ok, of "\<lambda>_. [(0, True)]"] by (simp add: fold_map comp_def)
  moreover have "bt_get (map (\<lambda>p. (p, [(0::ver, True)])) ps) k = (if k \<in> set ps then Some [(0, True)] else None)" for k
    by (induction ps) auto
  moreover have "bt_ok (map (\<lambda>p. (p, [(0::ver, True)])) ps)" using ok by (simp add: bt_ok_def comp_def)
  ultimately show ?thesis using ps by (simp add: dd_inv_def bs_mem_def hist_ok_def)
qed

lemma vd_retained_seed: "vd_retained cost (seed_dim es) = 0"
  by (simp add: vd_retained_def seed_dim_def comp_def)

text \<open>The seeded green, table by table.\<close>

lemma with_origin_shape:
  fixes s xof
  defines "c \<equiv> origin_canonicalize s" and "g \<equiv> with_origin xof s"
  shows "content_dim g = seed_dim (or_files c)" "special_dim g = seed_dim (or_specials c)"
    "mode_dim g = seed_dim (or_modes c)" "symlink_dim g = seed_dim (or_symlinks c)"
    "hardlink_dim g = seed_dim (or_hardlinks c)" "xattr_dim g = seed_dim (map attr_entry (or_xattrs c))"
    "dir_dim g = (fold bs_insert (or_dirs c) [], fold (\<lambda>p. bt_insert p [(0, True)]) (or_dirs c) [])"
    "g_deltas g = []" "g_identity_version g = 0" "g_identity_dirty g = []" "g_history_bytes g = 0" "g_accepted g = []"
    "g_rejected g = []" "g_rejected_order g = []" "g_rejected_bytes g = 0" "g_rejected_budget g = 0" "g_folded_below g = 0"
    "g_identity g = foldl (set_hash_add xof) set_hash_default (map (\<lambda>e. special_entry (fst e) (snd e)) (or_specials c)
      @ map (\<lambda>e. file_entry (fst e) (snd e)) (or_files c) @ map dir_entry (or_dirs c)
      @ map (\<lambda>e. mode_entry (fst e) (snd e)) (or_modes c)
      @ map (\<lambda>e. link_entry symlink_tag (fst e) (snd e)) (or_symlinks c)
      @ map (\<lambda>e. link_entry hardlink_tag (fst e) (snd e)) (or_hardlinks c)
      @ map (\<lambda>e. xattr_entry (fst (fst e)) (snd (fst e)) (snd e)) (map attr_entry (or_xattrs c)))"
proof -
  note t = canonical_tables [of s, folded c_def]
  note folds = seed_specials seed_files seed_modes seed_symlinks seed_hardlinks seed_xattrs
    seed_dirs [OF bs_ok_distinct [OF t(7)]]
  have w: "g = fold (seed_xattr xof) (or_xattrs c) (fold (seed_hardlink xof) (or_hardlinks c)
      (fold (seed_symlink xof) (or_symlinks c) (fold (seed_mode xof) (or_modes c)
      (fold (seed_dir xof) (or_dirs c) (fold (seed_file xof) (or_files c)
      (fold (seed_special xof) (or_specials c) green_new))))))"
    by (simp add: with_origin_def c_def g_def Let_def)
  show "content_dim g = seed_dim (or_files c)" "special_dim g = seed_dim (or_specials c)"
    "mode_dim g = seed_dim (or_modes c)" "symlink_dim g = seed_dim (or_symlinks c)"
    "hardlink_dim g = seed_dim (or_hardlinks c)" "xattr_dim g = seed_dim (map attr_entry (or_xattrs c))"
    unfolding w by (simp_all add: folds green_new_def dim_defs seed_dim_fold [OF t(1)] seed_dim_fold [OF t(2)]
        seed_dim_fold [OF t(3)] seed_dim_fold [OF t(4)] seed_dim_fold [OF t(5)] seed_dim_fold [OF t(6)])
  show "dir_dim g = (fold bs_insert (or_dirs c) [], fold (\<lambda>p. bt_insert p [(0, True)]) (or_dirs c) [])"
    "g_deltas g = []" "g_identity_version g = 0" "g_identity_dirty g = []" "g_history_bytes g = 0" "g_accepted g = []"
    "g_rejected g = []" "g_rejected_order g = []" "g_rejected_bytes g = 0" "g_rejected_budget g = 0" "g_folded_below g = 0"
    unfolding w by (simp_all add: folds green_new_def dim_defs)
  show "g_identity g = foldl (set_hash_add xof) set_hash_default (map (\<lambda>e. special_entry (fst e) (snd e)) (or_specials c)
      @ map (\<lambda>e. file_entry (fst e) (snd e)) (or_files c) @ map dir_entry (or_dirs c)
      @ map (\<lambda>e. mode_entry (fst e) (snd e)) (or_modes c)
      @ map (\<lambda>e. link_entry symlink_tag (fst e) (snd e)) (or_symlinks c)
      @ map (\<lambda>e. link_entry hardlink_tag (fst e) (snd e)) (or_hardlinks c)
      @ map (\<lambda>e. xattr_entry (fst (fst e)) (snd (fst e)) (snd e)) (map attr_entry (or_xattrs c)))"
    unfolding w by (simp add: folds green_new_def)
qed

lemma with_origin_ok: "green_ok xof (with_origin xof s)" "head (with_origin xof s) = 0"
proof -
  define c where "c = origin_canonicalize s"
  let ?g = "with_origin xof s"
  note t = canonical_tables [of s, folded c_def]
  note d = with_origin_shape [where s = s and xof = xof, folded c_def]
  show hd: "head ?g = 0" by (simp add: head_def d(8))
  have ok: "dims_ok v ?g" for v by (simp add: dims_ok_def d seed_dim_inv t seed_dirs_inv)
  have "fold bs_insert (or_dirs c) [] = or_dirs c"
    using t(7) by (intro bs_ext) (simp_all add: foldl_conv_fold [symmetric] bs_extend_def [symmetric])
  then have "g_identity ?g = foldl (set_hash_add xof) set_hash_default (scratch_entries ?g)"
    using d(1-7) unfolding d(18) by (simp add: scratch_entries_def dim_defs seed_dim_def)
  moreover have "entry_at ?g 0 = entry_now ?g" using entry_at_now [OF ok [of 0], of 0] by auto
  ultimately show "green_ok xof ?g"
    using scratch_sums [OF ok [of 0], of xof] ok by (simp add: green_ok_def identity_ok_def hd d(9,10))
qed

section \<open>Reachable greens\<close>

text \<open>
  The step relation of a green: one rule per public operation that takes the green by exclusive
  reference. The guards are what the machine grants: a version and the bytes of the histories fit
  their words, and the cache's budget is below the largest one.
\<close>

inductive reachable :: "xof \<Rightarrow> green \<Rightarrow> bool" for xof where
  seeded: "reachable xof (with_origin xof s)"
| submitted: "reachable xof g \<Longrightarrow> head g < u64_max \<Longrightarrow> retained_exact (snd (submit inc g)) \<le> u64_max \<Longrightarrow>
    reachable xof (snd (submit inc g))"
| rebased: "reachable xof g \<Longrightarrow> reachable xof (snd (rebase inc g))"
| identified: "reachable xof g \<Longrightarrow> reachable xof (snd (head_identity xof digest g))"
| budgeted: "reachable xof g \<Longrightarrow> n < u64_max \<Longrightarrow> reachable xof (set_rejected_budget n g)"
| forgotten: "reachable xof g \<Longrightarrow> reachable xof (snd (forget_rejected k g))"
| folded: "reachable xof g \<Longrightarrow> reachable xof (snd (fold_history_before xof floor g))"
| folded_to_budget: "reachable xof g \<Longrightarrow> reachable xof (snd (fold_history_to_budget xof floor n g))"

text \<open>Every accepted identity committed one of the versions.\<close>

definition accepted_ok :: "green \<Rightarrow> bool" where
  "accepted_ok g \<longleftrightarrow> bt_ok (g_accepted g) \<and> (\<forall>k v. bt_get (g_accepted g) k = Some v \<longrightarrow> 0 < v \<and> v \<le> head g)"

definition green_inv :: "xof \<Rightarrow> green \<Rightarrow> bool" where
  "green_inv xof g \<longleftrightarrow> green_ok xof g \<and> cache_ok g \<and> accounted g \<and> retained_exact g \<le> u64_max \<and> accepted_ok g"

lemma green_invI:
  assumes "green_inv xof g" "green_ok xof h" "cache_ok h" "accounted h" "retained_exact h \<le> u64_max"
    "g_accepted h = g_accepted g" "head h = head g"
  shows "green_inv xof h"
  using assms by (simp add: green_inv_def accepted_ok_def)

lemma chain_accounting:
  assumes "chain_state a = chain_state b"
  shows "retained_exact a = retained_exact b" "accounted a = accounted b" "g_accepted a = g_accepted b" "head a = head b"
proof -
  have r: "retained_exact (chain_state x) = retained_exact x" for x
    by (simp add: retained_exact_def)
  show "retained_exact a = retained_exact b" using r [of a] r [of b] assms by simp
  moreover have "g_history_bytes a = g_history_bytes b"
    using chain_state_fields(14) [of a] chain_state_fields(14) [of b] assms by simp
  ultimately show "accounted a = accounted b" by (simp add: accounted_def)
  show "g_accepted a = g_accepted b" using chain_state_fields(12) [of a] chain_state_fields(12) [of b] assms by simp
  show "head a = head b" using chain_state_fields(1) [of a] chain_state_fields(1) [of b] assms by simp
qed

lemma green_inv_chain:
  assumes "green_inv xof g" "chain_state h = chain_state g" "cache_ok h"
  shows "green_inv xof h"
  using assms(1,3) green_ok_chain [OF assms(2)] chain_accounting [OF assms(2)]
  by (intro green_invI [OF assms(1)]) (simp_all add: green_inv_def)

lemma with_origin_inv: "green_inv xof (with_origin xof s)"
  using with_origin_ok [of xof s] with_origin_shape [where s = s and xof = xof]
  by (simp add: green_inv_def accepted_ok_def accounted_def retained_exact_def vd_retained_seed cache_ok_def
      cache_wf_def cache_cost_def u64_max_def)

lemma rebase_green: "snd (rebase inc g) = g"
proof -
  obtain d h where d: "decide inc (resolve inc) g = (d, h)" by fastforce
  have "no_hits h = no_hits g" using decide_green [of inc "resolve inc" g] by (simp add: d)
  from no_hits_set [OF this, of "g_fast_path_hits g"] have "h\<lparr>g_fast_path_hits := g_fast_path_hits g\<rparr> = g" by simp
  then show ?thesis by (simp add: rebase_def d split: sum.split)
qed

lemma no_hits_cache: "no_hits a = no_hits b \<Longrightarrow> cache_view a = cache_view b"
  by (drule arg_cong [of _ _ cache_view]) (simp add: no_hits_def cache_view_def)

text \<open>An accepted submit, as the commit it makes.\<close>

lemma accept_commit:
  assumes inv: "green_inv xof g" and hd: "head g < u64_max" and d: "decide inc (resolve inc) g = (Inr es, h)"
    and fresh: "bt_get (g_accepted g) (inc_id inc) = None" "bt_get (g_rejected g) (inc_id inc) = None"
  obtains c where "submit inc g = (Accepted (Suc (head g)), c\<lparr>g_accepted := bt_insert (inc_id inc) (Suc (head g)) (g_accepted g)\<rparr>)"
    "c = commit es (Suc (head g)) h" "green_ok xof h" "no_hits h = no_hits g" "head h = head g"
proof -
  have n: "no_hits h = no_hits g" using decide_green [of inc "resolve inc" g] by (simp add: d)
  have h: "green_ok xof h" using green_ok_chain [OF no_hits_chain [OF n]] inv by (simp add: green_inv_def)
  have hh: "head h = head g" "g_accepted h = g_accepted g" using chain_accounting [OF no_hits_chain [OF n]] by simp_all
  have v: "sat_add (head g) (Suc 0) = Suc (head g)" using hd by (simp add: sat_add_small)
  have "submit inc g = (Accepted (Suc (head g)),
      (commit es (Suc (head g)) h)\<lparr>g_accepted := bt_insert (inc_id inc) (Suc (head g)) (g_accepted g)\<rparr>)"
    using fresh d green_ok_commit(3) [OF h, of es] by (simp add: submit_def Let_def hh v)
  then show ?thesis using that h n hh by blast
qed

lemma submit_inv:
  assumes inv: "green_inv xof g" and hd: "head g < u64_max" and r: "retained_exact (snd (submit inc g)) \<le> u64_max"
  shows "green_inv xof (snd (submit inc g))"
proof (cases rule: submit_cases [of g inc])
  case (accept es h)
  obtain c where c: "submit inc g = (Accepted (Suc (head g)), c\<lparr>g_accepted := bt_insert (inc_id inc) (Suc (head g)) (g_accepted g)\<rparr>)"
    "c = commit es (Suc (head g)) h" "green_ok xof h" "no_hits h = no_hits g" "head h = head g"
    using accept_commit [OF inv hd accept(3,1,2)] by metis
  note k = green_ok_commit [OF c(3), of es, unfolded c(5), folded c(2)]
  note ch = chain_accounting [OF no_hits_chain [OF c(4)]]
  have e: "green_ok xof (x\<lparr>g_accepted := m\<rparr>) = green_ok xof x" "retained_exact (x\<lparr>g_accepted := m\<rparr>) = retained_exact x"
    "accounted (x\<lparr>g_accepted := m\<rparr>) = accounted x" "cache_ok (x\<lparr>g_accepted := m\<rparr>) = cache_ok x" "head (x\<lparr>g_accepted := m\<rparr>) = head x" for x m
    using entries_dims [of "x\<lparr>g_accepted := m\<rparr>" x]
    by (simp_all add: green_ok_def identity_ok_def dim_defs head_def accounted_def cache_ok_def cache_wf_def)
  have "cache_view h = cache_view g" by (rule no_hits_cache [OF c(4)])
  then have "cache_ok c" using inv cache_ok_view [of c g] k(7-10) by (simp add: cache_view_def green_inv_def)
  moreover have "accounted c" using k(6) ch(2) inv r c(1) by (simp add: e green_inv_def)
  ultimately show ?thesis using k(1,2) inv r c(1) by (auto simp: green_inv_def accepted_ok_def e intro: le_SucI)
next
  case (conflict ws h)
  have "cache_ok h"
  proof (cases "bt_get (g_rejected g) (inc_id inc)")
    case None
    obtain d x where d: "decide inc (resolve inc) g = (d, x)" by fastforce
    with conflict(1,2) None have x: "d = Inl ws" "h = retain_rejected (inc_id inc) ws x"
      by (auto simp: submit_def Let_def split: sum.splits)
    have n: "no_hits x = no_hits g" using decide_green [of inc "resolve inc" g] by (simp add: d)
    have v: "cache_view x = cache_view g" by (rule no_hits_cache [OF n])
    then have "cache_ok x" using inv cache_ok_view [of x g] by (simp add: green_inv_def)
    moreover have "ws \<noteq> []" using decide_windows d x(1) by blast
    moreover have "g_rejected x = g_rejected g" using v by (simp add: cache_view_def)
    ultimately show ?thesis using None x(2) retain_ok by simp
  qed (use conflict inv in \<open>simp add: submit_def green_inv_def\<close>)
  then show ?thesis using green_inv_chain [OF inv conflict(3)] conflict(2) by simp
qed (use inv in simp)

lemma fold_identity_inv: "green_inv xof g \<Longrightarrow> green_inv xof (fold_identity xof g)"
proof -
  assume inv: "green_inv xof g"
  let ?f = "fold_identity xof g"
  have "cache_view ?f = cache_view g" "g_accepted ?f = g_accepted g" "head ?f = head g"
    by (simp_all add: fold_identity_def cache_view_def head_def)
  with inv cache_ok_view [of ?f g] show ?thesis
    by (intro green_invI [OF inv])
      (simp_all add: green_inv_def fold_identity_ok fold_identity_retained accounted_def)
qed

lemma fold_history_frame:
  "cache_view (snd (fold_history_before xof floor g)) = cache_view g"
  "g_accepted (snd (fold_history_before xof floor g)) = g_accepted g"
  "head (snd (fold_history_before xof floor g)) = head g"
  "g_deltas (snd (fold_history_before xof floor g)) = g_deltas g"
  by (simp_all add: fold_history_before_def fold_identity_def Let_def cache_view_def head_def)

lemma fold_history_inv: "green_inv xof g \<Longrightarrow> green_inv xof (snd (fold_history_before xof floor g))"
proof -
  assume inv: "green_inv xof g"
  then have a: "accounted g" "retained_exact g \<le> u64_max" by (simp_all add: green_inv_def)
  note f = fold_history_accounted [OF a, of xof floor]
  have "retained_exact (snd (fold_history_before xof floor g)) \<le> u64_max" using f(2) a(2) by linarith
  then show ?thesis
    using inv f(1) fold_history_green_ok cache_ok_view [OF fold_history_frame(1)] fold_history_frame(2,3)
    by (intro green_invI [OF inv]) (simp_all add: green_inv_def)
qed

lemma fold_budget_inv: "green_inv xof g \<Longrightarrow> green_inv xof (snd (fold_budget_loop xof floor budget released g))"
proof (induction xof floor budget released g rule: fold_budget_loop.induct)
  case (1 xof floor budget released g)
  then show ?case
    using fold_history_inv [OF "1.prems", of "sat_add (g_folded_below g) 1"]
    by (subst fold_budget_loop.simps) (auto simp: Let_def split: prod.split)
qed

theorem reachable_inv: "reachable xof g \<Longrightarrow> green_inv xof g"
proof (induction rule: reachable.induct)
  case (budgeted g n)
  then have "cache_ok (set_rejected_budget n g)" by (intro budget_ok) (simp_all add: green_inv_def cache_ok_def)
  then show ?case by (rule green_inv_chain [OF budgeted.IH budget_chain])
next
  case (forgotten g k)
  then have "cache_ok (snd (forget_rejected k g))" by (intro forget_ok) (simp add: green_inv_def)
  then show ?case by (rule green_inv_chain [OF forgotten.IH forget_chain])
qed (simp_all add: with_origin_inv submit_inv rebase_green head_identity_def Let_def fold_identity_inv
      fold_history_inv fold_history_to_budget_def fold_budget_inv)

lemma reachable_ok: "reachable xof g \<Longrightarrow> green_ok xof g"
  using reachable_inv by (simp add: green_inv_def)

end
