(* ===== verification/Engine_Props.thy ===== *)
theory Engine_Props
  imports Reachable
begin

text \<open>
  The properties of the engine over the greens a service can hold: what an accept, a conflict, a
  retry, a fold and a rebase do.
\<close>

section \<open>A green for the witnesses\<close>

definition flat_xof :: xof where
  "flat_xof = (\<lambda>_ _. 0)"

definition plain_origin :: origin where
  "plain_origin = \<lparr>or_files = [(''b'', [2, 3])], or_dirs = [], or_modes = [], or_symlinks = [], or_hardlinks = [],
     or_specials = [], or_xattrs = []\<rparr>"

definition demo_green :: green where
  "demo_green = with_origin flat_xof plain_origin"

definition demo_edit :: increment where
  "demo_edit = \<lparr>inc_id = replicate 32 7, inc_base = 0,
     inc_doc = \<lparr>doc_paths = [''b''], doc_ops =
       [\<lparr>op_kind = KOverwrite, op_flags = 0, op_path = 0, op_at = 1, op_len = 1, op_src = 0\<rparr>]\<rparr>,
     inc_post = [9], inc_evidence = []\<rparr>"

text \<open>The increment of another work over the same byte.\<close>

definition rival_edit :: increment where
  "rival_edit = demo_edit\<lparr>inc_id := replicate 32 8, inc_post := [5]\<rparr>"

text \<open>The green with one file, at its seed.\<close>

definition one_file :: "lanes \<Rightarrow> green" where
  "one_file l = \<lparr>g_identity = l, g_identity_version = 0, g_identity_dirty = [],
     g_content = [(''b'', [2, 3])], g_content_history = [(''b'', [(0, Some [2, 3])])], g_specials = [],
     g_special_history = [], g_special_changed = [], g_dirs = [], g_modes = [], g_symlinks = [], g_hardlinks = [],
     g_xattrs = [], g_dir_history = [], g_mode_history = [], g_symlink_history = [],
     g_hardlink_history = [], g_xattr_history = [], g_deltas = [], g_last_changed = [(''b'', 0)],
     g_mode_changed = [], g_symlink_changed = [], g_hardlink_changed = [], g_xattr_changed = [],
     g_accepted = [], g_rejected = [], g_rejected_order = [], g_rejected_bytes = 0,
     g_rejected_budget = 0, g_rejected_evicted = 0, g_history_bytes = 0, g_folded_below = 0,
     g_fast_path_hits = 0\<rparr>"

lemma demo_reachable: "reachable flat_xof demo_green"
  unfolding demo_green_def by (rule reachable.seeded)

lemma demo_one_file: "demo_green = one_file (g_identity demo_green)"
  by (simp add: demo_green_def with_origin_def plain_origin_def origin_canonicalize_def dedup_by_key_def
      seed_file_def green_new_def one_file_def)

lemma demo_head: "head demo_green = 0" "head demo_green < u64_max"
  by (simp_all add: demo_green_def with_origin_ok u64_max_def)

lemma demo_content: "content_at demo_green ''b'' 0 = Some [2, 3]"
  by (subst demo_one_file) (simp add: one_file_def content_at_def value_at_def history_at_def)

text \<open>The definitions a verdict unfolds on a concrete green.\<close>

lemmas verdict_eval = resolve_def resolve_op_def name_at_def path_at_def to_u16_def resolved_default_def
  clashing_special_def decide_def decide_content_def decide_directories_def decide_metadata_def decide_edit_def
  unfit_content_def fits_base_def record_result_def record_rename_def merge_content_def judge_content_def
  classify_ops_def classify_op_def changed_at_def content_at_def value_at_def history_at_def unwrap_or_def
  bt_contains_def bt_push_def bt_keys_def bt_values_def bs_mem_def bs_extend_def bs_insert_def is_content_def
  cleared_def list_get_def small_ops Let_def

lemmas commit_eval = commit_def commit_effect_def mark_def set_content_def remove_content_def charge_def delta_of_def
  bt_of_list_def head_def insort_insert_key_def

lemma demo_resolve: "resolve demo_edit = resolved_default\<lparr>rs_content := [(''b'', doc_ops (inc_doc demo_edit))]\<rparr>"
  by (simp add: verdict_eval demo_edit_def)

lemma one_file_decide: "fst (decide demo_edit (resolve demo_edit) (one_file l))
   = Inr [SetContent ''b'' [2, 9] (doc_ops (inc_doc demo_edit))]"
  unfolding demo_resolve by (simp add: verdict_eval demo_edit_def one_file_def)

lemma one_file_submit:
  "submit demo_edit (one_file l) = (Accepted 1, (one_file l)\<lparr>g_identity_dirty := [IkFile ''b''],
     g_content := [(''b'', [2, 9])], g_content_history := [(''b'', [(0, Some [2, 3]), (1, Some [2, 9])])],
     g_deltas := [[(''b'', doc_ops (inc_doc demo_edit))]], g_last_changed := [(''b'', 1)],
     g_accepted := [(replicate 32 7, 1)], g_history_bytes := 2, g_fast_path_hits := 1\<rparr>)"
  unfolding submit_def demo_resolve
  by (simp add: verdict_eval commit_eval demo_edit_def one_file_def)

definition demo_green' :: green where
  "demo_green' = snd (submit demo_edit demo_green)"

lemma demo_submit: "submit demo_edit demo_green = (Accepted 1, demo_green')"
  unfolding demo_green'_def by (subst (1 2) demo_one_file) (simp add: one_file_submit)

lemma demo_reachable': "reachable flat_xof demo_green'"
  unfolding demo_green'_def
  by (rule reachable.submitted [OF demo_reachable demo_head(2)])
    (subst demo_one_file, unfold one_file_submit, simp add: one_file_def retained_exact_def dim_defs vd_retained_def
      kept_cost_def content_cost_def u64_max_def)

text \<open>The other work's increment over the byte the first one took.\<close>

definition demo_window :: conflict_window where
  "demo_window = \<lparr>w_path = ''b'', w_range = range_new 1 1, w_class = Overlap\<rparr>"

lemma rival_resolve: "resolve rival_edit = resolved_default\<lparr>rs_content := [(''b'', doc_ops (inc_doc demo_edit))]\<rparr>"
  by (simp add: verdict_eval demo_edit_def rival_edit_def)

lemma rival_judge:
  assumes "bt_get (g_content g) ''b'' = Some [2, 9]"
  shows "judge_content g rival_edit ''b'' (doc_ops (inc_doc demo_edit)) [doc_ops (inc_doc demo_edit)] = Inl [demo_window]"
proof -
  let ?ds = "[doc_ops (inc_doc demo_edit)]"
  have m: "map_range ?ds (range_new 1 1) = Overlaps" "map_range ?ds (range_new 1 0) = Shifted (range_new 1 0)"
    by (simp_all add: demo_edit_def small_ops)
  have b: "slice_get [2, 9 :: byte] 1 2 = Some [9]" "span_bytes (inc_post rival_edit) 0 1 = [5]" "sat_add 1 1 = 2"
    by (simp_all add: rival_edit_def small_ops)
  have "touched_range (hd (doc_ops (inc_doc demo_edit))) = range_new 1 1" by (simp add: demo_edit_def touched_range_def)
  with m b assms show ?thesis
    by (simp add: judge_content_def classify_ops_def classify_op_def identical_span_def unwrap_or_def Let_def
        demo_edit_def demo_window_def range_new_def)
qed

text \<open>The verdict on an increment that only edits one file.\<close>

lemma decide_one_edit:
  assumes "fits_base ops (case content_at g p (inc_base inc) of None \<Rightarrow> 0 | Some bs \<Rightarrow> length bs) (length (inc_post inc))"
    and "fst (merge_content inc p ops g) = Inl (w # ws)"
  shows "fst (decide inc (resolved_default\<lparr>rs_content := [(p, ops)]\<rparr>) g) = Inl (w # ws)"
  using assms
  by (cases "merge_content inc p ops g")
    (simp add: decide_def decide_content_def decide_edit_def decide_directories_def decide_metadata_def
      unfit_content_def resolved_default_def bs_mem_def unwrap_or_def Let_def)

lemma decide_one_effect:
  assumes "fits_base ops (case content_at g p (inc_base inc) of None \<Rightarrow> 0 | Some bs \<Rightarrow> length bs) (length (inc_post inc))"
    and "fst (merge_content inc p ops g) = Inr (Some x)"
  shows "fst (decide inc (resolved_default\<lparr>rs_content := [(p, ops)]\<rparr>) g) = Inr [x]"
  using assms
  by (cases "merge_content inc p ops g")
    (simp add: decide_def decide_content_def decide_edit_def decide_directories_def decide_metadata_def
      unfit_content_def resolved_default_def bs_mem_def unwrap_or_def bt_contains_def Let_def)

lemma rival_conflict: "fst (submit rival_edit demo_green') = OutConflict [demo_window]"
proof -
  have base: "inc_base rival_edit = 0" by (simp add: rival_edit_def demo_edit_def)
  have "fst (decide rival_edit (resolve rival_edit) (snd (submit demo_edit (one_file l)))) = Inl [demo_window]" for l
    unfolding one_file_submit rival_resolve
  proof (rule decide_one_edit, goal_cases)
    case 1
    show ?case by (simp add: one_file_def content_at_def value_at_def history_at_def rival_edit_def)
        (simp add: demo_edit_def small_ops)
  next
    case 2
    show ?case by (simp add: merge_content_def rival_judge one_file_def intervening_def List.map_filter_simps
          bt_contains_def changed_at_def unwrap_or_def base Let_def)
  qed
  moreover have "bt_get (g_accepted (snd (submit demo_edit (one_file l)))) (inc_id rival_edit) = None"
    "bt_get (g_rejected (snd (submit demo_edit (one_file l)))) (inc_id rival_edit) = None" for l
    unfolding one_file_submit by (simp_all add: one_file_def rival_edit_def)
  ultimately have "fst (submit rival_edit (snd (submit demo_edit (one_file l)))) = OutConflict [demo_window]" for l
    by (simp add: submit_def [of rival_edit] split: prod.split sum.split) (metis Inl_Inr_False Inl_inject fst_conv)
  then show ?thesis unfolding demo_green'_def by (subst demo_one_file)
qed

section \<open>The identity\<close>

text \<open>
  C1: on every green a service can reach, the identity \<open>head_identity\<close> keeps up to date entry by
  entry is the one \<open>head_identity_from_scratch\<close> computes from the whole head.
\<close>

theorem identity_is_recount:
  assumes "reachable xof g"
  shows "fst (head_identity xof digest g) = head_identity_from_scratch xof digest g"
  using head_identity_scratch [OF reachable_ok [OF assms]] .

theorem identity_is_recount_witness:
  "fst (head_identity flat_xof (\<lambda>bs. bs) demo_green') = head_identity_from_scratch flat_xof (\<lambda>bs. bs) demo_green'"
  by (rule identity_is_recount [OF demo_reachable'])

section \<open>Accepting\<close>

lemma content_dims: "content g p = vd_cur (content_dim g) p" "content_at g p w = vd_at (content_dim g) w p"
  by (simp_all add: content_def vd_cur_def content_at_def vd_at_def content_dim_def)

text \<open>What an accepted increment did, over the invariant.\<close>

lemma accepted_laws:
  assumes "green_inv xof g" "head g < u64_max" "bt_get (g_accepted g) (inc_id inc) = None" "submit inc g = (Accepted v, g')"
  obtains es h where "decide inc (resolve inc) g = (Inr es, h)" "v = Suc (head g)" "head g' = v" "green_ok xof g'"
    "same_past v g g'" "content_dim g' = vd.puts v (content_changes es) (content_dim g)"
    "g_accepted g' = bt_insert (inc_id inc) v (g_accepted g)" "g_deltas g' = g_deltas g @ [delta_of (concat (map staged_set es))]"
proof (cases rule: submit_cases [of g inc])
  case (accept es h)
  obtain c where c: "submit inc g = (Accepted (Suc (head g)), c\<lparr>g_accepted := bt_insert (inc_id inc) (Suc (head g)) (g_accepted g)\<rparr>)"
    "c = commit es (Suc (head g)) h" "green_ok xof h" "no_hits h = no_hits g" "head h = head g"
    using accept_commit [OF assms(1,2) accept(3,1,2)] by metis
  note k = green_ok_commit [OF c(3), of es, unfolded c(5), folded c(2)]
  have d: "content_dim h = content_dim g" "g_deltas h = g_deltas g" "same_past n h x = same_past n g x" for n x
    using arg_cong [OF no_hits_chain [OF c(4)], of content_dim] arg_cong [OF no_hits_chain [OF c(4)], of g_deltas]
      arg_cong [OF no_hits_chain [OF c(4)], of "\<lambda>y. same_past n y x"] by (simp_all add: same_past_def)
  have e: "green_ok xof (x\<lparr>g_accepted := m\<rparr>) = green_ok xof x" "head (x\<lparr>g_accepted := m\<rparr>) = head x"
    "same_past n y (x\<lparr>g_accepted := m\<rparr>) = same_past n y x" "content_dim (x\<lparr>g_accepted := m\<rparr>) = content_dim x" for x m n y
    using entries_dims [of "x\<lparr>g_accepted := m\<rparr>" x]
    by (simp_all add: green_ok_def identity_ok_def dim_defs head_def same_past_def)
  show ?thesis
    using that [OF accept(3)] assms(4) k c(1) by (auto simp: e d)
qed (use assms in simp_all)

text \<open>
  C4: a submit keeps every version it finds. Whatever it answers, the content, the IPC inode, the
  mode, the link targets, the attributes and the directories at each version up to the old head
  read as before.
\<close>

theorem submit_keeps_versions:
  assumes "reachable xof g" "head g < u64_max" "w \<le> head g"
  shows "entry_at (snd (submit inc g)) w = entry_at g w \<and> (\<forall>p. content_at (snd (submit inc g)) p w = content_at g p w)"
proof -
  have inv: "green_inv xof g" by (rule reachable_inv [OF assms(1)])
  have "entry_at (snd (submit inc g)) w = entry_at g w \<and> vd_at (content_dim (snd (submit inc g))) w = vd_at (content_dim g) w"
  proof (cases rule: submit_cases [of g inc])
    case (conflict ws h)
    note c = arg_cong [OF conflict(3)]
    show ?thesis using entries_dims(1) [of h g w] conflict(2) c [of content_dim] c [of special_dim] c [of mode_dim]
      c [of symlink_dim] c [of hardlink_dim] c [of xattr_dim] c [of dir_dim] by simp
  next
    case (accept es h)
    have "same_past (Suc (head g)) g (snd (submit inc g))"
      using accepted_laws [OF inv assms(2) accept(1,5)] accept(5) by (metis snd_conv)
    then show ?thesis using entry_at_past assms(3) by (simp add: same_past_def)
  qed simp
  then show ?thesis by (auto simp: content_at_def vd_at_def content_dim_def fun_eq_iff)
qed

theorem submit_keeps_versions_witness: "content_at (snd (submit demo_edit demo_green)) ''b'' 0 = Some [2, 3]"
  using submit_keeps_versions [OF demo_reachable, of 0 demo_edit]
  by (simp add: demo_head demo_content u64_max_def)

text \<open>
  C5: an increment that was not accepted before and is accepted now makes the version after the
  head: the head moves to it, its identity is recorded with it, and each file reads at it what
  the accepted effects say, removals first, and what it was where they say nothing.
\<close>

theorem submit_makes_next_version:
  assumes "reachable xof g" "head g < u64_max" "bt_get (g_accepted g) (inc_id inc) = None"
    and "submit inc g = (Accepted v, g')"
  shows "v = head g + 1 \<and> head g' = v \<and> bt_get (g_accepted g') (inc_id inc) = Some v
    \<and> (\<exists>es. fst (decide inc (resolve inc) g) = Inr es
         \<and> (\<forall>p. content g' p = (case map_of (rev (content_changes es)) p of None \<Rightarrow> content g p | Some x \<Rightarrow> x)
              \<and> content_at g' p v = content g' p))"
proof -
  have inv: "green_inv xof g" by (rule reachable_inv [OF assms(1)])
  then have ok: "vd_inv (Suc (head g)) (content_dim g)"
    using dims_ok_mono [of "head g" g "Suc (head g)"] by (simp add: green_inv_def green_ok_def dims_ok_def)
  obtain es h where e: "decide inc (resolve inc) g = (Inr es, h)" "v = Suc (head g)" "head g' = v"
    "content_dim g' = vd.puts v (content_changes es) (content_dim g)"
    "g_accepted g' = bt_insert (inc_id inc) v (g_accepted g)"
    using accepted_laws [OF inv assms(2-4)] by metis
  show ?thesis using e ok by (auto simp: content_dims vd.puts_cur vd.puts_at_new split: option.split)
qed

theorem submit_makes_next_version_witness:
  "head demo_green' = 1 \<and> bt_get (g_accepted demo_green') (inc_id demo_edit) = Some 1
     \<and> content_at demo_green' ''b'' 1 = content demo_green' ''b''"
proof -
  have "bt_get (g_accepted demo_green) (inc_id demo_edit) = None" by (subst demo_one_file) (simp add: one_file_def)
  from submit_makes_next_version [OF demo_reachable demo_head(2) this demo_submit] show ?thesis by blast
qed

section \<open>Retrying\<close>

lemma commit_now_accepted: "g_accepted (commit_now v e g) = g_accepted g"
proof -
  have x: "g_accepted (fold (drop_xattr v) ks h) = g_accepted h" for ks h
    by (induction ks arbitrary: h) (simp_all add: drop_xattr_def mark_def)
  show ?thesis
    by (cases e) (simp_all add: commit_special_def remove_special_def Let_def charge_def x drop_mode_def mark_def)
qed

lemma commit_accepted: "g_accepted (commit es v g) = g_accepted g"
proof -
  have a: "g_accepted (fst (fold (commit_effect v) es st)) = g_accepted (fst st)" for st
    by (induction es arbitrary: st) (simp_all add: commit_effect_def commit_now_accepted mark_def case_prod_unfold)
  have b: "g_accepted (fold (remove_content v) rs h) = g_accepted h" for rs h
    by (induction rs arbitrary: h) (simp_all add: remove_content_def charge_def split: option.split)
  have c: "g_accepted (fold (set_content v) ss h) = g_accepted h" for ss h
    by (induction ss arbitrary: h) (simp_all add: set_content_def charge_def case_prod_unfold split: option.split)
  show ?thesis using a [of "(g, [], [])"] by (simp add: commit_def b c case_prod_unfold Let_def)
qed

lemma submit_keeps_accepted:
  "bt_get (g_accepted g) k = Some v \<Longrightarrow> bt_get (g_accepted (snd (submit inc g))) k = Some v"
proof (cases rule: submit_cases [of g inc])
  case (conflict ws h)
  assume "bt_get (g_accepted g) k = Some v"
  moreover have "g_accepted h = g_accepted g" using arg_cong [OF conflict(3), of g_accepted] by simp
  ultimately show ?thesis using conflict(2) by simp
next
  case (accept es h)
  assume "bt_get (g_accepted g) k = Some v"
  moreover have "g_accepted h = g_accepted g" using arg_cong [OF no_hits_chain [OF accept(4)], of g_accepted] by simp
  ultimately show ?thesis using accept(1,5) by (auto simp: commit_accepted)
qed simp

lemma submit_records: "submit inc g = (Accepted v, g') \<Longrightarrow> bt_get (g_accepted g') (inc_id inc) = Some v"
  by (cases rule: submit_cases [of g inc]) auto

text \<open>
  C9: submitting is idempotent. Once an increment was accepted as a version, submitting it again,
  after any submits of others, answers that version and changes nothing.
\<close>

theorem accepted_retry:
  assumes "submit inc g = (Accepted v, g')"
  shows "submit inc (fold (\<lambda>i h. snd (submit i h)) later g') = (Accepted v, fold (\<lambda>i h. snd (submit i h)) later g')"
proof -
  have "bt_get (g_accepted (fold (\<lambda>i h. snd (submit i h)) later h)) (inc_id inc) = Some v"
    if "bt_get (g_accepted h) (inc_id inc) = Some v" for h
    using that by (induction later arbitrary: h) (simp_all add: submit_keeps_accepted)
  from this [OF submit_records [OF assms]] show ?thesis by (simp add: submit_def)
qed

theorem accepted_retry_witness:
  "submit demo_edit (snd (submit rival_edit demo_green')) = (Accepted 1, snd (submit rival_edit demo_green'))"
  using accepted_retry [OF demo_submit, of "[rival_edit]"] by simp

section \<open>Refusing\<close>

lemma retain_rejected_get:
  "rejected_entry_bytes ws \<le> g_rejected_budget g \<Longrightarrow> bt_get (g_rejected (retain_rejected k ws g)) k = Some ws"
  by (simp add: retain_rejected_def Let_def)

text \<open>
  C10: a conflict is a refusal with a reason. It names at least one window, leaves every part of the
  green but the rejected-result cache and the counters as it was, and, when the cache can hold
  it, a retry answers the same windows and changes nothing.
\<close>

theorem conflict_changes_nothing:
  assumes "reachable xof g" "submit inc g = (OutConflict ws, g')"
  shows "ws \<noteq> [] \<and> chain_state g' = chain_state g
    \<and> (rejected_entry_bytes ws \<le> g_rejected_budget g \<longrightarrow> submit inc g' = (OutConflict ws, g'))"
proof (cases "bt_get (g_rejected g) (inc_id inc)")
  case (Some us)
  moreover have "bt_get (g_accepted g) (inc_id inc) = None" using assms(2) by (auto simp: submit_def split: option.splits)
  moreover have "us \<noteq> []" using reachable_inv [OF assms(1)] Some by (auto simp: green_inv_def cache_ok_def cache_wf_def)
  ultimately show ?thesis using assms(2) by (auto simp: submit_def)
next
  case None
  have fresh: "bt_get (g_accepted g) (inc_id inc) = None" using assms(2) by (auto simp: submit_def split: option.splits)
  obtain h where d: "decide inc (resolve inc) g = (Inl ws, h)" "g' = retain_rejected (inc_id inc) ws h"
    using assms(2) fresh None by (auto simp: submit_def Let_def split: prod.splits sum.splits)
  have n: "no_hits h = no_hits g" using decide_green [of inc "resolve inc" g] by (simp add: d)
  have c: "chain_state g' = chain_state g" using no_hits_chain [OF n] by (simp add: d(2))
  have a: "g_accepted g' = g_accepted g" using arg_cong [OF c, of g_accepted] by simp
  have "g_rejected_budget h = g_rejected_budget g" using no_hits_cache [OF n] by (simp add: cache_view_def)
  then show ?thesis
    using decide_windows [OF d(1)] c a fresh retain_rejected_get [of ws h "inc_id inc"] by (simp add: d(2) submit_def)
qed

theorem conflict_changes_nothing_witness: "chain_state (snd (submit rival_edit demo_green')) = chain_state demo_green'"
  using conflict_changes_nothing [OF demo_reachable', of rival_edit "[demo_window]"] rival_conflict
  by (metis prod.collapse)

section \<open>Editing a file\<close>

lemma touched_start [simp]: "r_start (touched_range p) = op_at p"
  by (cases "op_kind p") (simp_all add: touched_range_def range_new_def)

text \<open>Pass one places every operation the deltas in between leave apart.\<close>

lemma classify_moved: "those (map (move_op between) ops) = Some moved \<Longrightarrow> classify_ops between ops = (moved, [], None)"
proof -
  have "fold (classify_op between) ops (acc, [], None) = (acc @ moved, [], None)"
    if "those (map (move_op between) ops) = Some moved" for acc
    using that
    by (induction ops arbitrary: moved acc)
      (auto simp: classify_op_def move_op_def Let_def split: mapped.splits option.splits)
  then show "those (map (move_op between) ops) = Some moved \<Longrightarrow> classify_ops between ops = (moved, [], None)"
    by (simp add: classify_ops_def)
qed

lemma judge_moved:
  assumes "those (map (move_op between) ops) = Some moved" "ops \<noteq> []" "bt_get (g_content g) p = Some current"
  shows "judge_content g inc p ops between = Inr (Some (SetContent p (apply_ops current moved (inc_post inc)) moved))"
proof -
  have "moved \<noteq> []" using assms(1,2) by (auto simp: those_map_Some)
  then show ?thesis using assms(3) by (simp add: judge_content_def classify_moved [OF assms(1)] unwrap_or_def Let_def)
qed

text \<open>A first submit of an increment whose verdict is a list of effects.\<close>

lemma accepted_contents:
  assumes "green_inv xof g" "head g < u64_max" "bt_get (g_accepted g) (inc_id inc) = None" "bt_get (g_rejected g) (inc_id inc) = None"
    and "fst (decide inc (resolve inc) g) = Inr es"
  shows "fst (submit inc g) = Accepted (head g + 1)"
    "content (snd (submit inc g)) p = (case map_of (rev (content_changes es)) p of None \<Rightarrow> content g p | Some x \<Rightarrow> x)"
proof -
  obtain h where h: "decide inc (resolve inc) g = (Inr es, h)" using assms(5) by (metis prod.collapse)
  then obtain v g' where s: "submit inc g = (Accepted v, g')" using assms(3,4) by (auto simp: submit_def Let_def)
  have ok: "vd_inv (Suc (head g)) (content_dim g)"
    using assms(1) dims_ok_mono [of "head g" g "Suc (head g)"] by (simp add: green_inv_def green_ok_def dims_ok_def)
  have v: "v = Suc (head g)" "content_dim g' = vd.puts v (content_changes es) (content_dim g)"
    using accepted_laws [OF assms(1-3) s] h by (metis Pair_inject sum.inject(2))+
  show "fst (submit inc g) = Accepted (head g + 1)" using s v(1) by simp
  show "content (snd (submit inc g)) p = (case map_of (rev (content_changes es)) p of None \<Rightarrow> content g p | Some x \<Rightarrow> x)"
    using s v ok by (simp add: content_dims vd.puts_cur split: option.split)
qed

text \<open>A value unchanged since a version is the one of that version.\<close>

lemma vd_at_since:
  assumes "vd_inv v s" "vd_cur s k \<noteq> None" "changed_at (fst (snd s)) k \<le> w"
  shows "vd_at s w k = vd_cur s k"
proof -
  have key: "vd_key v (bt_get (fst s) k) (bt_get (fst (snd s)) k) (bt_get (snd (snd s)) k)" using assms(1) by (simp add: vd_inv_def)
  then obtain h where h: "bt_get (snd (snd s)) k = Some h" "h \<noteq> []" "bt_get (fst s) k = snd (last h)" "fst (last h) \<le> w"
    using assms(2,3) by (cases "bt_get (snd (snd s)) k") (auto simp: vd_cur_def changed_at_def unwrap_or_def hist_ok_def)
  then show ?thesis using history_at_last [OF h(2,4)] by (simp add: vd_at_def vd_cur_def value_at_def)
qed

lemma resolve_content_ok: "bt_ok (rs_content (resolve inc))"
proof -
  have "bt_ok (rs_content (fold (resolve_op inc) ops r))" if "bt_ok (rs_content r)" for ops r
    using that
  proof (induction ops arbitrary: r)
    case (Cons p ops)
    have "bt_ok (rs_content (resolve_op inc p r))"
      using Cons.prems by (cases "op_kind p") (simp_all add: resolve_op_def Let_def split: sum.split option.split)
    then show ?case using Cons.IH by simp
  qed simp
  then show ?thesis by (simp add: resolve_def Let_def resolved_default_def)
qed

lemma map_of_rev_values:
  assumes "bt_ok es"
  shows "map_of (rev (map (\<lambda>e. (fst e, f (fst e) (snd e))) es)) k = map_option (f k) (bt_get es k)"
proof -
  let ?m = "map (\<lambda>e. (fst e, f (fst e) (snd e))) es"
  have "distinct (map fst ?m)" using assms strict_sorted_iff [of "map fst es"] by (simp add: bt_ok_def comp_def)
  then have "map_of (rev ?m) = map_of ?m" by (subst map_of_inject_set) (simp_all add: rev_map [symmetric])
  moreover have "map_of ?m k = map_option (f k) (map_of es k)" by (induction es) auto
  ultimately show ?thesis by (simp add: bt_get_def)
qed

text \<open>The verdict on an increment that only edits files unchanged since its base.\<close>

definition edit_fits :: "green \<Rightarrow> increment \<Rightarrow> path \<times> op list \<Rightarrow> bool" where
  "edit_fits g inc e \<longleftrightarrow> fits_base (snd e) (length (the (content g (fst e)))) (length (inc_post inc))"

definition edit_effect :: "green \<Rightarrow> increment \<Rightarrow> path \<times> op list \<Rightarrow> effect" where
  "edit_effect g inc e = SetContent (fst e) (apply_ops (the (content g (fst e))) (snd e) (inc_post inc)) (snd e)"

lemma unchanged_merge:
  assumes "content g p = Some current" "changed_at (g_last_changed g) p \<le> inc_base inc" "ops \<noteq> []"
  shows "merge_content inc p ops (g\<lparr>g_fast_path_hits := n\<rparr>)
    = (Inr (Some (edit_effect g inc (p, ops))), g\<lparr>g_fast_path_hits := sat_add n 1\<rparr>)"
proof -
  have "move_op [] = Some" by (rule ext) (simp add: move_op_def)
  then have "those (map (move_op []) ops) = Some ops" by (simp add: those_map_Some)
  with assms show ?thesis
    by (simp add: merge_content_def judge_moved bt_contains_def Let_def content_def edit_effect_def)
qed

lemma decide_edits:
  assumes inv: "green_inv xof g"
    and es: "\<forall>(p, ops) \<in> set es. ops \<noteq> [] \<and> content g p \<noteq> None \<and> changed_at (g_last_changed g) p \<le> inc_base inc"
  shows "fst (decide inc (resolved_default\<lparr>rs_content := es\<rparr>) g) =
    (if list_all (edit_fits g inc) es then Inr (map (edit_effect g inc) es)
     else Inl (map (\<lambda>e. window (fst e) TypeChanged) (filter (\<lambda>e. \<not> edit_fits g inc e) es)))"
proof -
  let ?r = "resolved_default\<lparr>rs_content := es\<rparr>"
  have d: "vd_inv (head g) (content_dim g)" using inv by (simp add: green_inv_def green_ok_def dims_ok_def)
  have "content_at g (fst e) (inc_base inc) = content g (fst e)" if "e \<in> set es" for e
    using vd_at_since [OF d, of "fst e" "inc_base inc"] es that by (auto simp: content_dims content_dim_def)
  then have u: "unfit_content g inc ?r = map fst (filter (\<lambda>e. \<not> edit_fits g inc e) es)"
    using es unfolding unfit_content_def edit_fits_def
    by (auto simp: resolved_default_def bs_mem_def unwrap_or_def Let_def split: option.split intro!: arg_cong [where f = "map fst"] filter_cong)
  have f: "\<exists>m. fold (decide_edit inc ?r) xs ((effects, windows), g\<lparr>g_fast_path_hits := n\<rparr>)
      = ((effects @ map (edit_effect g inc) xs, windows), g\<lparr>g_fast_path_hits := m\<rparr>)" if "set xs \<subseteq> set es" for xs effects windows n
    using that
  proof (induction xs arbitrary: effects n)
    case Nil
    show ?case by (intro exI [of _ n]) simp
  next
    case (Cons e xs)
    obtain p ops current where e: "e = (p, ops)" "content g p = Some current" "changed_at (g_last_changed g) p \<le> inc_base inc" "ops \<noteq> []"
      using es Cons.prems by (cases e) fastforce
    show ?case using Cons.IH [of "effects @ [edit_effect g inc e]" "sat_add n 1"] Cons.prems unchanged_merge [OF e(2-4), of n]
      by (simp add: e(1) decide_edit_def resolved_default_def bs_mem_def bt_contains_def)
  qed
  have h: "g\<lparr>g_fast_path_hits := g_fast_path_hits g\<rparr> = g" by simp
  have r: "rs_content ?r = es" "rs_creates ?r = []" "rs_specials ?r = []" "rs_invalid ?r = []" "rs_unlinks ?r = []" "rs_mkdirs ?r = []"
    "rs_rmdirs ?r = []" "rs_modes ?r = []" "rs_symlinks ?r = []" "rs_hardlinks ?r = []" "rs_renames ?r = []"
    "rs_xattr_sets ?r = []" "rs_xattr_removes ?r = []" by (simp_all add: resolved_default_def)
  let ?w = "map (\<lambda>p. window p TypeChanged) (unfit_content g inc ?r)"
  obtain m where "fold (decide_edit inc ?r) es (([], ?w), g) = ((map (edit_effect g inc) es, ?w), g\<lparr>g_fast_path_hits := m\<rparr>)"
    using f [of es "[]" ?w "g_fast_path_hits g"] unfolding h by auto
  then have "fst (decide inc ?r g) = (if ?w = [] then Inr (map (edit_effect g inc) es) else Inl ?w)"
    unfolding decide_def decide_content_def decide_directories_def decide_metadata_def Let_def r by simp
  then show ?thesis by (simp add: u filter_empty_conv list_all_iff comp_def)
qed

text \<open>
  C33: an increment that only edits files of the head unchanged since its base is refused exactly for
  the edits that do not fit their file. When every edit fits, it is accepted as the next version:
  each edited file becomes its operations applied where they are declared, and every other file is
  kept. Otherwise the conflict names the files whose edits do not fit.
\<close>

theorem unchanged_file_takes_edit:
  assumes "reachable xof g" "head g < u64_max"
    and "bt_get (g_accepted g) (inc_id inc) = None" "bt_get (g_rejected g) (inc_id inc) = None"
    and "resolve inc = resolved_default\<lparr>rs_content := es\<rparr>"
    and "\<forall>(p, ops) \<in> set es. ops \<noteq> [] \<and> content g p \<noteq> None \<and> changed_at (g_last_changed g) p \<le> inc_base inc"
  shows "if list_all (edit_fits g inc) es
     then fst (submit inc g) = Accepted (head g + 1)
       \<and> (\<forall>p. content (snd (submit inc g)) p = (case bt_get es p of None \<Rightarrow> content g p
            | Some ops \<Rightarrow> Some (apply_ops (the (content g p)) ops (inc_post inc))))
     else fst (submit inc g) = OutConflict (map (\<lambda>e. window (fst e) TypeChanged) (filter (\<lambda>e. \<not> edit_fits g inc e) es))"
proof -
  have inv: "green_inv xof g" by (rule reachable_inv [OF assms(1)])
  note d = decide_edits [OF inv assms(6), folded assms(5)]
  show ?thesis
  proof (cases "list_all (edit_fits g inc) es")
    case False
    then show ?thesis using d assms(3,4) by (auto simp: submit_def split: prod.split)
  next
    case True
    then have d': "fst (decide inc (resolve inc) g) = Inr (map (edit_effect g inc) es)" using d by simp
    have "content_changes (map (edit_effect g inc) es)
        = map (\<lambda>e. (fst e, Some (apply_ops (the (content g (fst e))) (snd e) (inc_post inc)))) es"
      by (simp add: content_changes_def edit_effect_def comp_def)
    moreover have "bt_ok es" using resolve_content_ok [of inc] assms(5) by simp
    ultimately have "map_of (rev (content_changes (map (edit_effect g inc) es))) p
        = map_option (\<lambda>ops. Some (apply_ops (the (content g p)) ops (inc_post inc))) (bt_get es p)" for p
      using map_of_rev_values [of es "\<lambda>p ops. Some (apply_ops (the (content g p)) ops (inc_post inc))"] by simp
    then show ?thesis using True accepted_contents [OF inv assms(2-4) d'] by (auto split: option.split)
  qed
qed

theorem unchanged_file_takes_edit_witness:
  "fst (submit demo_edit demo_green) = Accepted 1 \<and> content (snd (submit demo_edit demo_green)) ''b'' = Some [2, 9]"
proof -
  let ?es = "[(''b'', doc_ops (inc_doc demo_edit))]"
  have g: "bt_get (g_accepted demo_green) (inc_id demo_edit) = None" "bt_get (g_rejected demo_green) (inc_id demo_edit) = None"
    "content demo_green ''b'' = Some [2, 3]" "changed_at (g_last_changed demo_green) ''b'' = 0"
    by (subst demo_one_file, simp add: one_file_def content_def changed_at_def unwrap_or_def)+
  have a: "apply_ops [2, 3] (doc_ops (inc_doc demo_edit)) (inc_post demo_edit) = [2, 9]" "list_all (edit_fits demo_green demo_edit) ?es"
    by (simp_all add: edit_fits_def g(3)) (simp_all add: demo_edit_def fits_base_def small_ops)
  show ?thesis
    using unchanged_file_takes_edit [OF demo_reachable demo_head(2) g(1,2) demo_resolve] g(3,4) a demo_head(1)
    by (simp add: demo_edit_def)
qed

text \<open>
  C3: an increment that edits one file behind one accepted delta of it, touched nowhere by it, is
  accepted and gives the content both orders give, provided neither of the two truncates a file the
  other adds bytes to at its end: the accepted delta's operations move through the edit as well,
  applying them over the edited base is what the file becomes, and every other file is kept.
\<close>

theorem lagging_edit_commutes:
  assumes "reachable xof g" "head g < u64_max"
    and "bt_get (g_accepted g) (inc_id inc) = None" "bt_get (g_rejected g) (inc_id inc) = None"
    and "resolve inc = resolved_default\<lparr>rs_content := [(p, A)]\<rparr>" "content_at g p (inc_base inc) = Some b"
    and "net_ops (length b) pi I" "net_ops (length b) (inc_post inc) A" "A \<noteq> []"
    and "length (apply_ops b I pi) \<le> u64_max" "length (apply_ops b A (inc_post inc)) \<le> u64_max"
    and "content g p = Some (apply_ops b I pi)"
    and "inc_base inc < changed_at (g_last_changed g) p" "intervening g p (inc_base inc) = [I]"
    and "those (map (move_op [I]) A) = Some A'" "tail_safe (length b) A I" "tail_safe (length b) I A"
  shows "fst (submit inc g) = Accepted (head g + 1)
    \<and> (\<exists>I'. those (map (move_op [A]) I) = Some I'
         \<and> content (snd (submit inc g)) p = Some (apply_ops (apply_ops b A (inc_post inc)) I' pi))
    \<and> (\<forall>q. q \<noteq> p \<longrightarrow> content (snd (submit inc g)) q = content g q)"
proof -
  obtain I' where i: "those (map (move_op [A]) I) = Some I'"
    "apply_ops (apply_ops b I pi) A' (inc_post inc) = apply_ops (apply_ops b A (inc_post inc)) I' pi"
    using deltas_commute [OF assms(7,8,10,11,15-17)] by blast
  have c: "bt_get (g_content g) p = Some (apply_ops b I pi)" using assms(12) by (simp add: content_def)
  have m: "fst (merge_content inc p A g) = Inr (Some (SetContent p (apply_ops (apply_ops b I pi) A' (inc_post inc)) A'))"
    using judge_moved [OF assms(15,9) c, of inc] c assms(13,14) by (simp add: merge_content_def bt_contains_def Let_def)
  have "fits_base A (length b) (length (inc_post inc))" using assms(8) by (simp add: net_ops_def)
  then have "fst (decide inc (resolve inc) g) = Inr [SetContent p (apply_ops (apply_ops b I pi) A' (inc_post inc)) A']"
    unfolding assms(5) using m assms(6) by (intro decide_one_effect) simp_all
  note s = accepted_contents [OF reachable_inv [OF assms(1)] assms(2-4) this]
  show ?thesis using s i by (auto simp: content_changes_def)
qed

definition demo_prepend :: increment where
  "demo_prepend = demo_edit\<lparr>inc_id := replicate 32 6, inc_post := [4, 4],
     inc_doc := \<lparr>doc_paths = [''b''], doc_ops = [demo_insert]\<rparr>\<rparr>"

lemma prepend_resolve: "resolve demo_prepend = resolved_default\<lparr>rs_content := [(''b'', [demo_insert])]\<rparr>"
  by (simp add: verdict_eval demo_prepend_def demo_edit_def demo_insert_def)

theorem lagging_edit_commutes_witness:
  "fst (submit demo_prepend demo_green') = Accepted 2
   \<and> (\<exists>I'. those (map (move_op [[demo_insert]]) (doc_ops (inc_doc demo_edit))) = Some I'
     \<and> content (snd (submit demo_prepend demo_green')) ''b'' = Some (apply_ops (apply_ops [2, 3] [demo_insert] [4, 4]) I' [9]))"
proof -
  obtain l where g: "demo_green' = snd (submit demo_edit (one_file l))" unfolding demo_green'_def using demo_one_file by metis
  have h: "head demo_green' = 1" unfolding g one_file_submit by (simp add: head_def)
  have "fst (submit demo_prepend demo_green') = Accepted (head demo_green' + 1)
    \<and> (\<exists>I'. those (map (move_op [[demo_insert]]) (doc_ops (inc_doc demo_edit))) = Some I'
         \<and> content (snd (submit demo_prepend demo_green')) ''b'' = Some (apply_ops (apply_ops [2, 3] [demo_insert] (inc_post demo_prepend)) I' [9]))
    \<and> (\<forall>q. q \<noteq> ''b'' \<longrightarrow> content (snd (submit demo_prepend demo_green')) q = content demo_green' q)"
  proof (rule lagging_edit_commutes [OF demo_reachable' _ _ _ prepend_resolve], goal_cases)
    case 1
    show ?case by (simp add: h u64_max_def)
  next
    case 2
    show ?case unfolding g one_file_submit by (simp add: one_file_def demo_prepend_def)
  next
    case 3
    show ?case unfolding g one_file_submit by (simp add: one_file_def demo_prepend_def)
  next
    case 4
    show ?case unfolding g one_file_submit by (simp add: one_file_def content_at_def value_at_def history_at_def demo_prepend_def demo_edit_def)
  next
    case 10
    show ?case unfolding g one_file_submit by (simp add: one_file_def content_def) (simp add: demo_edit_def small_ops)
  next
    case 11
    show ?case unfolding g one_file_submit by (simp add: one_file_def changed_at_def unwrap_or_def demo_prepend_def demo_edit_def)
  next
    case 12
    show ?case unfolding g one_file_submit
      by (simp add: one_file_def intervening_def List.map_filter_simps demo_prepend_def demo_edit_def)
  qed (simp_all add: demo_edit_def demo_prepend_def demo_insert_def small_ops)
  then show ?thesis by (auto simp: h demo_prepend_def)
qed

section \<open>Retention\<close>

lemma fold_table_reads:
  assumes "floor \<le> w"
  shows "table_at (fold_table hs floor) w = table_at hs w"
    "value_at (fold_table ks floor) w k = value_at ks w k"
    "filter (\<lambda>e. present_at (snd e) w) (fold_table bs floor) = map (\<lambda>e. (fst e, fst (fold_entries (snd e) floor (\<lambda>_. 0))))
       (filter (\<lambda>e. present_at (snd e) w) bs)"
    "paths_changed_in (fold_table cs floor) w to = paths_changed_in cs w to"
proof -
  show "table_at (fold_table hs floor) w = table_at hs w"
    using assms by (simp add: table_at_def fold_table_def List.map_filter_def comp_def filter_map fold_history_at)
  show "value_at (fold_table ks floor) w k = value_at ks w k"
    using assms by (cases "bt_get ks k") (simp_all add: value_at_def bt_get_fold_table fold_history_at)
  show "filter (\<lambda>e. present_at (snd e) w) (fold_table bs floor) = map (\<lambda>e. (fst e, fst (fold_entries (snd e) floor (\<lambda>_. 0))))
       (filter (\<lambda>e. present_at (snd e) w) bs)"
    using assms by (simp add: fold_table_def filter_map comp_def fold_present_at)
  show "paths_changed_in (fold_table cs floor) w to = paths_changed_in cs w to"
    using assms by (simp add: paths_changed_in_def fold_table_def filter_map comp_def fold_touches)
qed

text \<open>The fields a fold of the histories writes.\<close>

lemma fold_history_fields:
  fixes g xof floor
  defines "h \<equiv> snd (fold_history_before xof floor g)"
  assumes "g_folded_below g < floor"
  shows "g_content_history h = fold_table (g_content_history g) floor" "g_special_history h = fold_table (g_special_history g) floor"
    "g_mode_history h = fold_table (g_mode_history g) floor" "g_symlink_history h = fold_table (g_symlink_history g) floor"
    "g_hardlink_history h = fold_table (g_hardlink_history g) floor" "g_xattr_history h = fold_table (g_xattr_history g) floor"
    "g_dir_history h = fold_table (g_dir_history g) floor" "head h = head g" "g_content h = g_content g"
    "g_specials h = g_specials g" "g_modes h = g_modes g" "g_symlinks h = g_symlinks g" "g_hardlinks h = g_hardlinks g"
    "g_xattrs h = g_xattrs g" "g_dirs h = g_dirs g"
  using assms(2) by (simp_all add: h_def fold_history_before_def fold_identity_def Let_def head_def)

lemma bt_keys_fold_table: "bt_keys (fold_table hs floor) = bt_keys hs"
  by (simp add: bt_keys_def fold_table_def comp_def)

lemma fold_mark_alias:
  assumes "floor \<le> from" "floor \<le> to" "g_special_history h = fold_table (g_special_history g) floor"
  shows "fold (mark_alias h from to) (fold_table ls floor) changed = fold (mark_alias g from to) ls changed"
proof -
  have b: "bt_contains (g_special_history h) k = bt_contains (g_special_history g) k" for k
    by (simp add: assms(3) bt_contains_def bt_get_fold_table)
  have "mark_alias h from to (fst e, fst (fold_entries (snd e) floor (\<lambda>_. 0))) = mark_alias g from to e" for e
    unfolding mark_alias_def fun_eq_iff fst_conv snd_conv b fold_history_at [OF assms(1)] fold_history_at [OF assms(2)] by blast
  then show ?thesis by (simp add: fold_table_def fold_map comp_def)
qed

text \<open>
  C8: folding the histories below a floor changes no answer at or above it. The files and the
  whole base of each such version, and the paths that changed between two of them, read as
  before the fold.
\<close>

theorem fold_keeps_reads:
  assumes "floor \<le> from" "floor \<le> to"
  shows "let h = snd (fold_history_before xof floor g) in
    base_at h to = base_at g to \<and> files_at h to = files_at g to \<and> content_at h p to = content_at g p to
    \<and> changed_between h from to = changed_between g from to"
proof (cases "floor \<le> g_folded_below g")
  case False
  define h where "h = snd (fold_history_before xof floor g)"
  note f = fold_history_fields [of g floor xof, folded h_def]
  note f = f [OF False [unfolded not_le]]
  have c: "content_at h q to = content_at g q to" for q by (simp add: content_at_def f fold_table_reads [OF assms(2)])
  have "files_at h to = files_at g to" by (simp add: files_at_def f files_def c bt_keys_fold_table)
  moreover have "base_at h to = base_at g to"
    by (simp add: base_at_def current_base_def f c bt_keys_fold_table fold_table_reads [OF assms(2)] comp_def)
  moreover have "changed_between h from to = changed_between g from to"
    by (simp add: changed_between_def f fold_table_reads [OF assms(1)] fold_mark_alias [OF assms f(2)])
  ultimately show ?thesis using c by (simp add: h_def Let_def)
qed (simp add: fold_history_before_def)

theorem fold_keeps_reads_witness:
  "content_at (snd (fold_history_before flat_xof 1 demo_green')) ''b'' 1 = content_at demo_green' ''b'' 1"
  using fold_keeps_reads [of 1 1 1 flat_xof demo_green' "''b''"] by (simp add: Let_def)

text \<open>
  C34: the running total of the bytes a green keeps for older versions is what a recount of its
  histories finds, on every green a service can reach.
\<close>

theorem history_bytes_exact:
  assumes "reachable xof g"
  shows "g_history_bytes g = history_bytes_recounted g"
  using reachable_inv [OF assms] by (simp add: green_inv_def accounted_def recount_exact)

theorem history_bytes_exact_witness: "g_history_bytes demo_green' = history_bytes_recounted demo_green'"
  by (rule history_bytes_exact [OF demo_reachable'])

text \<open>
  C35: the rejected-result cache stays within its budget. Its total is the size of what it holds,
  the total is at most the budget, and the eviction order names each held identity once.
\<close>

theorem rejected_cache_bounded:
  assumes "reachable xof g"
  shows "g_rejected_bytes g = (\<Sum>e\<leftarrow>g_rejected g. rejected_entry_bytes (snd e)) \<and> g_rejected_bytes g \<le> g_rejected_budget g
    \<and> distinct (g_rejected_order g) \<and> set (g_rejected_order g) = set (bt_keys (g_rejected g))"
  using reachable_inv [OF assms] by (simp add: green_inv_def cache_ok_def cache_wf_def cache_cost_def set_bt_keys)

theorem rejected_cache_bounded_witness:
  "g_rejected_bytes (set_rejected_budget 100 demo_green') \<le> g_rejected_budget (set_rejected_budget 100 demo_green')"
  using rejected_cache_bounded [OF reachable.budgeted [OF demo_reachable', of 100]] by (simp add: u64_max_def)

text \<open>
  C36: folding to a budget returns with the histories within the budget or folded up to the
  reachable floor, never past it; the answer is the bytes released, each counted once.
\<close>

theorem fold_to_budget_settles:
  assumes "reachable xof g" "fold_history_to_budget xof floor budget g = (released, g')"
  shows "(g_history_bytes g' \<le> budget \<or> min floor u64_max \<le> g_folded_below g')
    \<and> g_folded_below g' \<le> max (g_folded_below g) floor \<and> g_history_bytes g' + released = g_history_bytes g"
proof -
  have a: "accounted g" "retained_exact g \<le> u64_max" using reachable_inv [OF assms(1)] by (simp_all add: green_inv_def)
  note l = fold_budget_laws [OF a, where released = 0 and xof = xof and reachable = floor and budget = budget,
      folded fold_history_to_budget_def, unfolded assms(2)]
  have "retained_exact g' + released = retained_exact g" using l(2) a(2) by simp
  moreover have "accounted g'" using l(1) a(2) by simp
  ultimately have "g_history_bytes g' + released = g_history_bytes g" using a by (simp add: accounted_def)
  then show ?thesis using l(3,4) a(2) by simp
qed

theorem fold_to_budget_settles_witness:
  "g_folded_below (snd (fold_history_to_budget flat_xof 1 0 demo_green')) \<le> max (g_folded_below demo_green') 1"
  using fold_to_budget_settles [OF demo_reachable' prod.collapse [symmetric]] by blast

section \<open>Rebasing\<close>

lemma bt_get_filter:
  "bt_ok m \<Longrightarrow> bt_get (filter (\<lambda>(k, x). P k x) m) k = (case bt_get m k of None \<Rightarrow> None | Some x \<Rightarrow> if P k x then Some x else None)"
proof (induction m)
  case (Cons e m)
  obtain a b where e: "e = (a, b)" by (cases e)
  have "bt_get m a = None" using Cons.prems by (auto simp: e bt_ok_Cons bt_get_NoneD)
  then show ?case using Cons by (auto simp: e bt_ok_Cons split: option.splits)
qed simp

text \<open>No path is both removed and set: the effects then read the same in either order.\<close>

definition one_way :: "effect list \<Rightarrow> bool" where
  "one_way es \<longleftrightarrow> set (concat (map staged_remove es)) \<inter> fst ` set (concat (map staged_set es)) = {}"

lemma rebase_changes_ok: "bt_ok m \<Longrightarrow> bt_ok (fold rebase_change es m)"
proof (induction es arbitrary: m)
  case (Cons e es)
  have "bt_ok (rebase_change e m)" using Cons.prems by (cases e) simp_all
  then show ?case using Cons.IH by simp
qed simp

lemma rebase_changes: "one_way es \<Longrightarrow> bt_get (fold rebase_change es []) p = map_of (rev (content_changes es)) p"
proof (induction es rule: rev_induct)
  case (snoc e es)
  then have "one_way es" by (auto simp: one_way_def)
  note ih = snoc.IH [OF this]
  show ?case
  proof (cases e)
    case (RemoveContent q)
    then have "q \<notin> fst ` set (concat (map staged_set es))" using snoc.prems by (auto simp: one_way_def)
    then have "map_of (rev (map (\<lambda>(p, b, _). (p, Some b)) (concat (map staged_set es)))) q = None"
      by (auto simp: map_of_eq_None_iff image_iff) fastforce
    then show ?thesis using ih RemoveContent by (auto simp: content_changes_def map_add_def split: option.splits)
  qed (use ih in \<open>auto simp: content_changes_def map_add_def\<close>)
qed (simp add: content_changes_def)

text \<open>
  C7: a rebase previews a submit and writes nothing. It leaves the green as it is; it reports a
  conflict exactly with the windows a first submit would; and when it succeeds the submit is
  accepted, the target is the head it was computed over, and its changed files, applied over
  that head, are the files of the version the submit makes, provided the effects do not remove
  a path they also set.
\<close>

theorem rebase_previews_submit:
  assumes "reachable xof g" "head g < u64_max"
    and "bt_get (g_accepted g) (inc_id inc) = None" "bt_get (g_rejected g) (inc_id inc) = None"
  shows "snd (rebase inc g) = g \<and>
    (case fst (rebase inc g) of
       RebaseConflict ws \<Rightarrow> fst (submit inc g) = OutConflict ws
     | Rebased to changed journal \<Rightarrow> to = head g \<and> fst (submit inc g) = Accepted (head g + 1)
         \<and> (\<forall>es. fst (decide inc (resolve inc) g) = Inr es \<and> one_way es \<longrightarrow>
              (\<forall>p. content (snd (submit inc g)) p
                 = (case bt_get changed p of None \<Rightarrow> content g p | Some after \<Rightarrow> after))))"
proof (cases rule: submit_cases [of g inc])
  case (conflict ws h)
  then obtain x where d: "decide inc (resolve inc) g = (Inl ws, x)"
    using assms(3,4) by (auto simp: submit_def Let_def split: prod.splits sum.splits)
  then show ?thesis using rebase_green [of inc g] conflict(2) by (simp add: rebase_def)
next
  case (accept es h)
  have inv: "green_inv xof g" by (rule reachable_inv [OF assms(1)])
  then have ok: "vd_inv (Suc (head g)) (content_dim g)"
    using dims_ok_mono [of "head g" g "Suc (head g)"] by (simp add: green_inv_def green_ok_def dims_ok_def)
  from no_hits_set [OF accept(4), of "g_fast_path_hits g"] have undo: "h\<lparr>g_fast_path_hits := g_fast_path_hits g\<rparr> = g" by simp
  have r: "rebase inc g = (rebased_from g es (head g), g)" by (simp add: rebase_def accept(3) undo)
  have v: "sat_add (head g) 1 = Suc (head g)" using assms(2) by (simp add: sat_add_small)
  have "content_dim (snd (submit inc g)) = vd.puts (Suc (head g)) (content_changes es) (content_dim g)"
    using accepted_laws [OF inv assms(2,3) accept(5)] accept(3,5) unfolding v by (metis Pair_inject snd_conv sum.inject(2))
  then have "content (snd (submit inc g)) p = (case map_of (rev (content_changes es)) p of None \<Rightarrow> content g p | Some x \<Rightarrow> x)" for p
    by (simp add: content_dims vd.puts_cur [OF ok] split: option.split)
  then show ?thesis
    using r accept(3,5) v
    by (auto simp: rebased_from_def bt_get_filter rebase_changes_ok rebase_changes content_def split: option.splits)
qed (use assms in simp)

theorem rebase_previews_submit_witness:
  "\<exists>changed journal. fst (rebase demo_edit demo_green) = Rebased 0 changed journal \<and> fst (submit demo_edit demo_green) = Accepted 1
    \<and> bt_get changed ''b'' = Some (Some [2, 9]) \<and> content (snd (submit demo_edit demo_green)) ''b'' = Some [2, 9]"
proof -
  have g: "bt_get (g_accepted demo_green) (inc_id demo_edit) = None" "bt_get (g_rejected demo_green) (inc_id demo_edit) = None"
    "content demo_green ''b'' = Some [2, 3]"
    by (subst demo_one_file, simp add: one_file_def content_def)+
  let ?es = "[SetContent ''b'' [2, 9] (doc_ops (inc_doc demo_edit))]"
  have d: "fst (decide demo_edit (resolve demo_edit) demo_green) = Inr ?es" by (subst demo_one_file) (rule one_file_decide)
  obtain to changed journal where r: "fst (rebase demo_edit demo_green) = Rebased to changed journal"
    using rebase_previews_submit [OF demo_reachable demo_head(2) g(1,2)] demo_submit by (auto split: rebased.splits)
  obtain x where x: "decide demo_edit (resolve demo_edit) demo_green = (Inr ?es, x)" using d by (metis prod.collapse)
  have "x\<lparr>g_fast_path_hits := g_fast_path_hits demo_green\<rparr> = demo_green"
    using no_hits_set [of x demo_green "g_fast_path_hits demo_green"] decide_green [of demo_edit "resolve demo_edit" demo_green] x by simp
  then have "rebased_from demo_green ?es (head demo_green) = Rebased to changed journal" using r by (simp add: rebase_def x)
  then have "bt_get changed ''b'' = Some (Some [2, 9])"
    using g(3) by (auto simp: rebased_from_def content_def)
  then show ?thesis
    using rebase_previews_submit [OF demo_reachable demo_head(2) g(1,2)] r d demo_head(1) by (auto simp: one_way_def)
qed

section \<open>The shape of a green\<close>

text \<open>
  C37: on every green a service can reach, each table is in key order, each history is in version
  order and ends in what its table holds, the index of last changes names the version of that
  last entry, no entry is newer than the head, and every accepted identity names a version
  after the seed and up to the head.
\<close>

theorem reachable_well_formed:
  assumes "reachable xof g"
  shows "dims_ok (head g) g \<and> accepted_ok g"
  using reachable_inv [OF assms] by (simp add: green_inv_def green_ok_def)

theorem reachable_well_formed_witness: "dims_ok (head demo_green') demo_green' \<and> accepted_ok demo_green'"
  by (rule reachable_well_formed [OF demo_reachable'])

end
