(* ===== verification/Findings.thy ===== *)
theory Findings
  imports Engine_Props Derive
begin

text \<open>
  Behaviours of the merge crate that its comments exclude or that lose an edit, each on a concrete
  input of the model.
\<close>

definition op_of :: "opkind \<Rightarrow> nat \<Rightarrow> nat \<Rightarrow> nat \<Rightarrow> op" where
  "op_of k at len src = \<lparr>op_kind = k, op_flags = 0, op_path = 0, op_at = at, op_len = len, op_src = src\<rparr>"

section \<open>The fallback of the identity check\<close>

text \<open>
  \<open>merge_content\<close> maps the start of an overlapping overwrite as a zero-length range and calls the
  overlap of such a point unreachable. A point strictly inside an overwritten range overlaps it.
\<close>

theorem point_overlaps: "map_range [[op_of KOverwrite 2 3 0]] (range_new 3 0) = Overlaps"
  by (simp add: op_of_def small_ops)

text \<open>
  The base offset the arm falls back to is then compared with the head at the wrong place: over the
  base \<open>1..6\<close> one work inserted two bytes and replaced \<open>3, 4, 5\<close> by \<open>7, 8, 9\<close>; another replaced the
  \<open>4\<close> by a \<open>2\<close>. The verdict calls the second edit already present and drops it.
\<close>

definition shifted_green :: green where
  "shifted_green = (one_file [])\<lparr>g_content := [(''b'', [5, 5, 1, 2, 7, 8, 9, 6])],
     g_last_changed := [(''b'', 1)], g_deltas := [[(''b'', [op_of KInsert 0 2 0, op_of KOverwrite 2 3 2])]]\<rparr>"

definition behind_edit :: increment where
  "behind_edit = demo_edit\<lparr>inc_post := [2]\<rparr>"

theorem differing_edit_dropped:
  "apply_ops [1, 2, 3, 4, 5, 6] [op_of KInsert 0 2 0, op_of KOverwrite 2 3 2] [5, 5, 7, 8, 9] = [5, 5, 1, 2, 7, 8, 9, 6]
   \<and> fst (merge_content behind_edit ''b'' [op_of KOverwrite 3 1 0] shifted_green) = Inr None"
proof
  show "apply_ops [1, 2, 3, 4, 5, 6] [op_of KInsert 0 2 0, op_of KOverwrite 2 3 2] [5, 5, 7, 8, 9] = [5, 5, 1, 2, 7, 8, 9, 6]"
    by (simp add: op_of_def small_ops)
  have m: "map_range [[op_of KInsert 0 2 0, op_of KOverwrite 2 3 2]] (range_new 3 1) = Overlaps"
    "map_range [[op_of KInsert 0 2 0, op_of KOverwrite 2 3 2]] (range_new 3 0) = Overlaps"
    by (simp_all add: op_of_def small_ops)
  have "identical_span [[op_of KInsert 0 2 0, op_of KOverwrite 2 3 2]] [2] [5, 5, 1, 2, 7, 8, 9, 6] (op_of KOverwrite 3 1 0)"
    using m(2) by (simp add: identical_span_def op_of_def touched_range_def range_new_def)
      (simp add: small_ops)
  then show "fst (merge_content behind_edit ''b'' [op_of KOverwrite 3 1 0] shifted_green) = Inr None"
    using m
    by (simp add: merge_content_def judge_content_def classify_ops_def classify_op_def shifted_green_def one_file_def
        intervening_def List.map_filter_simps bt_contains_def changed_at_def unwrap_or_def behind_edit_def demo_edit_def
        op_of_def touched_range_def Let_def)
qed

section \<open>A renamed file that was also edited\<close>

text \<open>
  \<open>decide_content\<close> skips the edits of a renamed-into path as handled with the rename;
  \<open>merge_rename\<close> moves the source's bytes as they are. An increment that renames a file and
  overwrites a byte of it is accepted without the overwrite.
\<close>

definition rename_edit :: increment where
  "rename_edit = \<lparr>inc_id = replicate 32 7, inc_base = 0,
     inc_doc = \<lparr>doc_paths = [''b'', ''c''], doc_ops =
       [(op_of KRename 0 0 0)\<lparr>op_path := 1\<rparr>, (op_of KOverwrite 0 1 0)\<lparr>op_path := 1\<rparr>]\<rparr>,
     inc_post = [9], inc_evidence = []\<rparr>"

theorem renamed_edit_dropped:
  "fst (decide rename_edit (resolve rename_edit) (one_file l))
     = Inr [SetContent ''c'' [2, 3] [insert_whole 2], RemoveContent ''b'']"
  by (simp add: rename_edit_def verdict_eval merge_rename_def occupied_by_nonfile_def one_file_def op_of_def u16_max_def numeral_2_eq_2)

section \<open>A truncation over an append\<close>

text \<open>
  A truncation of the tail and an append at the end of the file are disjoint by the edge rule, so
  the mapping places the truncation where it was; the bytes another work appended go with the tail.
\<close>

theorem truncation_drops_append:
  "move_op [[op_of KExtend 4 2 0]] (op_of KTruncate 3 1 u64_max) = Some (op_of KTruncate 3 1 u64_max)
   \<and> apply_ops (apply_ops [1, 2, 3, 4] [op_of KExtend 4 2 0] [8, 9]) [op_of KTruncate 3 1 u64_max] [] = [1, 2, 3]"
  by (simp add: op_of_def small_ops)

section \<open>The journal of a rebase\<close>

text \<open>
  The length of an operation of the document that truncates is the count of the bytes it removes;
  the length of a journalled truncation is the file's new length. The restatement copies one into
  the other.
\<close>

theorem rebased_truncation_length:
  "content_volume_op ''b'' (op_of KTruncate 3 1 u64_max) = Some (VTruncate ''b'' 1)
   \<and> length (apply_ops [1, 2, 3, 4] [op_of KTruncate 3 1 u64_max] []) = 3"
  by (simp add: op_of_def content_volume_op_def small_ops)

text \<open>
  The operations of an effect are all in coordinates of the head; a journal is in coordinates of
  the file of the moment. Composed again, an overwrite behind an insertion names another byte.
\<close>

theorem rebased_journal_shifts:
  "restate (one_file l) (SetContent ''b'' bytes [op_of KInsert 0 1 0, op_of KOverwrite 1 1 1])
     = [VInsert ''b'' 0 1, VOverwrite ''b'' 1 1]
   \<and> compose_content 2 [CInsert 0 1, COverwrite 1 1] = [op_of KDelete 0 1 u64_max, op_of KInsert 0 2 0]"
  by (simp add: op_of_def content_volume_op_def one_file_def bt_contains_def List.map_filter_simps compose_content_def
      compose_content_sized_def insert_new_def split_at_def vec_insert_def drain_def read_out_def emit_def net_op_def
      sat_add_def u64_max_def Let_def)

text \<open>
  A commit removes before it sets, so the chain of renames \<open>a\<close> to \<open>b\<close> and \<open>b\<close> to \<open>c\<close> leaves a file
  at \<open>b\<close>. The restatement takes the effects in order and reports \<open>b\<close> removed.
\<close>

definition two_files :: green where
  "two_files = (one_file [])\<lparr>g_content := [(''a'', [1]), (''b'', [2])]\<rparr>"

definition chain_renames :: "effect list" where
  "chain_renames = [SetContent ''b'' [1] [insert_whole 1], RemoveContent ''a'',
     SetContent ''c'' [2] [insert_whole 1], RemoveContent ''b'']"

theorem rename_chain_rebases_to_removal:
  "(case rebased_from two_files chain_renames 0 of Rebased _ changed _ \<Rightarrow> bt_get changed ''b'' = Some None)
   \<and> bt_get (g_content (commit chain_renames 1 two_files)) ''b'' = Some [1]"
  by (simp add: rebased_from_def chain_renames_def two_files_def one_file_def commit_eval Let_def bs_insert_def)

end
