(* ===== verification/Wire_Codec.thy ===== *)
theory Wire_Codec
  imports Codec
begin

text \<open>
  The canonical encoding of \<open>crates/wire/src/codec.rs\<close>: fixed-width little-endian integers, tags of
  exactly 0 or 1, length-prefixed strings and vectors, raw arrays, canonical floats. The locale
  \<open>wire\<close> is the contract of the trait \<open>Wire\<close>: a decoder reads back what its encoder wrote and
  accepts nothing else. The primitives are interpreted here; a vector and an option keep the
  contract of their elements.
\<close>

section \<open>Refusals\<close>

text \<open>\<open>WireError\<close> of \<open>crates/wire/src/error.rs\<close>.\<close>

datatype wire_error =
    WBadMagic nat
  | WUnsupportedMajor nat nat
  | WFrameTooLarge nat nat
  | WChecksumMismatch nat nat
  | WUnknownClass nat
  | WUnknownKind nat nat
  | WSchemaMismatch nat nat
  | WCreditExceeded nat nat
  | WTruncated nat
  | WBadTag byte
  | WBadDiscriminant nat
  | WBadUtf8
  | WNonCanonicalFloat
  | WTrailingBytes nat

section \<open>Reading from the front\<close>

type_synonym 'a wire_decoder = "byte list \<Rightarrow> wire_error + 'a \<times> byte list"

definition wire_take :: "nat \<Rightarrow> byte list wire_decoder" where
  "wire_take n input =
     (if length input < n then Inl (WTruncated (n - length input)) else Inr (take n input, drop n input))"

definition wire_from_bytes :: "'a wire_decoder \<Rightarrow> byte list \<Rightarrow> wire_error + 'a" where
  "wire_from_bytes dec bytes =
     rbind (dec bytes) (\<lambda>(v, rest). if rest \<noteq> [] then Inl (WTrailingBytes (length rest)) else Inr v)"

section \<open>The contract\<close>

locale wire =
  fixes enc :: "'a \<Rightarrow> byte list"
    and dec :: "byte list \<Rightarrow> wire_error + 'a \<times> byte list"
    and ok :: "'a \<Rightarrow> bool"
  assumes dec_enc: "ok a \<Longrightarrow> dec (enc a @ rest) = Inr (a, rest)"
    and dec_exact: "dec input = Inr (a, rest) \<Longrightarrow> ok a \<and> input = enc a @ rest"
begin

lemma dec_iff: "dec input = Inr (a, rest) \<longleftrightarrow> ok a \<and> input = enc a @ rest"
  using dec_enc dec_exact by blast

lemma dec_bind: "rbind (dec input) f = Inr b \<longleftrightarrow> (\<exists>a rest. ok a \<and> input = enc a @ rest \<and> f (a, rest) = Inr b)"
  using dec_iff by (fastforce simp: rbind_Inr_iff)

lemma dec_enc_bind [simp]: "ok a \<Longrightarrow> rbind (dec (enc a @ rest)) f = f (a, rest)"
  by (simp add: dec_enc)

text \<open>A whole body is accepted exactly when it is the encoding of the value it stands for.\<close>

lemma from_bytes_iff: "wire_from_bytes dec bytes = Inr a \<longleftrightarrow> ok a \<and> bytes = enc a"
proof -
  have "wire_from_bytes dec bytes = Inr a \<longleftrightarrow> dec bytes = Inr (a, [])"
    by (auto simp: wire_from_bytes_def rbind_Inr_iff split: if_splits)
  then show ?thesis by (simp add: dec_iff)
qed

text \<open>No encoding is a proper prefix of another.\<close>

lemma prefix_free: "ok a \<Longrightarrow> ok b \<Longrightarrow> enc a @ x = enc b @ y \<Longrightarrow> a = b \<and> x = y"
  using dec_enc by (metis Pair_inject sum.inject(2))

end

section \<open>Integers\<close>

text \<open>\<open>integer!\<close>: an unsigned type of \<open>w\<close> bytes.\<close>

definition uint_encode :: "nat \<Rightarrow> nat \<Rightarrow> byte list" where
  "uint_encode w n = le_bytes w n"

definition uint_decode :: "nat \<Rightarrow> nat wire_decoder" where
  "uint_decode w input = rbind (wire_take w input) (\<lambda>(bytes, input). Inr (from_le bytes, input))"

lemma wire_take_append [simp]: "length bs = n \<Longrightarrow> wire_take n (bs @ rest) = Inr (bs, rest)"
  by (simp add: wire_take_def)

lemma wire_take_Inr: "wire_take n input = Inr (bs, rest) \<longleftrightarrow> length bs = n \<and> input = bs @ rest"
  by (auto simp: wire_take_def split: if_splits)

lemma wire_uint: "wire (uint_encode w) (uint_decode w) (\<lambda>n. n < 256 ^ w)"
proof
  show "uint_decode w (uint_encode w n @ rest) = Inr (n, rest)" if "n < 256 ^ w" for n rest
    using that by (simp add: uint_decode_def uint_encode_def)
  show "n < 256 ^ w \<and> input = uint_encode w n @ rest" if "uint_decode w input = Inr (n, rest)" for input n rest
    using that from_le_less by (auto simp: uint_decode_def uint_encode_def rbind_Inr_iff wire_take_Inr)
qed

text \<open>A signed type of \<open>w\<close> bytes, in two's complement.\<close>

definition sint_encode :: "nat \<Rightarrow> int \<Rightarrow> byte list" where
  "sint_encode w i = le_bytes w (nat (i mod 256 ^ w))"

definition sint_decode :: "nat \<Rightarrow> int wire_decoder" where
  "sint_decode w input =
     rbind (uint_decode w input) (\<lambda>(n, input).
       Inr (if 2 * int n < 256 ^ w then int n else int n - 256 ^ w, input))"

lemma wire_sint:
  "wire (sint_encode w) (sint_decode w) (\<lambda>i. - (256 ^ w) \<le> 2 * i \<and> 2 * i < 256 ^ w)"
proof
  let ?m = "256 ^ w :: int"
  have m: "int (256 ^ w) = ?m" by simp
  show "sint_decode w (sint_encode w i @ rest) = Inr (i, rest)" if i: "- ?m \<le> 2 * i \<and> 2 * i < ?m" for i rest
  proof -
    have "i mod ?m = (if i < 0 then i + ?m else i)"
      using i mod_pos_pos_trivial [of i ?m] mod_pos_pos_trivial [of "i + ?m" ?m] by auto
    moreover have "0 \<le> i mod ?m" "i mod ?m < ?m" by simp_all
    moreover from this have "nat (i mod ?m) < 256 ^ w" by (simp add: nat_less_iff)
    ultimately show ?thesis
      using i by (auto simp: sint_decode_def uint_decode_def sint_encode_def)
  qed
  show "(- ?m \<le> 2 * i \<and> 2 * i < ?m) \<and> input = sint_encode w i @ rest"
    if d: "sint_decode w input = Inr (i, rest)" for input i rest
  proof -
    obtain n where n: "n < 256 ^ w" "input = le_bytes w n @ rest" and i: "i = (if 2 * int n < ?m then int n else int n - ?m)"
      using d wire.dec_exact [OF wire_uint, of w]
      by (auto simp: sint_decode_def rbind_Inr_iff uint_encode_def)
    have lt: "int n < ?m" using n(1) m by (metis of_nat_less_iff)
    then have "i mod ?m = int n" by (auto simp: i)
    moreover have "- ?m \<le> 2 * i \<and> 2 * i < ?m"
    proof (cases "2 * int n < ?m")
      case False
      then have "i = int n - ?m" by (simp add: i)
      then show ?thesis using lt False by linarith
    qed (simp add: i)
    ultimately show ?thesis using n by (simp add: sint_encode_def)
  qed
qed

section \<open>Single bytes, booleans, floats\<close>

definition u8_encode :: "byte \<Rightarrow> byte list" where
  "u8_encode b = [b]"

definition u8_decode :: "byte wire_decoder" where
  "u8_decode input = rbind (wire_take 1 input) (\<lambda>(bytes, input).
     rbind (ok_or (list_get bytes 0) (WTruncated 1)) (\<lambda>b. Inr (b, input)))"

definition bool_encode :: "bool \<Rightarrow> byte list" where
  "bool_encode b = [if b then 1 else 0]"

definition bool_decode :: "bool wire_decoder" where
  "bool_decode input = rbind (u8_decode input) (\<lambda>(got, input).
     if got = 0 then Inr (False, input) else if got = 1 then Inr (True, input) else Inl (WBadTag got))"

interpretation u8w: wire u8_encode u8_decode "\<lambda>_. True"
proof
  show "u8_decode (u8_encode b @ rest) = Inr (b, rest)" for b rest
    by (simp add: u8_decode_def u8_encode_def wire_take_def list_get_def)
  show "True \<and> input = u8_encode b @ rest" if "u8_decode input = Inr (b, rest)" for input b rest
    using that
    by (cases input) (auto simp: u8_decode_def u8_encode_def wire_take_def rbind_Inr_iff list_get_def)
qed

interpretation boolw: wire bool_encode bool_decode "\<lambda>_. True"
proof
  show "bool_decode (bool_encode b @ rest) = Inr (b, rest)" for b rest
    using u8w.dec_enc [of "if b then 1 else 0" rest] by (simp add: bool_decode_def bool_encode_def u8_encode_def split: if_splits)
  show "True \<and> input = bool_encode b @ rest" if "bool_decode input = Inr (b, rest)" for input b rest
    using that by (auto simp: bool_decode_def bool_encode_def u8w.dec_bind u8_encode_def split: if_splits)
qed

text \<open>
  An \<open>f64\<close> as its bit pattern: a NaN has all exponent bits set and a mantissa that is not zero; \<open>0.0\<close>
  equals a pattern with nothing but perhaps the sign. \<open>f64::NAN\<close> is the quiet NaN.
\<close>

definition f64_is_nan :: "nat \<Rightarrow> bool" where
  "f64_is_nan bits \<longleftrightarrow> bits div 2 ^ 52 mod 2 ^ 11 = 2047 \<and> bits mod 2 ^ 52 \<noteq> 0"

definition f64_nan :: nat where
  "f64_nan = 0x7FF8000000000000"

definition f64_canonical :: "nat \<Rightarrow> nat" where
  "f64_canonical bits =
     (if f64_is_nan bits then f64_nan else if bits mod 2 ^ 63 = 0 then 0 else bits)"

definition f64_encode :: "nat \<Rightarrow> byte list" where
  "f64_encode bits = uint_encode 8 (f64_canonical bits)"

definition f64_decode :: "nat wire_decoder" where
  "f64_decode input = rbind (uint_decode 8 input) (\<lambda>(bits, input).
     if bits \<noteq> f64_canonical bits then Inl WNonCanonicalFloat else Inr (bits, input))"

interpretation u64w: wire "uint_encode 8" "uint_decode 8" "\<lambda>n. n < 256 ^ 8"
  by (rule wire_uint)

interpretation u32w: wire "uint_encode 4" "uint_decode 4" "\<lambda>n. n < 256 ^ 4"
  by (rule wire_uint)

interpretation u16w: wire "uint_encode 2" "uint_decode 2" "\<lambda>n. n < 256 ^ 2"
  by (rule wire_uint)

interpretation f64w: wire f64_encode f64_decode "\<lambda>bits. bits < 256 ^ 8 \<and> f64_canonical bits = bits"
proof
  show "f64_decode (f64_encode n @ rest) = Inr (n, rest)" if "n < 256 ^ 8 \<and> f64_canonical n = n" for n rest
    using that u64w.dec_enc [of n rest] by (simp add: f64_decode_def f64_encode_def)
  show "(n < 256 ^ 8 \<and> f64_canonical n = n) \<and> input = f64_encode n @ rest" if "f64_decode input = Inr (n, rest)"
    for input n rest
    using that unfolding f64_decode_def f64_encode_def by (auto simp: u64w.dec_bind split: if_splits)
qed

section \<open>Strings, vectors, options, arrays\<close>

definition len_prefix :: "nat \<Rightarrow> byte list" where
  "len_prefix len = uint_encode 4 (to_u32 len)"

definition take_len :: "nat wire_decoder" where
  "take_len input = rbind (uint_decode 4 input) (\<lambda>(len, input).
     if length input < len then Inl (WTruncated (len - length input)) else Inr (len, input))"

definition encode_bytes :: "byte list \<Rightarrow> byte list" where
  "encode_bytes bytes = len_prefix (length bytes) @ bytes"

text \<open>\<open>Vec<u8>\<close>, whose elements are copied in bulk.\<close>

definition bytes_decode :: "byte list wire_decoder" where
  "bytes_decode input = rbind (take_len input) (\<lambda>(len, input). wire_take len input)"

definition string_encode :: "string \<Rightarrow> byte list" where
  "string_encode s = len_prefix (length s) @ as_bytes s"

definition string_decode :: "string wire_decoder" where
  "string_decode input =
     rbind (take_len input) (\<lambda>(len, input).
     rbind (wire_take len input) (\<lambda>(bytes, input).
     rbind (ok_or (from_utf8 bytes) WBadUtf8) (\<lambda>s. Inr (s, input))))"

text \<open>\<open>decode_vec\<close> of a structured element: \<open>for _ in 0..len { values.push(Self::decode(input)?) }\<close>.\<close>

fun decode_vec :: "'a wire_decoder \<Rightarrow> nat \<Rightarrow> 'a list wire_decoder" where
  "decode_vec dec 0 input = Inr ([], input)"
| "decode_vec dec (Suc len) input =
     rbind (dec input) (\<lambda>(v, input). rbind (decode_vec dec len input) (\<lambda>(vs, input). Inr (v # vs, input)))"

definition vec_encode :: "('a \<Rightarrow> byte list) \<Rightarrow> 'a list \<Rightarrow> byte list" where
  "vec_encode enc vs = len_prefix (length vs) @ concat (map enc vs)"

definition vec_decode :: "'a wire_decoder \<Rightarrow> 'a list wire_decoder" where
  "vec_decode dec input = rbind (take_len input) (\<lambda>(len, input). decode_vec dec len input)"

definition option_encode :: "('a \<Rightarrow> byte list) \<Rightarrow> 'a option \<Rightarrow> byte list" where
  "option_encode enc x = (case x of None \<Rightarrow> [0] | Some v \<Rightarrow> 1 # enc v)"

definition option_decode :: "'a wire_decoder \<Rightarrow> 'a option wire_decoder" where
  "option_decode dec input = rbind (u8_decode input) (\<lambda>(got, input).
     if got = 0 then Inr (None, input)
     else if got = 1 then rbind (dec input) (\<lambda>(v, input). Inr (Some v, input))
     else Inl (WBadTag got))"

text \<open>\<open>[u8; N]\<close>.\<close>

definition array_decode :: "nat \<Rightarrow> byte list wire_decoder" where
  "array_decode n input = wire_take n input"

text \<open>A length prefix is read back when the bytes behind it are there.\<close>

lemma take_len_prefix: "len \<le> u32_max \<Longrightarrow> len \<le> length rest \<Longrightarrow> take_len (len_prefix len @ rest) = Inr (len, rest)"
  using u32w.dec_enc [of len rest] by (simp add: take_len_def len_prefix_def to_u32_small u32_max_def)

lemma take_len_Inr:
  "take_len input = Inr (len, rest) \<longleftrightarrow> len \<le> u32_max \<and> len \<le> length rest \<and> input = len_prefix len @ rest"
proof
  assume "take_len input = Inr (len, rest)"
  then have "uint_decode 4 input = Inr (len, rest)" "len \<le> length rest"
    by (auto simp: take_len_def rbind_Inr_iff split: if_splits)
  moreover from u32w.dec_exact [OF this(1)] have "len \<le> u32_max" by (simp add: u32_max_def)
  ultimately show "len \<le> u32_max \<and> len \<le> length rest \<and> input = len_prefix len @ rest"
    using u32w.dec_exact [of input len rest] by (simp add: len_prefix_def to_u32_small)
qed (simp add: take_len_prefix)

interpretation bytesw: wire encode_bytes bytes_decode "\<lambda>bs. length bs \<le> u32_max"
proof
  show "bytes_decode (encode_bytes bs @ rest) = Inr (bs, rest)" if "length bs \<le> u32_max" for bs rest
    using that by (simp add: bytes_decode_def encode_bytes_def take_len_prefix)
  show "length bs \<le> u32_max \<and> input = encode_bytes bs @ rest" if "bytes_decode input = Inr (bs, rest)" for input bs rest
    using that by (auto simp: bytes_decode_def encode_bytes_def rbind_Inr_iff take_len_Inr wire_take_Inr)
qed

interpretation stringw: wire string_encode string_decode "\<lambda>s. str_ok s \<and> length s \<le> u32_max"
proof
  show "string_decode (string_encode s @ rest) = Inr (s, rest)" if "str_ok s \<and> length s \<le> u32_max" for s rest
    using that by (simp add: string_decode_def string_encode_def take_len_prefix)
  show "(str_ok s \<and> length s \<le> u32_max) \<and> input = string_encode s @ rest" if "string_decode input = Inr (s, rest)"
    for input s rest
    using that
    by (auto simp: string_decode_def string_encode_def rbind_Inr_iff take_len_Inr wire_take_Inr from_utf8_Some)
qed

lemma wire_array: "wire (\<lambda>bs. bs) (array_decode n) (\<lambda>bs. length bs = n)"
  by unfold_locales (auto simp: array_decode_def wire_take_Inr)

context wire
begin

lemma decode_vec_iff:
  "decode_vec dec n input = Inr (vs, rest) \<longleftrightarrow> length vs = n \<and> list_all ok vs \<and> input = concat (map enc vs) @ rest"
proof (induction n arbitrary: input vs)
  case (Suc n)
  show ?case by (cases vs) (auto simp: rbind_Inr_iff Suc dec_iff)
qed auto

end

text \<open>An option, and a vector whose elements take at least a byte each, keep the contract.\<close>

lemma wire_option:
  assumes "wire enc dec ok"
  shows "wire (option_encode enc) (option_decode dec) (pred_option ok)"
proof
  note tag = u8w.dec_bind [unfolded u8_encode_def]
  show "option_decode dec (option_encode enc x @ rest) = Inr (x, rest)" if "pred_option ok x" for x rest
    using that u8w.dec_enc [unfolded u8_encode_def] wire.dec_enc [OF assms]
    by (cases x) (auto simp: option_decode_def option_encode_def)
  show "pred_option ok x \<and> input = option_encode enc x @ rest" if "option_decode dec input = Inr (x, rest)" for input x rest
    using that by (auto simp: option_decode_def option_encode_def tag wire.dec_bind [OF assms] split: if_splits)
qed

lemma wire_vec:
  assumes "wire enc dec ok" "\<And>v. enc v \<noteq> []"
  shows "wire (vec_encode enc) (vec_decode dec) (\<lambda>vs. list_all ok vs \<and> length vs \<le> u32_max)"
proof
  have len: "length vs \<le> length (concat (map enc vs) @ rest)" for vs rest
  proof (induction vs)
    case (Cons v vs)
    then show ?case using assms(2) [of v] by (cases "enc v") simp_all
  qed simp
  show "vec_decode dec (vec_encode enc vs @ rest) = Inr (vs, rest)" if "list_all ok vs \<and> length vs \<le> u32_max" for vs rest
    using that len [of vs rest] wire.decode_vec_iff [OF assms(1)]
    by (simp add: vec_decode_def vec_encode_def take_len_prefix)
  show "(list_all ok vs \<and> length vs \<le> u32_max) \<and> input = vec_encode enc vs @ rest" if "vec_decode dec input = Inr (vs, rest)"
    for input vs rest
    using that by (auto simp: vec_decode_def vec_encode_def rbind_Inr_iff take_len_Inr wire.decode_vec_iff [OF assms(1)])
qed

text \<open>The bulk copy of a byte vector reads what the loop over its bytes would read.\<close>

lemma bytes_bulk: "bytes_decode input = Inr (bs, rest) \<longleftrightarrow> vec_decode u8_decode input = Inr (bs, rest)"
proof -
  have "wire (vec_encode u8_encode) (vec_decode u8_decode) (\<lambda>vs. list_all (\<lambda>_. True) vs \<and> length vs \<le> u32_max)"
    by (rule wire_vec [OF u8w.wire_axioms]) (simp add: u8_encode_def)
  moreover have "concat (map u8_encode bs) = bs" by (induction bs) (simp_all add: u8_encode_def)
  then have "vec_encode u8_encode bs = encode_bytes bs" by (simp add: vec_encode_def encode_bytes_def)
  ultimately show ?thesis by (simp add: wire.dec_iff bytesw.dec_iff list_all_iff)
qed

text \<open>\<open>encode_option_bytes\<close> writes what the option of a vector writes.\<close>

definition encode_option_bytes :: "byte list option \<Rightarrow> byte list" where
  "encode_option_bytes x = (case x of None \<Rightarrow> [0] | Some bytes \<Rightarrow> 1 # encode_bytes bytes)"

text \<open>\<open>encode_len\<close> and \<open>patch_len\<close>: the prefix of a streamed sequence, rewritten once its length is known.\<close>

definition encode_len :: "nat \<Rightarrow> byte list" where
  "encode_len len = len_prefix len"

definition patch_len :: "byte list \<Rightarrow> nat \<Rightarrow> nat \<Rightarrow> bool \<times> byte list" where
  "patch_len out at len =
     (case slice_get out at (sat_add at 4) of
        Some _ \<Rightarrow> (True, take at out @ len_prefix len @ drop (at + 4) out)
      | None \<Rightarrow> (False, out))"

lemma patch_len_prefix:
  assumes "length pre + 4 \<le> u64_max"
  shows "patch_len (pre @ encode_len n @ body) (length pre) len = (True, pre @ encode_len len @ body)"
  using assms by (simp add: patch_len_def encode_len_def len_prefix_def uint_encode_def slice_get_def sat_add_small)

end
