(* ===== verification/Wire_Crc.thy ===== *)
theory Wire_Crc
  imports Codec
begin

text \<open>
  The checksum of control and metadata bodies (\<open>crates/wire/src/crc32c.rs\<close>): the slicing-by-eight
  tables and the software loop, the two hardware loops over the instructions as parameters, and the
  bit-at-a-time CRC32C they all compute.
\<close>

unbundle bit_operations_syntax

section \<open>The tables\<close>

definition polynomial :: "32 word" where
  "polynomial = 0x82F63B78"

text \<open>One bit through the register.\<close>

definition crc_bit :: "32 word \<Rightarrow> 32 word" where
  "crc_bit crc = (if crc AND 1 = 1 then drop_bit 1 crc XOR polynomial else drop_bit 1 crc)"

definition byte_table :: "32 word list" where
  "byte_table = map (\<lambda>i. (crc_bit ^^ 8) (word_of_nat i)) [0..<256]"

text \<open>Each slice's table from the one before.\<close>

definition next_table :: "32 word list \<Rightarrow> 32 word list" where
  "next_table previous =
     map (\<lambda>prev. drop_bit 8 prev XOR unwrap_or (list_get byte_table (unat (prev AND 255))) 0) previous"

definition crc_tables :: "32 word list list" where
  "crc_tables = map (\<lambda>k. (next_table ^^ k) byte_table) [0..<8]"

section \<open>The loops\<close>

text \<open>\<open>slice::as_chunks::<8>()\<close>.\<close>

function as_chunks :: "'a list \<Rightarrow> 'a list list \<times> 'a list" where
  "as_chunks xs =
     (if length xs < 8 then ([], xs)
      else (let (chunks, remainder) = as_chunks (drop 8 xs) in (take 8 xs # chunks, remainder)))"
  by pat_completeness auto
termination by (relation "measure length") auto

declare as_chunks.simps [simp del]

definition fold_chunk :: "32 word \<Rightarrow> byte list \<Rightarrow> 32 word" where
  "fold_chunk crc chunk =
     (let folded = (word_of_nat (from_le chunk) :: 64 word) XOR ucast crc
      in foldl (\<lambda>next (k, table). next XOR unwrap_or (list_get table (unat (drop_bit (k * 8) folded AND 255))) 0)
           0 (enumerate 0 (rev crc_tables)))"

definition fold_byte :: "32 word \<Rightarrow> byte \<Rightarrow> 32 word" where
  "fold_byte crc b =
     (let index = unat ((crc XOR ucast b) AND 255)
      in unwrap_or (list_get byte_table index) 0 XOR drop_bit 8 crc)"

definition crc_software :: "32 word \<Rightarrow> byte list \<Rightarrow> 32 word" where
  "crc_software crc data =
     (let (chunks, remainder) = as_chunks data
      in NOT (foldl fold_byte (foldl fold_chunk (NOT crc) chunks) remainder))"

text \<open>
  The hardware loops: \<open>step8\<close> is the instruction over one byte, \<open>step64\<close> the one over a word of eight;
  the x86 form widens the register to 64 bits.
\<close>

definition crc_aarch64 ::
  "(32 word \<Rightarrow> 64 word \<Rightarrow> 32 word) \<Rightarrow> (32 word \<Rightarrow> byte \<Rightarrow> 32 word) \<Rightarrow> 32 word \<Rightarrow> byte list \<Rightarrow> 32 word" where
  "crc_aarch64 step64 step8 crc data =
     (let (chunks, remainder) = as_chunks data
      in NOT (foldl step8 (foldl (\<lambda>crc chunk. step64 crc (word_of_nat (from_le chunk))) (NOT crc) chunks) remainder))"

definition crc_x86_64 ::
  "(64 word \<Rightarrow> 64 word \<Rightarrow> 64 word) \<Rightarrow> (32 word \<Rightarrow> byte \<Rightarrow> 32 word) \<Rightarrow> 32 word \<Rightarrow> byte list \<Rightarrow> 32 word" where
  "crc_x86_64 step64 step8 crc data =
     (let (chunks, remainder) = as_chunks data;
          wide = foldl (\<lambda>crc chunk. step64 crc (word_of_nat (from_le chunk))) (ucast (NOT crc)) chunks
      in NOT (foldl step8 (ucast (wide AND 0xFFFFFFFF)) remainder))"

section \<open>The reference\<close>

text \<open>CRC32C a bit at a time: the byte enters the low end of the register, eight bits go through.\<close>

definition crc_byte :: "32 word \<Rightarrow> byte \<Rightarrow> 32 word" where
  "crc_byte crc b = (crc_bit ^^ 8) (crc XOR ucast b)"

definition crc_reference :: "32 word \<Rightarrow> byte list \<Rightarrow> 32 word" where
  "crc_reference crc data = NOT (foldl crc_byte (NOT crc) data)"

section \<open>Linearity\<close>

lemma crc_bit_alt: "crc_bit crc = (if bit crc 0 then drop_bit 1 crc XOR polynomial else drop_bit 1 crc)"
  by (simp add: crc_bit_def and_one_eq odd_iff_mod_2_eq_one bit_0)

lemma crc_bit_xor: "crc_bit (x XOR y) = crc_bit x XOR crc_bit y"
  unfolding crc_bit_alt by (simp add: bit_xor_iff drop_bit_xor ac_simps)

lemma crc_bits_xor: "(crc_bit ^^ n) (x XOR y) = (crc_bit ^^ n) x XOR (crc_bit ^^ n) y"
  by (induction n) (simp_all add: crc_bit_xor)

text \<open>Bits that leave at the low end as zeros are only shifted.\<close>

lemma crc_bits_shift: "n \<le> 32 \<Longrightarrow> (crc_bit ^^ n) (push_bit n x) = take_bit (32 - n) x"
proof (induction n arbitrary: x)
  case 0
  then show ?case by (simp add: take_bit_word_eq_self)
next
  case (Suc n)
  have "\<not> bit (push_bit (Suc n) x) 0" by (simp add: bit_push_bit_iff del: push_bit_Suc)
  then have "crc_bit (push_bit (Suc n) x) = drop_bit 1 (push_bit (Suc n) x)" by (simp add: crc_bit_alt)
  also have "\<dots> = push_bit n (take_bit (31 - n) x)"
    by (rule bit_word_eqI) (auto simp: bit_simps simp del: push_bit_Suc)
  finally have "(crc_bit ^^ Suc n) (push_bit (Suc n) x) = (crc_bit ^^ n) (push_bit n (take_bit (31 - n) x))"
    by (simp add: funpow_Suc_right del: funpow.simps push_bit_Suc)
  also have "\<dots> = take_bit (32 - n) (take_bit (31 - n) x)" using Suc by simp
  finally show ?case by simp
qed

text \<open>A byte through the register: the rest moves down, the low byte goes through the table.\<close>

lemma crc_byte_split: "(crc_bit ^^ 8) x = drop_bit 8 x XOR (crc_bit ^^ 8) (take_bit 8 x)"
proof -
  have "x = push_bit 8 (drop_bit 8 x) XOR take_bit 8 x"
    by (rule bit_word_eqI) (auto simp: bit_simps)
  then have "(crc_bit ^^ 8) x = (crc_bit ^^ 8) (push_bit 8 (drop_bit 8 x)) XOR (crc_bit ^^ 8) (take_bit 8 x)"
    using crc_bits_xor by metis
  also have "(crc_bit ^^ 8) (push_bit 8 (drop_bit 8 x)) = take_bit 24 (drop_bit 8 x)"
    using crc_bits_shift [of 8 "drop_bit 8 x"] by simp
  also have "\<dots> = drop_bit 8 x"
    by (rule bit_word_eqI) (use bit_imp_le_length [of x] in \<open>fastforce simp: bit_simps\<close>)
  finally show ?thesis .
qed

lemma and_255: "(x :: 'a::len word) AND 255 = take_bit 8 x"
  by (simp add: take_bit_eq_mask mask_eq_exp_minus_1)

lemma byte_table_get:
  "unwrap_or (list_get byte_table (unat (take_bit 8 x))) 0 = (crc_bit ^^ 8) (take_bit 8 x)" for x :: "32 word"
proof -
  have "unat (take_bit 8 x) < 256" by (simp add: unsigned_take_bit_eq take_bit_nat_less_exp [where n = 8, simplified])
  then show ?thesis by (simp add: byte_table_def list_get_def)
qed

lemma fold_byte_eq: "fold_byte = crc_byte"
proof (intro ext)
  fix crc :: "32 word" and b :: byte
  have "drop_bit 8 (crc XOR ucast b) = drop_bit 8 crc"
    by (rule bit_word_eqI) (use bit_imp_le_length [of b] in \<open>fastforce simp: bit_simps\<close>)
  then show "fold_byte crc b = crc_byte crc b"
    using crc_byte_split [of "crc XOR ucast b"] byte_table_get [of "crc XOR ucast b"]
    by (simp add: fold_byte_def crc_byte_def and_255 xor.commute)
qed

section \<open>The tables are powers of the byte step\<close>

lemma crc_bits_add: "(crc_bit ^^ m) ((crc_bit ^^ n) x) = (crc_bit ^^ (m + n)) x"
  by (simp add: funpow_add)

lemma table_power: "(next_table ^^ k) byte_table = map (\<lambda>i. (crc_bit ^^ (8 + 8 * k)) (word_of_nat i)) [0..<256]"
proof (induction k)
  case (Suc k)
  have "drop_bit 8 x XOR unwrap_or (list_get byte_table (unat (x AND 255))) 0 = (crc_bit ^^ 8) x" for x
    using crc_byte_split [of x] byte_table_get [of x] by (simp add: and_255)
  then have "next_table t = map (crc_bit ^^ 8) t" for t by (simp add: next_table_def)
  then have "(next_table ^^ Suc k) byte_table = map (crc_bit ^^ 8) ((next_table ^^ k) byte_table)" by simp
  then show ?case by (simp add: Suc comp_def crc_bits_add del: funpow.simps upt_Suc)
qed (simp add: byte_table_def)

lemma table_get:
  "unwrap_or (list_get ((next_table ^^ k) byte_table) (unat (y AND 255))) 0
     = (crc_bit ^^ (8 + 8 * k)) (ucast (take_bit 8 y))" for y :: "64 word"
proof -
  have "unat (take_bit 8 y) < 256" by (simp add: unsigned_take_bit_eq take_bit_nat_less_exp [where n = 8, simplified])
  then show ?thesis by (simp add: table_power list_get_def and_255 del: upt_Suc)
qed

section \<open>Eight bytes at once\<close>

lemma from_le_byte: "k < length bs \<Longrightarrow> from_le bs div 256 ^ k mod 256 = unat (bs ! k)"
proof (induction bs arbitrary: k)
  case (Cons b bs)
  show ?case
  proof (cases k)
    case 0
    then show ?thesis using unat_byte_less [of b] by simp
  next
    case (Suc j)
    have "(unat b + 256 * from_le bs) div 256 ^ Suc j = from_le bs div 256 ^ j"
      using unat_byte_less [of b] by (simp add: div_mult2_eq)
    then show ?thesis using Cons Suc by simp
  qed
qed simp

lemma chunk_byte:
  assumes "length chunk = 8" "k < 8"
  shows "take_bit 8 (drop_bit (k * 8) (word_of_nat (from_le chunk) :: 64 word)) = ucast (chunk ! k)"
proof -
  have "from_le chunk < 2 ^ 64" using from_le_less [of chunk] assms(1) by simp
  then have "take_bit 64 (from_le chunk) = from_le chunk" by (simp add: take_bit_nat_eq_self_iff)
  then have "unat (take_bit 8 (drop_bit (k * 8) (word_of_nat (from_le chunk) :: 64 word)))
      = take_bit 8 (drop_bit (k * 8) (from_le chunk))"
    by (simp add: unsigned_take_bit_eq unsigned_drop_bit_eq unsigned_of_nat)
  also have "\<dots> = from_le chunk div 256 ^ k mod 256"
    using power_mult [of "2 :: nat" 8 k] by (simp add: take_bit_eq_mod drop_bit_eq_div mult.commute)
  also have "\<dots> = unat (chunk ! k)" using from_le_byte assms by simp
  finally show ?thesis by (metis of_nat_unat ucast_id)
qed

text \<open>The bytes of the register enter where the bytes of the chunk do.\<close>

lemma crc_bits_peel: "(crc_bit ^^ (n + 8)) x = (crc_bit ^^ n) (drop_bit 8 x) XOR (crc_bit ^^ (n + 8)) (take_bit 8 x)"
  using arg_cong [OF crc_byte_split [of x], of "crc_bit ^^ n"] by (simp add: crc_bits_xor crc_bits_add)

lemma folded_byte:
  fixes crc :: "32 word"
  assumes "length chunk = 8" "k < 8"
  shows "(ucast (take_bit 8 (drop_bit (k * 8) ((word_of_nat (from_le chunk) :: 64 word) XOR ucast crc))) :: 32 word)
    = ucast (chunk ! k) XOR take_bit 8 (drop_bit (k * 8) crc)"
proof -
  have "(ucast (ucast b :: 64 word) :: 32 word) = ucast b" for b :: byte
    by (rule bit_word_eqI) (auto simp: bit_simps)
  moreover have "(ucast (take_bit 8 (drop_bit (k * 8) (ucast crc :: 64 word))) :: 32 word) = take_bit 8 (drop_bit (k * 8) crc)"
    by (rule bit_word_eqI) (use bit_imp_le_length [of crc] in \<open>fastforce simp: bit_simps\<close>)
  ultimately show ?thesis
    by (simp add: chunk_byte [OF assms] unsigned_xor_eq)
qed

lemma crc_tables_eq: "rev crc_tables = map (\<lambda>k. (next_table ^^ k) byte_table) [7, 6, 5, 4, 3, 2, 1, 0]"
  by (simp add: crc_tables_def upt_rec numeral_eq_Suc)

lemma fold_chunk_terms:
  "fold_chunk crc chunk =
     foldl (\<lambda>acc k. acc XOR (crc_bit ^^ (64 - k * 8))
         (ucast (take_bit 8 (drop_bit (k * 8) ((word_of_nat (from_le chunk) :: 64 word) XOR ucast crc)))))
       0 [0, 1, 2, 3, 4, 5, 6, 7]"
proof -
  have "enumerate 0 (map f [7, 6, 5, 4, 3, 2, 1, 0 :: nat]) = map (\<lambda>k. (k, f (7 - k))) [0, 1, 2, 3, 4, 5, 6, 7]"
    for f :: "nat \<Rightarrow> 32 word list"
    by simp
  then show ?thesis
    unfolding fold_chunk_def crc_tables_eq Let_def
    by (simp only: foldl_map split_conv table_get) simp
qed

lemma drop_bit_32: "32 \<le> n \<Longrightarrow> drop_bit n crc = 0" for crc :: "32 word"
  by (rule bit_word_eqI) (use bit_imp_le_length [of crc] in \<open>fastforce simp: bit_simps\<close>)

lemma crc_bits_0: "(crc_bit ^^ n) 0 = 0"
  by (induction n) (simp_all add: crc_bit_def)

lemma fold_chunk_eq:
  assumes "length chunk = 8"
  shows "fold_chunk crc chunk = foldl crc_byte crc chunk"
proof -
  obtain a b c d e f g h where l: "chunk = [a, b, c, d, e, f, g, h]"
    using assms by (auto simp: numeral_eq_Suc length_Suc_conv)
  have peel: "(crc_bit ^^ 64) crc = (crc_bit ^^ 64) (take_bit 8 crc) XOR (crc_bit ^^ 56) (take_bit 8 (drop_bit 8 crc))
      XOR (crc_bit ^^ 48) (take_bit 8 (drop_bit 16 crc)) XOR (crc_bit ^^ 40) (take_bit 8 (drop_bit 24 crc))"
    using crc_bits_peel [of 56 crc] crc_bits_peel [of 48 "drop_bit 8 crc"] crc_bits_peel [of 40 "drop_bit 16 crc"]
      crc_bits_peel [of 32 "drop_bit 24 crc"] by (simp add: drop_bit_32 crc_bits_0 ac_simps)
  have "fold_chunk crc chunk = foldl (\<lambda>acc k. acc XOR (crc_bit ^^ (64 - k * 8))
      (ucast (chunk ! k) XOR take_bit 8 (drop_bit (k * 8) crc))) 0 [0, 1, 2, 3, 4, 5, 6, 7]"
    unfolding fold_chunk_terms
  proof (rule foldl_cong [OF refl refl])
    fix acc and k :: nat assume "k \<in> set [0, 1, 2, 3, 4, 5, 6, 7]"
    then have "k < 8" by auto
    then show "acc XOR (crc_bit ^^ (64 - k * 8))
        (ucast (take_bit 8 (drop_bit (k * 8) ((word_of_nat (from_le chunk) :: 64 word) XOR ucast crc))))
      = acc XOR (crc_bit ^^ (64 - k * 8)) (ucast (chunk ! k) XOR take_bit 8 (drop_bit (k * 8) crc))"
      by (simp only: folded_byte [OF assms])
  qed
  then show ?thesis
    by (simp add: l crc_byte_def crc_bits_xor crc_bits_add peel drop_bit_32 crc_bits_0 ac_simps)
qed

lemma and_32: "(x :: 64 word) AND 0xFFFFFFFF = take_bit 32 x"
  by (simp add: take_bit_eq_mask mask_eq_exp_minus_1)

section \<open>The whole message\<close>

lemma as_chunks_eq:
  "concat (fst (as_chunks xs)) @ snd (as_chunks xs) = xs \<and> (\<forall>c \<in> set (fst (as_chunks xs)). length c = 8)
     \<and> length (snd (as_chunks xs)) < 8"
proof (induction xs rule: as_chunks.induct)
  case (1 xs)
  show ?case
  proof (cases "length xs < 8")
    case True
    then show ?thesis by (simp add: as_chunks.simps [of xs])
  next
    case False
    obtain cs r where c: "as_chunks (drop 8 xs) = (cs, r)" by fastforce
    have e: "as_chunks xs = (take 8 xs # cs, r)" by (subst as_chunks.simps) (simp add: c False)
    have i: "concat cs @ r = drop 8 xs" "\<forall>c \<in> set cs. length c = 8" "length r < 8"
      using "1.IH" [OF False] by (simp_all add: c)
    show ?thesis unfolding e using i False by simp
  qed
qed

text \<open>A loop that takes each chunk as its bytes one after the other.\<close>

lemma chunked_fold:
  assumes "\<And>crc chunk. length chunk = 8 \<Longrightarrow> step crc chunk = foldl crc_byte crc chunk"
  shows "foldl crc_byte (foldl step crc (fst (as_chunks data))) (snd (as_chunks data)) = foldl crc_byte crc data"
proof -
  have "foldl step crc chunks = foldl crc_byte crc (concat chunks)" if "\<forall>c \<in> set chunks. length c = 8" for chunks crc
    using that by (induction chunks arbitrary: crc) (simp_all add: assms)
  then show ?thesis using as_chunks_eq [of data] by (metis foldl_append)
qed

lemma crc_software_eq: "crc_software crc data = crc_reference crc data"
  using chunked_fold [of fold_chunk "NOT crc" data, OF fold_chunk_eq]
  by (simp add: crc_software_def crc_reference_def fold_byte_eq case_prod_unfold)

text \<open>
  C21: the slicing-by-eight tables compute CRC32C. The software loop, eight bytes at a time through
  the eight tables and the rest a byte at a time, gives the checksum the bit-at-a-time definition
  gives, and continuing a checksum over more data is the checksum of the whole.
\<close>

theorem crc_software_correct:
  "crc_software crc data = crc_reference crc data
   \<and> crc_software (crc_software crc data) rest = crc_software crc (data @ rest)"
  by (simp add: crc_software_eq crc_reference_def)

text \<open>
  C22: with instructions that do to the register what the processors document, one byte a step or
  the eight bytes of a word in order, both hardware loops give the software checksum.
\<close>

theorem crc_hardware_agrees:
  assumes "\<And>crc b. byte_step crc b = crc_byte crc b"
    and "\<And>crc chunk. length chunk = 8 \<Longrightarrow> word_step crc (word_of_nat (from_le chunk)) = foldl crc_byte crc chunk"
    and "\<And>crc w. wide_step (ucast (crc :: 32 word)) w = ucast (word_step crc w)"
  shows "crc_aarch64 word_step byte_step crc data = crc_software crc data
    \<and> crc_x86_64 wide_step byte_step crc data = crc_software crc data"
proof -
  have b: "byte_step = crc_byte" using assms(1) by blast
  have w: "foldl (\<lambda>crc chunk. wide_step crc (word_of_nat (from_le chunk))) (ucast c) cs
      = ucast (foldl (\<lambda>crc chunk. word_step crc (word_of_nat (from_le chunk))) c cs)" for c :: "32 word" and cs
    by (induction cs arbitrary: c) (simp_all add: assms(3))
  have low: "ucast ((ucast c :: 64 word) AND 0xFFFFFFFF) = c" for c :: "32 word"
    using and_32 [of "ucast c"] by (auto intro!: bit_word_eqI simp: bit_simps)
  note c = chunked_fold [of "\<lambda>crc chunk. word_step crc (word_of_nat (from_le chunk))" "NOT crc" data, OF assms(2)]
  show ?thesis
    using c by (simp add: crc_aarch64_def crc_x86_64_def b w low crc_software_eq crc_reference_def case_prod_unfold Let_def)
qed

definition demo_word_step :: "32 word \<Rightarrow> 64 word \<Rightarrow> 32 word" where
  "demo_word_step crc w = foldl crc_byte crc (le_bytes 8 (unat w))"

theorem crc_hardware_agrees_witness:
  "crc_aarch64 demo_word_step crc_byte 0 [1, 2, 3] = crc_software 0 [1, 2, 3]"
proof -
  have d: "demo_word_step crc (word_of_nat (from_le chunk)) = foldl crc_byte crc chunk" if "length chunk = 8" for crc chunk
  proof -
    have "take_bit 64 (from_le chunk) = from_le chunk"
      using from_le_less [of chunk] that by (simp add: take_bit_nat_eq_self_iff)
    then show ?thesis using le_bytes_from_le [of chunk] that by (simp add: demo_word_step_def unsigned_of_nat)
  qed
  have u: "ucast (ucast c :: 64 word) = c" for c :: "32 word" by (rule bit_word_eqI) (simp add: bit_simps)
  show ?thesis
    using crc_hardware_agrees [of crc_byte demo_word_step "\<lambda>c w. ucast (demo_word_step (ucast c) w)" 0 "[1, 2, 3]",
        OF refl d] by (simp add: u)
qed

end
