(* ===== verification/Wire_Frame.thy ===== *)
theory Wire_Frame
  imports Wire_Codec Wire_Crc
begin

text \<open>
  Frames (\<open>crates/wire/src/header.rs\<close>, \<open>frame.rs\<close>, \<open>schema.rs\<close> and the request id of \<open>request.rs\<close>):
  the 32-byte header, the caps per class, the registry of kinds, the encoder and the streaming
  decoder. A message is its schema hash and its encoding.
\<close>

section \<open>Schema hashes\<close>

definition fnv_offset :: "64 word" where
  "fnv_offset = 0xCBF29CE484222325"

definition fnv_prime :: "64 word" where
  "fnv_prime = 0x00000100000001B3"

definition mix_multiplier :: "64 word" where
  "mix_multiplier = 0x2545F4914F6CDD1D"

definition fnv64 :: "string \<Rightarrow> 64 word" where
  "fnv64 text = foldl (\<lambda>hash b. (hash XOR ucast b) * fnv_prime) fnv_offset (as_bytes text)"

text \<open>\<open>u64::rotate_left\<close>.\<close>

definition rotate_left :: "nat \<Rightarrow> 64 word \<Rightarrow> 64 word" where
  "rotate_left n w = push_bit n w OR drop_bit (64 - n) w"

definition mix :: "64 word \<Rightarrow> 64 word list \<Rightarrow> 64 word" where
  "mix own hashes =
     foldl (\<lambda>hash field.
       let hash = (hash XOR rotate_left 17 field) * mix_multiplier
       in hash XOR drop_bit 29 hash) own hashes"

section \<open>Request ids\<close>

record request_id =
  rq_client :: "32 word"
  rq_sequence :: "32 word"

definition request_word :: "request_id \<Rightarrow> 64 word" where
  "request_word r = push_bit 32 (ucast (rq_client r)) OR ucast (rq_sequence r)"

definition request_from_word :: "64 word \<Rightarrow> request_id" where
  "request_from_word w = \<lparr>rq_client = ucast (drop_bit 32 w), rq_sequence = ucast (w AND 0xFFFFFFFF)\<rparr>"

lemma request_round_trip [simp]: "request_from_word (request_word r) = r" "request_word (request_from_word w) = w"
proof -
  have "ucast (drop_bit 32 (push_bit 32 (ucast c) OR ucast s :: 64 word)) = c"
    "ucast (take_bit 32 (push_bit 32 (ucast c) OR ucast s :: 64 word)) = s" for c s :: "32 word"
    by (rule bit_word_eqI; use bit_imp_le_length [of c] bit_imp_le_length [of s] in \<open>fastforce simp: bit_simps\<close>)+
  then show "request_from_word (request_word r) = r"
    by (simp add: request_from_word_def request_word_def and_32)
  show "request_word (request_from_word w) = w"
    by (rule bit_word_eqI) (auto simp: request_from_word_def request_word_def and_32 bit_simps)
qed

section \<open>The header\<close>

datatype msg_class = Control | Metadata | Bulk | Telemetry

fun class_word :: "msg_class \<Rightarrow> nat" where
  "class_word Control = 0"
| "class_word Metadata = 1"
| "class_word Bulk = 2"
| "class_word Telemetry = 3"

definition class_all :: "msg_class list" where
  "class_all = [Control, Metadata, Bulk, Telemetry]"

definition class_from_word :: "nat \<Rightarrow> wire_error + msg_class" where
  "class_from_word word = ok_or (find (\<lambda>c. class_word c = word) class_all) (WUnknownClass word)"

definition class_index :: "msg_class \<Rightarrow> nat" where
  "class_index c = class_word c"

definition checksummed :: "msg_class \<Rightarrow> bool" where
  "checksummed c \<longleftrightarrow> c \<noteq> Bulk"

definition flags_contains :: "32 word \<Rightarrow> 32 word \<Rightarrow> bool" where
  "flags_contains f other \<longleftrightarrow> f AND other = other"

definition flags_with :: "32 word \<Rightarrow> 32 word \<Rightarrow> 32 word" where
  "flags_with f other = f OR other"

definition header_len :: nat where
  "header_len = 32"

definition header_magic :: nat where
  "header_magic = 0x53544C53"

definition header_major :: nat where
  "header_major = 1"

definition header_minor :: nat where
  "header_minor = 0"

record header =
  h_minor :: nat
  h_flags :: "32 word"
  h_class :: msg_class
  h_kind :: nat
  h_length :: nat
  h_checksum :: nat
  h_request :: request_id

definition put :: "nat \<Rightarrow> byte list \<Rightarrow> byte list \<Rightarrow> byte list" where
  "put at bytes out =
     (case slice_get out at (sat_add at (length bytes)) of
        Some _ \<Rightarrow> take at out @ bytes @ drop (at + length bytes) out
      | None \<Rightarrow> out)"

definition header_encode :: "header \<Rightarrow> byte list" where
  "header_encode h =
     put 24 (le_bytes 8 (unat (request_word (h_request h))))
     (put 20 (le_bytes 4 (h_checksum h))
     (put 16 (le_bytes 4 (h_length h))
     (put 14 (le_bytes 2 (h_kind h))
     (put 12 (le_bytes 2 (class_word (h_class h)))
     (put 8 (le_bytes 4 (unat (h_flags h)))
     (put 6 (le_bytes 2 (h_minor h))
     (put 4 (le_bytes 2 header_major)
     (put 0 (le_bytes 4 header_magic)
     (replicate header_len 0)))))))))"

text \<open>The \<open>N\<close> bytes at an offset.\<close>

definition field_at :: "byte list \<Rightarrow> nat \<Rightarrow> nat \<Rightarrow> wire_error + nat" where
  "field_at bytes at n =
     rbind (ok_or (slice_get bytes at (sat_add at n)) (WTruncated n)) (\<lambda>field. Inr (from_le field))"

definition header_decode :: "byte list \<Rightarrow> wire_error + header" where
  "header_decode bytes =
     (if length bytes < header_len then Inl (WTruncated (header_len - length bytes))
      else
        rbind (field_at bytes 0 4) (\<lambda>magic.
        if magic \<noteq> header_magic then Inl (WBadMagic magic)
        else
          rbind (field_at bytes 4 2) (\<lambda>major.
          if major \<noteq> header_major then Inl (WUnsupportedMajor major header_major)
          else
            rbind (field_at bytes 6 2) (\<lambda>minor.
            rbind (field_at bytes 8 4) (\<lambda>flags.
            rbind (rbind (field_at bytes 12 2) class_from_word) (\<lambda>cls.
            rbind (field_at bytes 14 2) (\<lambda>kind.
            rbind (field_at bytes 16 4) (\<lambda>len.
            rbind (field_at bytes 20 4) (\<lambda>sum.
            rbind (field_at bytes 24 8) (\<lambda>request.
              Inr \<lparr>h_minor = minor, h_flags = word_of_nat flags, h_class = cls, h_kind = kind,
                   h_length = len, h_checksum = sum,
                   h_request = request_from_word (word_of_nat request)\<rparr>))))))))))"

definition header_ok :: "header \<Rightarrow> bool" where
  "header_ok h \<longleftrightarrow> h_minor h \<le> u16_max \<and> h_kind h \<le> u16_max \<and> h_length h \<le> u32_max \<and> h_checksum h \<le> u32_max"

lemma put_zeros:
  "length pre = at \<Longrightarrow> length bs \<le> k \<Longrightarrow> at + k \<le> u64_max \<Longrightarrow>
     put at bs (pre @ replicate k 0) = (pre @ bs) @ replicate (k - length bs) 0"
  by (auto simp: put_def slice_get_def sat_add_def)

lemma header_fields:
  "header_encode h = le_bytes 4 header_magic @ le_bytes 2 header_major @ le_bytes 2 (h_minor h)
     @ le_bytes 4 (unat (h_flags h)) @ le_bytes 2 (class_word (h_class h)) @ le_bytes 2 (h_kind h)
     @ le_bytes 4 (h_length h) @ le_bytes 4 (h_checksum h) @ le_bytes 8 (unat (request_word (h_request h)))"
proof -
  have "replicate header_len 0 = [] @ replicate 32 (0 :: byte)" by (simp add: header_len_def)
  then show ?thesis
    unfolding header_encode_def
    by (simp add: put_zeros u64_max_def del: append_assoc append_Nil replicate_Suc)
qed

lemma header_encode_length [simp]: "length (header_encode h) = 32"
  by (simp add: header_fields)

lemma field_at_eq: "at + n \<le> length bytes \<Longrightarrow> at + n \<le> u64_max \<Longrightarrow> field_at bytes at n = Inr (from_le (take n (drop at bytes)))"
  by (simp add: field_at_def slice_get_def sat_add_small)

lemma class_from_word_eq: "class_from_word w = Inr c \<longleftrightarrow> w = class_word c"
proof -
  have "class_from_word (class_word c) = Inr c" by (cases c) (simp_all add: class_from_word_def class_all_def)
  moreover have "w = class_word c" if "class_from_word w = Inr c"
    using that by (auto simp: class_from_word_def find_Some_iff)
  ultimately show ?thesis by blast
qed

text \<open>The decoder accepts exactly the encodings, whatever follows.\<close>

lemma header_decode_enc: "header_ok h \<Longrightarrow> header_decode (header_encode h @ rest) = Inr h"
proof -
  assume ok: "header_ok h"
  have u: "unat (h_flags h) < 256 ^ 4" "unat (request_word (h_request h)) < 256 ^ 8"
    using unsigned_less [of "h_flags h"] unsigned_less [of "request_word (h_request h)"] by simp_all
  have c: "class_word (h_class h) < 256 ^ 2" by (cases "h_class h") simp_all
  have "field_at (header_encode h @ rest) at n = Inr (from_le (take n (drop at (header_encode h @ rest))))"
    if "at + n \<le> 32" for at n
    using that by (intro field_at_eq) (simp_all add: u64_max_def)
  then show ?thesis
    using ok u c class_from_word_eq [of "class_word (h_class h)" "h_class h"]
    by (simp add: header_decode_def header_len_def header_fields header_ok_def header_magic_def header_major_def
        u16_max_def u32_max_def)
qed

lemma header_decode_exact:
  assumes "header_decode bytes = Inr h"
  shows "header_ok h \<and> bytes = header_encode h @ drop 32 bytes"
proof -
  have len: "32 \<le> length bytes" using assms by (auto simp: header_decode_def header_len_def split: if_splits)
  let ?f = "\<lambda>at n. take n (drop at bytes)"
  have f: "field_at bytes at n = Inr (from_le (?f at n))" if "at + n \<le> 32" for at n
    using that len by (intro field_at_eq) (simp_all add: u64_max_def)
  have w: "le_bytes n (from_le (?f at n)) = ?f at n" "from_le (?f at n) < 256 ^ n" if "at + n \<le> 32" for at n
    using le_bytes_from_le [of "?f at n"] from_le_less [of "?f at n"] that len by (simp_all add: min_absorb2)
  have d: "from_le (?f 0 4) = header_magic" "from_le (?f 4 2) = header_major" "h_minor h = from_le (?f 6 2)"
    "h_flags h = word_of_nat (from_le (?f 8 4))" "from_le (?f 12 2) = class_word (h_class h)"
    "h_kind h = from_le (?f 14 2)" "h_length h = from_le (?f 16 4)" "h_checksum h = from_le (?f 20 4)"
    "request_word (h_request h) = word_of_nat (from_le (?f 24 8))"
    using assms by (auto simp: header_decode_def header_len_def f rbind_Inr_iff class_from_word_eq split: if_splits)
  have u: "unat (h_flags h) = from_le (?f 8 4)" "unat (request_word (h_request h)) = from_le (?f 24 8)"
    using w(2) [of 8 4] w(2) [of 24 8] by (simp_all add: d unsigned_of_nat take_bit_nat_eq_self_iff)
  have "header_encode h = ?f 0 4 @ ?f 4 2 @ ?f 6 2 @ ?f 8 4 @ ?f 12 2 @ ?f 14 2 @ ?f 16 4 @ ?f 20 4 @ ?f 24 8"
    unfolding header_fields u d(3,6,7,8)
    using w(1) [of 0 4, unfolded d(1)] w(1) [of 4 2, unfolded d(2)] w(1) [of 12 2, unfolded d(5)] w(1) by simp
  also have "\<dots> = take 32 bytes"
    using take_add [of 4 28 bytes] take_add [of 2 26 "drop 4 bytes"] take_add [of 2 24 "drop 6 bytes"]
      take_add [of 4 20 "drop 8 bytes"] take_add [of 2 18 "drop 12 bytes"] take_add [of 2 16 "drop 14 bytes"]
      take_add [of 4 12 "drop 16 bytes"] take_add [of 4 8 "drop 20 bytes"] by simp
  finally have "header_encode h @ drop 32 bytes = bytes" by simp
  then show ?thesis using d w(2) [of 6 2] w(2) [of 14 2] w(2) [of 16 4] w(2) [of 20 4]
    by (simp add: header_ok_def u16_max_def u32_max_def)
qed

section \<open>Frames\<close>

text \<open>One cap per class, indexed by \<open>Class::index\<close>.\<close>

type_synonym frame_caps = "nat list"

definition small_cap :: "nat \<Rightarrow> nat \<Rightarrow> nat \<Rightarrow> nat" where
  "small_cap mtu bandwidth budget = max (to_u32 (sat_mul bandwidth budget)) mtu"

definition caps_derive :: "nat \<Rightarrow> nat \<Rightarrow> nat \<Rightarrow> nat \<Rightarrow> nat \<Rightarrow> frame_caps" where
  "caps_derive mtu bandwidth control metadata bulk =
     [small_cap mtu bandwidth control, small_cap mtu bandwidth metadata, max bulk mtu, mtu]"

definition caps_explicit :: "nat \<Rightarrow> nat \<Rightarrow> nat \<Rightarrow> nat \<Rightarrow> frame_caps" where
  "caps_explicit control metadata bulk telemetry = [control, metadata, bulk, telemetry]"

definition frame_cap :: "frame_caps \<Rightarrow> msg_class \<Rightarrow> nat" where
  "frame_cap caps c = unwrap_or (list_get caps (class_index c)) 0"

record kind_entry =
  ke_class :: msg_class
  ke_kind :: nat
  ke_hash :: nat

record frame =
  f_header :: header
  f_body :: "byte list"

record framer =
  fr_caps :: frame_caps
  fr_kinds :: "kind_entry list"

definition framer_entry :: "framer \<Rightarrow> msg_class \<Rightarrow> nat \<Rightarrow> kind_entry option" where
  "framer_entry f c kind = find (\<lambda>k. ke_class k = c \<and> ke_kind k = kind) (fr_kinds f)"

definition crc32c :: "byte list \<Rightarrow> nat" where
  "crc32c data = unat (crc_software 0 data)"

text \<open>A message is its type's schema hash and its encoding.\<close>

definition frame_encode ::
  "framer \<Rightarrow> msg_class \<Rightarrow> nat \<Rightarrow> request_id \<Rightarrow> 32 word \<Rightarrow> nat \<times> byte list \<Rightarrow> wire_error + byte list" where
  "frame_encode f c kind request flags message =
     rbind (ok_or (framer_entry f c kind) (WUnknownKind (class_word c) kind)) (\<lambda>entry.
     if ke_hash entry \<noteq> fst message then Inl (WSchemaMismatch (ke_hash entry) (fst message))
     else
       let body = uint_encode 8 (fst message) @ snd message;
           len = to_u32 (length body);
           cap = frame_cap (fr_caps f) c
       in if len > cap then Inl (WFrameTooLarge len cap)
          else
            let sum = (if checksummed c then crc32c body else 0);
                header = \<lparr>h_minor = header_minor, h_flags = flags, h_class = c, h_kind = kind,
                          h_length = len, h_checksum = sum, h_request = request\<rparr>
            in Inr (header_encode header @ body))"

text \<open>The body of a frame whose header was accepted and whose kind is registered.\<close>

definition frame_take :: "kind_entry \<Rightarrow> header \<Rightarrow> frame wire_decoder" where
  "frame_take entry header input =
     (let end = sat_add header_len (h_length header)
      in case slice_get input header_len end of
           None \<Rightarrow> Inl (WTruncated (end - length input))
         | Some body \<Rightarrow>
             if checksummed (h_class header) \<and> crc32c body \<noteq> h_checksum header
             then Inl (WChecksumMismatch (h_checksum header) (crc32c body))
             else
               rbind (uint_decode 8 body) (\<lambda>(schema, rest).
               if schema \<noteq> ke_hash entry then Inl (WSchemaMismatch (ke_hash entry) schema)
               else Inr (\<lparr>f_header = header, f_body = rest\<rparr>, drop end input)))"

definition frame_decode :: "framer \<Rightarrow> frame wire_decoder" where
  "frame_decode f input =
     rbind (header_decode input) (\<lambda>header.
     let cap = frame_cap (fr_caps f) (h_class header)
     in if h_length header > cap then Inl (WFrameTooLarge (h_length header) cap)
        else
          rbind (ok_or (framer_entry f (h_class header) (h_kind header))
                   (WUnknownKind (class_word (h_class header)) (h_kind header))) (\<lambda>entry.
          frame_take entry header input))"

text \<open>A frame as the encoder lays it out, and what its header says of its body.\<close>

definition frame_bytes :: "frame \<Rightarrow> nat \<Rightarrow> byte list" where
  "frame_bytes fr hash = header_encode (f_header fr) @ uint_encode 8 hash @ f_body fr"

definition frame_ok :: "framer \<Rightarrow> frame \<Rightarrow> nat \<Rightarrow> bool" where
  "frame_ok f fr hash \<longleftrightarrow>
     (let h = f_header fr; body = uint_encode 8 hash @ f_body fr
      in header_ok h \<and> hash < 256 ^ 8 \<and> h_length h = length body \<and> length body \<le> frame_cap (fr_caps f) (h_class h)
       \<and> (\<exists>e. framer_entry f (h_class h) (h_kind h) = Some e \<and> ke_hash e = hash)
       \<and> (checksummed (h_class h) \<longrightarrow> h_checksum h = crc32c body))"

lemma frame_end: "h_length h \<le> u32_max \<Longrightarrow> sat_add header_len (h_length h) = 32 + h_length h"
  by (simp add: header_len_def sat_add_small u32_max_def u64_max_def)

text \<open>The body part reads exactly the bytes its header announces.\<close>

lemma frame_take_iff:
  assumes "h_length h \<le> u32_max" "length pre = 32"
  shows "frame_take entry h (pre @ tail) = Inr (fr, rest) \<longleftrightarrow>
    ke_hash entry < 256 ^ 8 \<and> f_header fr = h \<and> h_length h = length (uint_encode 8 (ke_hash entry) @ f_body fr)
    \<and> tail = uint_encode 8 (ke_hash entry) @ f_body fr @ rest
    \<and> (checksummed (h_class h) \<longrightarrow> h_checksum h = crc32c (uint_encode 8 (ke_hash entry) @ f_body fr))"
    (is "?l \<longleftrightarrow> ?r")
proof
  assume l: ?l
  then have n: "h_length h \<le> length tail"
    unfolding frame_take_def frame_end [OF assms(1)] Let_def
    using assms(2) by (auto simp: slice_get_def header_len_def split: if_splits)
  have s: "slice_get (pre @ tail) header_len (32 + h_length h) = Some (take (h_length h) tail)"
    using n assms(2) by (simp add: slice_get_def header_len_def)
  from l obtain body where b: "uint_decode 8 (take (h_length h) tail) = Inr (ke_hash entry, body)" "f_body fr = body"
    "f_header fr = h" "rest = drop (h_length h) tail"
    "checksummed (h_class h) \<longrightarrow> h_checksum h = crc32c (take (h_length h) tail)"
    unfolding frame_take_def frame_end [OF assms(1)] Let_def s
    using assms(2) by (auto simp: rbind_Inr_iff split: if_splits)
  from u64w.dec_exact [OF b(1)] have k: "ke_hash entry < 256 ^ 8" "take (h_length h) tail = uint_encode 8 (ke_hash entry) @ body"
    by simp_all
  have "tail = take (h_length h) tail @ rest" by (simp add: b(4))
  moreover have "h_length h = length (take (h_length h) tail)" using n by simp
  ultimately show ?r using k b by auto
next
  assume r: ?r
  then have "slice_get (pre @ tail) header_len (32 + h_length h) = Some (uint_encode 8 (ke_hash entry) @ f_body fr)"
    "drop (32 + h_length h) (pre @ tail) = rest"
    using assms(2) by (simp_all add: slice_get_def header_len_def)
  moreover have "uint_decode 8 (uint_encode 8 (ke_hash entry) @ f_body fr) = Inr (ke_hash entry, f_body fr)"
    using r u64w.dec_enc by simp
  ultimately show ?l using r unfolding frame_take_def frame_end [OF assms(1)] Let_def by auto
qed

lemma frame_decode_iff:
  "frame_decode f input = Inr (fr, rest) \<longleftrightarrow> (\<exists>hash. frame_ok f fr hash \<and> input = frame_bytes fr hash @ rest)"
proof
  assume d: "frame_decode f input = Inr (fr, rest)"
  then obtain h e where h: "header_decode input = Inr h" "h_length h \<le> frame_cap (fr_caps f) (h_class h)"
    "framer_entry f (h_class h) (h_kind h) = Some e" "frame_take e h input = Inr (fr, rest)"
    by (auto simp: frame_decode_def Let_def rbind_Inr_iff split: if_splits)
  from header_decode_exact [OF h(1)] have x: "header_ok h" "input = header_encode h @ drop 32 input" by auto
  have "h_length h \<le> u32_max" using x(1) by (simp add: header_ok_def)
  from frame_take_iff [OF this, of "header_encode h" e "drop 32 input" fr rest] h(4) x(2)
  have t: "ke_hash e < 256 ^ 8" "f_header fr = h" "h_length h = length (uint_encode 8 (ke_hash e) @ f_body fr)"
    "drop 32 input = uint_encode 8 (ke_hash e) @ f_body fr @ rest"
    "checksummed (h_class h) \<longrightarrow> h_checksum h = crc32c (uint_encode 8 (ke_hash e) @ f_body fr)" by auto
  have "frame_ok f fr (ke_hash e)" using t x h(2,3) by (auto simp: frame_ok_def Let_def)
  moreover have "input = frame_bytes fr (ke_hash e) @ rest" using x(2) t by (simp add: frame_bytes_def)
  ultimately show "\<exists>hash. frame_ok f fr hash \<and> input = frame_bytes fr hash @ rest" by blast
next
  assume "\<exists>hash. frame_ok f fr hash \<and> input = frame_bytes fr hash @ rest"
  then obtain hash where ok: "frame_ok f fr hash" and i: "input = frame_bytes fr hash @ rest" by blast
  let ?h = "f_header fr"
  obtain e where e: "framer_entry f (h_class ?h) (h_kind ?h) = Some e" "ke_hash e = hash"
    using ok by (auto simp: frame_ok_def Let_def)
  have hd: "header_decode input = Inr ?h"
    using header_decode_enc [of ?h "uint_encode 8 hash @ f_body fr @ rest"] ok
    by (simp add: i frame_bytes_def frame_ok_def Let_def)
  have "h_length ?h \<le> u32_max" using ok by (simp add: frame_ok_def header_ok_def Let_def)
  from frame_take_iff [OF this, of "header_encode ?h" e "uint_encode 8 hash @ f_body fr @ rest" fr rest]
  have "frame_take e ?h input = Inr (fr, rest)" using ok e by (auto simp: i frame_bytes_def frame_ok_def Let_def)
  then show "frame_decode f input = Inr (fr, rest)"
    using ok e(1) hd by (auto simp: frame_decode_def frame_ok_def Let_def)
qed

text \<open>What the encoder writes: the well-formed frame with this version's minor, and no checksum where the class has none.\<close>

lemma frame_encode_iff:
  assumes "kind \<le> u16_max" "hash < 256 ^ 8" "length msg + 8 \<le> u32_max"
  shows "frame_encode f c kind request flags (hash, msg) = Inr bytes \<longleftrightarrow>
    (\<exists>fr. frame_ok f fr hash \<and> bytes = frame_bytes fr hash \<and> f_body fr = msg \<and> h_class (f_header fr) = c
      \<and> h_kind (f_header fr) = kind \<and> h_request (f_header fr) = request \<and> h_flags (f_header fr) = flags
      \<and> h_minor (f_header fr) = header_minor \<and> (checksummed c \<or> h_checksum (f_header fr) = 0))"
    (is "?l \<longleftrightarrow> (\<exists>fr. ?r fr)")
proof -
  let ?b = "uint_encode 8 hash @ msg"
  let ?h = "\<lparr>h_minor = header_minor, h_flags = flags, h_class = c, h_kind = kind, h_length = length ?b,
     h_checksum = if checksummed c then crc32c ?b else 0, h_request = request\<rparr>"
  let ?fr = "\<lparr>f_header = ?h, f_body = msg\<rparr>"
  have l: "length ?b \<le> u32_max" using assms(3) by (simp add: uint_encode_def)
  have "unat (crc_software 0 ?b) < 2 ^ LENGTH(32)" by (rule unsigned_less)
  then have "crc32c ?b \<le> u32_max" by (simp add: crc32c_def u32_max_def)
  then have h: "header_ok ?h" using assms(1) l by (simp add: header_ok_def header_minor_def)
  have e: "?l \<longleftrightarrow> (\<exists>e. framer_entry f c kind = Some e \<and> ke_hash e = hash) \<and> length ?b \<le> frame_cap (fr_caps f) c
      \<and> bytes = header_encode ?h @ ?b"
    using l by (auto simp: frame_encode_def Let_def to_u32_small rbind_Inr_iff)
  have "?l \<longleftrightarrow> frame_ok f ?fr hash \<and> bytes = frame_bytes ?fr hash"
    unfolding e using h assms(2) by (auto simp: frame_ok_def frame_bytes_def Let_def)
  moreover have "fr = ?fr" if "?r fr" for fr
    using that by (cases fr, cases "f_header fr") (auto simp: frame_ok_def Let_def)
  ultimately show ?thesis by fastforce
qed

text \<open>
  C23: what the decoder accepts and what the encoder writes, exactly. The decoder accepts a stream, as
  a frame and what is left, when and only when it starts with the layout of a frame whose header
  fits its fields, whose kind is registered with the schema the body names, whose length is that of
  the body and within the cap of its class, and whose checksum is right where the class has one.
  The encoder writes bytes for a message when and only when the decoder reads them whole as a frame
  with that message, class, kind, request and flags, of the registered schema, whose minor is this
  version's and whose checksum is 0 where the class has none: the decoder takes any minor, and any
  checksum on a bulk frame.
\<close>

theorem frame_exact:
  assumes "kind \<le> u16_max" "hash < 256 ^ 8" "length msg + 8 \<le> u32_max"
  shows "(frame_decode f input = Inr (fr, left) \<longleftrightarrow> (\<exists>hash. frame_ok f fr hash \<and> input = frame_bytes fr hash @ left))
    \<and> (frame_encode f c kind request flags (hash, msg) = Inr bytes \<longleftrightarrow>
        (\<exists>h e. frame_decode f bytes = Inr (\<lparr>f_header = h, f_body = msg\<rparr>, [])
          \<and> framer_entry f c kind = Some e \<and> ke_hash e = hash
          \<and> h_class h = c \<and> h_kind h = kind \<and> h_request h = request \<and> h_flags h = flags
          \<and> h_minor h = header_minor \<and> (checksummed c \<or> h_checksum h = 0)))"
proof -
  show ?thesis
  proof (intro conjI frame_decode_iff, unfold frame_encode_iff [OF assms] frame_decode_iff append_Nil2, intro iffI; elim exE conjE)
    fix fr assume fr: "frame_ok f fr hash" "bytes = frame_bytes fr hash" "f_body fr = msg" "h_class (f_header fr) = c"
      "h_kind (f_header fr) = kind" "h_request (f_header fr) = request" "h_flags (f_header fr) = flags"
      "h_minor (f_header fr) = header_minor" "checksummed c \<or> h_checksum (f_header fr) = 0"
    have "\<lparr>f_header = f_header fr, f_body = msg\<rparr> = fr" using fr(3) by simp
    moreover obtain e where "framer_entry f c kind = Some e" "ke_hash e = hash" using fr(1,4,5) by (auto simp: frame_ok_def Let_def)
    ultimately show "\<exists>h e. (\<exists>k. frame_ok f \<lparr>f_header = h, f_body = msg\<rparr> k \<and> bytes = frame_bytes \<lparr>f_header = h, f_body = msg\<rparr> k)
        \<and> framer_entry f c kind = Some e \<and> ke_hash e = hash \<and> h_class h = c \<and> h_kind h = kind \<and> h_request h = request
        \<and> h_flags h = flags \<and> h_minor h = header_minor \<and> (checksummed c \<or> h_checksum h = 0)"
      using fr by metis
  next
    fix h e k assume h: "frame_ok f \<lparr>f_header = h, f_body = msg\<rparr> k" "bytes = frame_bytes \<lparr>f_header = h, f_body = msg\<rparr> k"
      "framer_entry f c kind = Some e" "ke_hash e = hash" "h_class h = c" "h_kind h = kind" "h_request h = request"
      "h_flags h = flags" "h_minor h = header_minor" "checksummed c \<or> h_checksum h = 0"
    have "k = hash" using h(1,3-6) by (auto simp: frame_ok_def Let_def)
    then show "\<exists>fr. frame_ok f fr hash \<and> bytes = frame_bytes fr hash \<and> f_body fr = msg \<and> h_class (f_header fr) = c
      \<and> h_kind (f_header fr) = kind \<and> h_request (f_header fr) = request \<and> h_flags (f_header fr) = flags
      \<and> h_minor (f_header fr) = header_minor \<and> (checksummed c \<or> h_checksum (f_header fr) = 0)"
      using h by (intro exI [of _ "\<lparr>f_header = h, f_body = msg\<rparr>"]) simp
  qed
qed

definition demo_framer :: framer where
  "demo_framer = \<lparr>fr_caps = caps_explicit 64 128 1024 32,
     fr_kinds = [\<lparr>ke_class = Control, ke_kind = 1, ke_hash = 7\<rparr>]\<rparr>"

definition demo_frame :: "byte list" where
  "demo_frame = (case frame_encode demo_framer Control 1 \<lparr>rq_client = 1, rq_sequence = 2\<rparr> 0 (7, [1, 2, 3]) of
     Inr bytes \<Rightarrow> bytes | Inl _ \<Rightarrow> [])"

lemma demo_frame_encode:
  "frame_encode demo_framer Control 1 \<lparr>rq_client = 1, rq_sequence = 2\<rparr> 0 (7, [1, 2, 3]) = Inr demo_frame"
  by (simp add: demo_frame_def frame_encode_def demo_framer_def framer_entry_def caps_explicit_def frame_cap_def
      class_index_def list_get_def uint_encode_def to_u32_def u32_max_def Let_def)

theorem frame_exact_witness:
  "\<exists>h. frame_decode demo_framer demo_frame = Inr (\<lparr>f_header = h, f_body = [1, 2, 3]\<rparr>, []) \<and> h_request h = \<lparr>rq_client = 1, rq_sequence = 2\<rparr>"
  using frame_exact [of 1 7 "[1, 2, 3]" demo_framer _ _ _ Control "\<lparr>rq_client = 1, rq_sequence = 2\<rparr>" 0 demo_frame] demo_frame_encode
  by (auto simp: u16_max_def u32_max_def)

text \<open>
  C24: a stream is never misread. Of a good frame every proper prefix is answered with how many more
  bytes to wait for, at least one and never past the end of the frame.
\<close>

theorem frame_prefix_waits:
  assumes "frame_ok f fr hash" "n < length (frame_bytes fr hash)"
  shows "\<exists>k. frame_decode f (take n (frame_bytes fr hash)) = Inl (WTruncated k) \<and> 0 < k
    \<and> n + k \<le> length (frame_bytes fr hash)"
proof (cases "n < 32")
  case True
  then show ?thesis
    by (intro exI [of _ "32 - n"]) (simp add: frame_decode_def header_decode_def header_len_def frame_bytes_def)
next
  case False
  let ?h = "f_header fr" and ?i = "take n (frame_bytes fr hash)"
  obtain e where e: "framer_entry f (h_class ?h) (h_kind ?h) = Some e" using assms(1) by (auto simp: frame_ok_def Let_def)
  have l: "h_length ?h \<le> u32_max" "length (frame_bytes fr hash) = 32 + h_length ?h"
    using assms(1) by (simp_all add: frame_ok_def header_ok_def frame_bytes_def Let_def)
  have "?i = header_encode ?h @ take (n - 32) (uint_encode 8 hash @ f_body fr)"
    using False by (simp add: frame_bytes_def)
  then have hd: "header_decode ?i = Inr ?h"
    using header_decode_enc [of ?h] assms(1) by (simp add: frame_ok_def Let_def)
  have "frame_take e ?h ?i = Inl (WTruncated (32 + h_length ?h - n))"
    unfolding frame_take_def frame_end [OF l(1)] Let_def
    using assms(2) l(2) by (simp add: slice_get_def)
  then have "frame_decode f ?i = Inl (WTruncated (32 + h_length ?h - n))"
    using hd e assms(1) by (simp add: frame_decode_def frame_ok_def Let_def)
  then show ?thesis using assms(2) l(2) by auto
qed

theorem frame_prefix_waits_witness:
  "\<exists>k. frame_decode demo_framer (take 40 demo_frame) = Inl (WTruncated k) \<and> 0 < k"
proof -
  obtain fr where fr: "frame_ok demo_framer fr 7" "demo_frame = frame_bytes fr 7" "f_body fr = [1, 2, 3]"
    using frame_encode_iff [THEN iffD1, OF _ _ _ demo_frame_encode] by (auto simp: u16_max_def u32_max_def)
  have "40 < length (frame_bytes fr 7)" by (simp add: frame_bytes_def uint_encode_def fr(3))
  from frame_prefix_waits [OF fr(1) this] show ?thesis unfolding fr(2) by blast
qed

section \<open>Caps\<close>

lemma caps_derive_mtu: "mtu \<le> frame_cap (caps_derive mtu bandwidth control metadata bulk) c"
  by (cases c) (simp_all add: frame_cap_def caps_derive_def class_index_def list_get_def small_cap_def)

end
