(* ===== verification/Wire_Window.thy ===== *)
theory Wire_Window
  imports Wire_Codec Ordered_Maps
begin

text \<open>
  Credit per stream (\<open>crates/wire/src/credit.rs\<close>) and the completion window that makes a request
  run once (\<open>crates/wire/src/request.rs\<close>). Both are shown over every sequence of their operations.
\<close>

section \<open>Credit\<close>

record credit =
  cr_granted :: nat
  cr_sent :: nat

definition credit_default :: credit where
  "credit_default = \<lparr>cr_granted = 0, cr_sent = 0\<rparr>"

definition credit_available :: "credit \<Rightarrow> nat" where
  "credit_available c = cr_granted c - cr_sent c"

definition credit_grant :: "nat \<Rightarrow> credit \<Rightarrow> credit" where
  "credit_grant up_to c = c\<lparr>cr_granted := max (cr_granted c) up_to\<rparr>"

definition credit_reserve :: "nat \<Rightarrow> credit \<Rightarrow> wire_error + credit" where
  "credit_reserve bytes c =
     (let available = credit_available c
      in if bytes > available then Inl (WCreditExceeded bytes available)
         else Inr (c\<lparr>cr_sent := sat_add (cr_sent c) bytes\<rparr>))"

definition window_size :: "nat \<Rightarrow> nat \<Rightarrow> nat \<Rightarrow> nat \<Rightarrow> nat" where
  "window_size bandwidth rtt cap budget =
     (let bdp = sat_mul bandwidth rtt; by_budget = sat_mul bandwidth budget
      in min (max bdp cap) (max by_budget cap))"

text \<open>A sender and a receiver over one stream: the credit and the bytes let through so far.\<close>

inductive credit_run :: "credit \<Rightarrow> nat \<Rightarrow> nat \<Rightarrow> bool" where
  fresh: "credit_run credit_default 0 0"
| granted: "credit_run c limit sent \<Longrightarrow> n \<le> u64_max \<Longrightarrow> credit_run (credit_grant n c) (max limit n) sent"
| reserved: "credit_run c limit sent \<Longrightarrow> credit_reserve n c = Inr c' \<Longrightarrow> credit_run c' limit (sent + n)"
| refused: "credit_run c limit sent \<Longrightarrow> credit_reserve n c = Inl e \<Longrightarrow> credit_run c limit sent"

lemma credit_run_laws: "credit_run c limit sent \<Longrightarrow> cr_granted c = limit \<and> cr_sent c = sent \<and> sent \<le> limit \<and> limit \<le> u64_max"
proof (induction rule: credit_run.induct)
  case (reserved c limit sent n c')
  then have "n \<le> limit - sent" "c' = c\<lparr>cr_sent := sat_add sent n\<rparr>"
    by (auto simp: credit_reserve_def credit_available_def Let_def split: if_splits)
  moreover have "sat_add sent n = sent + n" using reserved.IH calculation(1) by (intro sat_add_small) linarith
  ultimately show ?case using reserved.IH by auto
qed (auto simp: credit_default_def credit_grant_def)

text \<open>
  C25: a sender never passes its grant. Over every sequence of grants, reservations and refusals the
  stream's credit is the highest grant and the exact bytes let through, no grant shrinks it, and
  what was sent never exceeds what was granted; a reservation is refused exactly when it would.
\<close>

theorem credit_never_exceeded:
  assumes "credit_run c limit sent"
  shows "sent \<le> limit \<and> cr_granted c = limit \<and> cr_sent c = sent
    \<and> (credit_reserve n c = Inl (WCreditExceeded n (limit - sent)) \<longleftrightarrow> limit < sent + n)"
  using credit_run_laws [OF assms] by (auto simp: credit_reserve_def credit_available_def Let_def)

theorem credit_never_exceeded_witness:
  "credit_reserve 41 \<lparr>cr_granted = 100, cr_sent = 60\<rparr> = Inl (WCreditExceeded 41 40)"
proof -
  have "credit_run (credit_grant 100 credit_default) (max 0 100) 0"
    by (rule credit_run.granted [OF credit_run.fresh]) (simp add: u64_max_def)
  then have "credit_run \<lparr>cr_granted = 100, cr_sent = 60\<rparr> (max 0 100) (0 + 60)"
    by (rule credit_run.reserved)
      (simp add: credit_reserve_def credit_available_def credit_grant_def credit_default_def sat_add_def u64_max_def)
  from credit_never_exceeded [OF this, of 41] show ?thesis by simp
qed

lemma window_size_bounds:
  "cap \<le> window_size bandwidth rtt cap budget"
  "window_size bandwidth rtt cap budget \<le> max cap (sat_mul bandwidth budget)"
  "window_size bandwidth rtt cap budget \<le> max cap (sat_mul bandwidth rtt)"
  by (auto simp: window_size_def Let_def)

section \<open>The completion window\<close>

datatype 'a seen = New | Completed 'a | Acknowledged

record 'a client_window =
  cw_acknowledged :: "nat option"
  cw_completions :: "(nat, 'a) btmap"

definition window_default :: "'a client_window" where
  "window_default = \<lparr>cw_acknowledged = None, cw_completions = []\<rparr>"

text \<open>\<open>acknowledged_up_to.is_some_and(|up_to| sequence <= up_to)\<close>.\<close>

definition is_acknowledged :: "'a client_window \<Rightarrow> nat \<Rightarrow> bool" where
  "is_acknowledged w s \<longleftrightarrow> (case cw_acknowledged w of None \<Rightarrow> False | Some up_to \<Rightarrow> s \<le> up_to)"

definition window_lookup :: "'a client_window \<Rightarrow> nat \<Rightarrow> 'a seen" where
  "window_lookup w s =
     (if is_acknowledged w s then Acknowledged
      else case bt_get (cw_completions w) s of Some r \<Rightarrow> Completed r | None \<Rightarrow> New)"

definition window_record :: "nat \<Rightarrow> 'a \<Rightarrow> 'a client_window \<Rightarrow> 'a client_window" where
  "window_record s r w =
     (if is_acknowledged w s then w else w\<lparr>cw_completions := bt_insert s r (cw_completions w)\<rparr>)"

text \<open>\<open>BTreeMap::split_off\<close> keeps the keys at or above its argument; the successor saturates in \<open>u32\<close>.\<close>

definition split_off :: "nat \<Rightarrow> (nat, 'a) btmap \<Rightarrow> (nat, 'a) btmap" where
  "split_off k m = filter (\<lambda>e. k \<le> fst e) m"

definition window_acknowledge :: "nat \<Rightarrow> 'a client_window \<Rightarrow> 'a client_window" where
  "window_acknowledge up_to w =
     w\<lparr>cw_acknowledged := Some (case cw_acknowledged w of None \<Rightarrow> up_to | Some a \<Rightarrow> max a up_to),
       cw_completions := split_off (min (up_to + 1) u32_max) (cw_completions w)\<rparr>"

definition window_retained :: "'a client_window \<Rightarrow> nat" where
  "window_retained w = length (cw_completions w)"

section \<open>Exactly once\<close>

datatype 'a window_op = Recorded nat 'a | Acked nat

fun window_step :: "'a client_window \<Rightarrow> 'a window_op \<Rightarrow> 'a client_window" where
  "window_step w (Recorded s r) = window_record s r w"
| "window_step w (Acked n) = window_acknowledge n w"

definition window_run :: "'a window_op list \<Rightarrow> 'a client_window" where
  "window_run ops = foldl window_step window_default ops"

text \<open>What the history of a client says of a sequence number.\<close>

definition acked :: "'a window_op list \<Rightarrow> nat \<Rightarrow> bool" where
  "acked ops s \<longleftrightarrow> list_ex (\<lambda>p. case p of Acked n \<Rightarrow> s \<le> n | Recorded _ _ \<Rightarrow> False) ops"

definition last_record :: "'a window_op list \<Rightarrow> nat \<Rightarrow> 'a option" where
  "last_record ops s =
     map_of (rev (List.map_filter (\<lambda>p. case p of Recorded k r \<Rightarrow> Some (k, r) | Acked _ \<Rightarrow> None) ops)) s"

lemma bt_get_split_off: "bt_get (split_off k m) j = (if k \<le> j then bt_get m j else None)"
  by (induction m) (auto simp: split_off_def bt_get_def)

lemma window_run_snoc [simp]: "window_run (ops @ [p]) = window_step (window_run ops) p"
  by (simp add: window_run_def)

lemma window_run_ack: "is_acknowledged (window_run ops) s \<longleftrightarrow> acked ops s"
proof (induction ops arbitrary: s rule: rev_induct)
  case Nil
  show ?case by (simp add: window_run_def window_default_def is_acknowledged_def acked_def)
next
  case (snoc p ops)
  have "is_acknowledged (window_step w p) s \<longleftrightarrow> is_acknowledged w s \<or> (\<exists>n. p = Acked n \<and> s \<le> n)" for w
    by (cases p) (auto simp: window_record_def window_acknowledge_def is_acknowledged_def split: option.splits)
  then show ?case using snoc by (cases p) (auto simp: acked_def)
qed

lemma window_run_get:
  "\<not> acked ops s \<Longrightarrow> s \<le> u32_max \<Longrightarrow> bt_get (cw_completions (window_run ops)) s = last_record ops s"
proof (induction ops rule: rev_induct)
  case Nil
  show ?case by (simp add: window_run_def window_default_def last_record_def List.map_filter_simps)
next
  case (snoc p ops)
  then have ih: "bt_get (cw_completions (window_run ops)) s = last_record ops s" by (auto simp: acked_def)
  have na: "\<not> is_acknowledged (window_run ops) s" using snoc.prems(1) by (auto simp: window_run_ack acked_def)
  show ?case
  proof (cases p)
    case (Recorded k r)
    then show ?thesis
      using ih na by (cases "k = s") (auto simp: window_record_def last_record_def List.map_filter_def)
  next
    case (Acked n)
    then have "n < s" using snoc.prems(1) by (auto simp: acked_def)
    then show ?thesis
      using ih Acked snoc.prems(2)
      by (simp add: window_acknowledge_def bt_get_split_off last_record_def List.map_filter_def min_def)
  qed
qed

text \<open>
  C26: a request runs once. After any history of completions and acknowledgements a lookup answers
  exactly what the history says: a sequence the client acknowledged is refused as stale for good,
  one it has not is answered with the result last recorded for it, and only a sequence never
  recorded is new.
\<close>

theorem window_exactly_once:
  assumes "s \<le> u32_max"
  shows "window_lookup (window_run ops) s =
    (if acked ops s then Acknowledged
     else case last_record ops s of Some r \<Rightarrow> Completed r | None \<Rightarrow> New)"
  using window_run_get [of ops s] assms by (simp add: window_lookup_def window_run_ack)

theorem window_exactly_once_witness:
  "window_lookup (window_run [Recorded 5 ''v1'', Recorded 6 ''v2'', Acked 5, Acked 3]) 6 = Completed ''v2''
   \<and> window_lookup (window_run [Recorded 5 ''v1'', Recorded 6 ''v2'', Acked 5, Acked 3]) 5 = Acknowledged"
  using window_exactly_once [of 5 "[Recorded 5 ''v1'', Recorded 6 ''v2'', Acked 5, Acked 3]"]
    window_exactly_once [of 6 "[Recorded 5 ''v1'', Recorded 6 ''v2'', Acked 5, Acked 3]"]
  by (simp add: u32_max_def acked_def last_record_def List.map_filter_simps)

text \<open>What a window keeps after an acknowledgement is above it, or the last sequence number there is.\<close>

lemma window_retained_above:
  assumes "bt_contains (cw_completions (window_acknowledge n w)) k" "k \<le> u32_max"
  shows "n < k \<or> k = u32_max"
  using assms by (auto simp: window_acknowledge_def bt_contains_def bt_get_split_off min_def split: if_splits)

lemma window_retains_last: "window_retained (window_acknowledge u32_max (window_record u32_max r window_default)) = 1"
  by (simp add: window_retained_def window_acknowledge_def window_record_def window_default_def is_acknowledged_def
      split_off_def)

end
