(* ===== verification/Work_Laws.thy ===== *)
theory Work_Laws
  imports Work_Files Reachable
begin

text \<open>
  A work's delta implements a plain map from paths to bytes: each edit and declaration does to the
  view what its words say, the listing is the view, and the charge each of them announces is the
  exact change of the footprint.
\<close>

section \<open>The view\<close>

definition view :: "work_files \<Rightarrow> work_base \<Rightarrow> path \<Rightarrow> byte list option" where
  "view w b p = (case wf_get w b p of Inr x \<Rightarrow> x | Inl _ \<Rightarrow> None)"

lemma wf_get_cases:
  "wf_get w b p = Inr x \<longleftrightarrow> bt_get w p = Some x \<or> bt_get w p = None \<and> base_file b p = Inr x"
  by (auto simp: wf_get_def split: option.splits)

lemma view_own [simp]: "bt_get w p = Some x \<Longrightarrow> view w b p = x"
  by (simp add: view_def wf_get_def)

lemma view_insert: "view (bt_insert p x w) b q = (if q = p then x else view w b q)"
  by (simp add: view_def wf_get_def)

lemma wf_splice_view:
  assumes "wf_splice b p (at, del) bytes w = Inr w'"
  shows "view w' b q = (if q = p then Some (splice_bytes at del bytes (unwrap_or (view w b p) [])) else view w b q)"
proof (cases "bt_get w p")
  case (Some x)
  then show ?thesis using assms by (auto simp: wf_splice_def bt_contains_def view_insert Let_def)
next
  case None
  with assms obtain x where x: "base_file b p = Inr x"
    "w' = bt_insert p (Some (splice_bytes at del bytes (unwrap_or x []))) (bt_insert p x w)"
    by (auto simp: wf_splice_def bt_contains_def rbind_Inr_iff Let_def)
  then have "view w b p = x" using None by (simp add: view_def wf_get_def)
  then show ?thesis by (simp add: x(2) view_insert)
qed

lemma wf_splice_succeeds:
  "(\<exists>w'. wf_splice b p e bytes w = Inr w') \<longleftrightarrow> bt_contains w p \<or> wb_green b \<noteq> None"
  by (auto simp: wf_splice_def base_file_def Let_def split: option.splits)

text \<open>Removing a path from the view.\<close>

lemma removal_view:
  assumes "wf_removal w b p = Inr r"
  shows "view (remove_as p r w) b q = (if q = p then None else view w b q)"
proof -
  obtain x where x: "wf_get w b p = Inr x" using assms by (auto simp: wf_removal_def rbind_Inr_iff)
  show ?thesis
  proof (cases x)
    case None
    then have "r = None" using assms x by (simp add: wf_removal_def)
    moreover have "view w b p = None" using x None by (simp add: view_def)
    ultimately show ?thesis by (simp add: remove_as_def)
  next
    case (Some bytes)
    show ?thesis
    proof (cases "base_file b p")
      case (Inl e)
      then show ?thesis using assms x Some by (auto simp: wf_removal_def remove_as_def view_insert)
    next
      case (Inr stored)
      then show ?thesis
        using assms x Some
        by (cases stored) (auto simp: wf_removal_def remove_as_def view_insert view_def wf_get_def)
    qed
  qed
qed

lemma wf_declare_unlink:
  assumes "wf_declare b (VUnlink p) w = Inr w'"
  shows "view w' b q = (if q = p then None else view w b q)"
  using assms removal_view [of w b p _ q] by (auto simp: rbind_Inr_iff)

lemma wf_declare_rename:
  assumes "wf_declare b (VRename p q) w = Inr w'" "p \<noteq> q"
  shows "view w' b s = (case view w b p of None \<Rightarrow> view w b s
     | Some bytes \<Rightarrow> if s = q then Some bytes else if s = p then None else view w b s)"
proof -
  obtain x where x: "wf_get w b p = Inr x" using assms by (auto simp: rbind_Inr_iff)
  then have v: "view w b p = x" by (simp add: view_def)
  show ?thesis
  proof (cases x)
    case None
    then show ?thesis using assms x v by simp
  next
    case (Some bytes)
    then obtain r where "wf_removal w b p = Inr r" "w' = bt_insert q (Some bytes) (remove_as p r w)"
      using assms x by (auto simp: rbind_Inr_iff)
    then show ?thesis using v Some removal_view by (simp add: view_insert)
  qed
qed

section \<open>The footprint\<close>

definition footprint_exact :: "work_files \<Rightarrow> nat" where
  "footprint_exact w = (\<Sum>e\<leftarrow>w. held (fst e) (Some (snd e)))"

lemma foldl_sat_add: "a \<le> u64_max \<Longrightarrow> foldl sat_add a ns = min (a + sum_list ns) u64_max"
proof (induction ns arbitrary: a)
  case (Cons n ns)
  then show ?case by (simp add: sat_add_def min_def)
qed simp

lemma wf_footprint_exact: "footprint_exact w \<le> u64_max \<Longrightarrow> wf_footprint w = footprint_exact w"
  by (simp add: wf_footprint_def footprint_exact_def foldl_sat_add case_prod_unfold)

text \<open>The footprint after writing or dropping one entry.\<close>

lemma footprint_insert:
  "bt_ok w \<Longrightarrow> footprint_exact (bt_insert p x w) + held p (bt_get w p) = footprint_exact w + held p (Some x)"
  using sum_bt_insert_absent [of w p "\<lambda>e. held (fst e) (Some (snd e))" x]
    sum_bt_insert_present [of w p _ "\<lambda>e. held (fst e) (Some (snd e))" x]
  by (cases "bt_get w p") (auto simp: footprint_exact_def)

lemma footprint_remove:
  "bt_ok w \<Longrightarrow> footprint_exact (bt_remove p w) + held p (bt_get w p) = footprint_exact w"
  using sum_bt_remove [of w p _ "\<lambda>e. held (fst e) (Some (snd e))"]
  by (cases "bt_get w p") (auto simp: footprint_exact_def bt_remove_absent add.commute)

lemma length_splice_bytes:
  assumes "length old \<le> u64_max"
  shows "length (splice_bytes at del bytes old) = (length old - min del (length old - min at (length old))) + length bytes"
proof -
  define a where "a = min at (length old)"
  define d where "d = min del (length old - a)"
  have le: "a \<le> length old" "d \<le> length old - a" by (simp_all add: a_def d_def)
  then have "sat_add a d = a + d" using assms by (intro sat_add_small) auto
  then have "splice_bytes at del bytes old = take a old @ bytes @ drop (a + d) old"
    by (simp add: splice_bytes_def Let_def a_def d_def)
  then show ?thesis using le by (simp add: a_def [symmetric] d_def [symmetric])
qed

text \<open>The saturated length in \<open>splice_delta\<close> gives the footprint of the exact one.\<close>

lemma file_footprint_sat: "file_footprint p (sat_add m n) = file_footprint p (m + n)"
  by (simp add: file_footprint_def sat_add_def)

lemma splice_delta_exact:
  assumes "bt_ok w" "wf_splice b p (at, del) bytes w = Inr w'" "length (unwrap_or (view w b p) []) \<le> u64_max"
    and "splice_delta w p (view w b p) (at, del, length bytes) = (added, removed)"
  shows "footprint_exact w' + removed = footprint_exact w + added"
proof -
  let ?old = "unwrap_or (view w b p) []" and ?new = "splice_bytes at del bytes (unwrap_or (view w b p) [])"
  have w': "footprint_exact w' + held p (bt_get w p) = footprint_exact w + held p (Some (Some ?new))"
  proof (cases "bt_get w p")
    case (Some x)
    then have "w' = bt_insert p (Some ?new) w" using assms(2) by (simp add: wf_splice_def bt_contains_def Let_def)
    then show ?thesis using footprint_insert [OF assms(1)] by simp
  next
    case None
    with assms(2) obtain x where x: "base_file b p = Inr x"
      "w' = bt_insert p (Some (splice_bytes at del bytes (unwrap_or x []))) (bt_insert p x w)"
      by (auto simp: wf_splice_def bt_contains_def rbind_Inr_iff Let_def)
    moreover have "view w b p = x" using None x(1) by (simp add: view_def wf_get_def)
    ultimately show ?thesis
      using footprint_insert [OF assms(1), of p x] footprint_insert [of "bt_insert p x w" p "Some ?new"] assms(1) None by simp
  qed
  have len: "(case view w b p of None \<Rightarrow> 0 | Some bs \<Rightarrow> length bs) = length ?old" by (cases "view w b p") simp_all
  have after: "held p (Some (Some ?new))
      = file_footprint p (sat_add (length ?old - min del (length ?old - min at (length ?old))) (length bytes))"
    unfolding file_footprint_sat by (simp add: length_splice_bytes [OF assms(3)])
  have "(added, removed) = (held p (Some (Some ?new)) - held p (bt_get w p), held p (bt_get w p) - held p (Some (Some ?new)))"
    unfolding assms(4) [symmetric] splice_delta_def Let_def len after prod.case ..
  then show ?thesis using w' by auto
qed

lemma held_after_removal:
  assumes "held_after_removal p r (held p (bt_get w p)) = n"
  shows "held p (bt_get (remove_as p r w) p) = n"
  using assms by (auto simp: held_after_removal_def remove_as_def split: option.splits bool.splits)

lemma held_two: "bt_ok w \<Longrightarrow> p \<noteq> q \<Longrightarrow> held p (bt_get w p) + held q (bt_get w q) \<le> footprint_exact w"
  using footprint_remove [of w p] footprint_remove [of "bt_remove p w" q] by simp

lemma remove_as_ok [simp]: "bt_ok w \<Longrightarrow> bt_ok (remove_as p r w)"
  by (auto simp: remove_as_def split: option.split bool.split)

lemma footprint_remove_as:
  "bt_ok w \<Longrightarrow> footprint_exact (remove_as p r w) + held p (bt_get w p) = footprint_exact w + held p (bt_get (remove_as p r w) p)"
  using footprint_insert [of w p None] footprint_remove [of w p]
  by (auto simp: remove_as_def split: option.split bool.split)

lemma declare_delta_exact:
  assumes "bt_ok w" "wf_declare b op w = Inr w'" "declare_delta w b op = Inr (added, removed)"
    and "footprint_exact w \<le> u64_max" "footprint_exact w' \<le> u64_max"
  shows "footprint_exact w' + removed = footprint_exact w + added"
proof (cases "\<exists>p. op = VUnlink p \<or> (\<exists>q. op = VRename p q \<and> p \<noteq> q)")
  case False
  then show ?thesis using assms(2,3) by (cases op) (auto split: if_splits)
next
  case True
  then consider (unlink) p where "op = VUnlink p" | (rename) p q where "op = VRename p q" "p \<noteq> q" by blast
  then show ?thesis
  proof cases
    case (unlink p)
    then obtain r where r: "wf_removal w b p = Inr r" "w' = remove_as p r w" using assms(2) by (auto simp: rbind_Inr_iff)
    have "held p (bt_get w' p) + removed = held p (bt_get w p) + added"
      using assms(3) r held_after_removal [OF refl, of p r w] by (auto simp: unlink Let_def)
    then show ?thesis using footprint_remove_as [OF assms(1), of p r] unfolding r(2) by linarith
  next
    case (rename p q)
    obtain x where x: "wf_get w b p = Inr x" using assms(2) rename by (auto simp: rbind_Inr_iff)
    show ?thesis
    proof (cases x)
      case None
      then show ?thesis using assms(2,3) x rename by simp
    next
      case (Some bytes)
      then obtain r where r: "wf_removal w b p = Inr r" "w' = bt_insert q (Some bytes) (remove_as p r w)"
        using assms(2) x rename by (auto simp: rbind_Inr_iff)
      let ?u = "remove_as p r w"
      have g: "bt_get ?u q = bt_get w q" using rename(2) by (auto simp: remove_as_def split: option.split bool.split)
      have h: "held_after_removal p r (held p (bt_get w p)) = held p (bt_get ?u p)"
        using held_after_removal [OF refl] by simp
      have two: "held p (bt_get w p) + held q (bt_get w q) \<le> u64_max"
        "held p (bt_get ?u p) + held q (Some (Some bytes)) \<le> u64_max"
        using held_two [OF assms(1) rename(2)] held_two [of w' p q] assms rename(2) r(2) by auto
      have "held p (bt_get ?u p) + held q (Some (Some bytes)) + removed = held p (bt_get w p) + held q (bt_get w q) + added"
        using assms(3) x Some r(1) rename two h by (auto simp: sat_add_small Let_def)
      then show ?thesis
        using footprint_insert [of ?u q "Some bytes"] footprint_remove_as [OF assms(1), of p r] assms(1) g r(2) by simp
    qed
  qed
qed

end
