(* ===== verification/Work_Log.thy ===== *)
theory Work_Log
  imports Work_Laws Wire_Codec
begin

text \<open>
  A work volume's log (\<open>crates/server/src/work_log.rs\<close>): the entries a verb records, their
  encoding as \<open>#[derive(Wire)]\<close> (\<open>crates/wire-derive/src/lib.rs\<close>) lays it out, the one change path
  the verbs and the recovery share, and the replay of a log. An enum is its \<open>u32\<close> discriminant and
  the fields of the variant in declaration order; a struct is its fields.
\<close>

section \<open>Entries\<close>

datatype logged_op =
    LOverwrite path nat nat
  | LExtend path nat nat
  | LTruncate path nat
  | LInsert path nat nat
  | LDelete path nat nat
  | LCreate path
  | LMknod path "byte list" nat
  | LUnlink path
  | LRename path path
  | LMkdir path
  | LRmdir path
  | LSetMode path nat
  | LSymlink path path
  | LSetXattr path path "byte list"
  | LRemoveXattr path path
  | LLink path path

record own_file =
  own_path :: path
  own_bytes :: "byte list option"

datatype work_log_entry =
    LogEdit path nat nat "byte list"
  | LogDeclared logged_op
  | LogRestated nat "own_file list" "logged_op list"

datatype replay_error = Undecodable | BadNode | ReplayBaseGone

section \<open>Encoding\<close>

abbreviation enc_u64 :: "nat \<Rightarrow> byte list" where
  "enc_u64 \<equiv> uint_encode 8"

abbreviation enc_u32 :: "nat \<Rightarrow> byte list" where
  "enc_u32 \<equiv> uint_encode 4"

fun logged_encode :: "logged_op \<Rightarrow> byte list" where
  "logged_encode (LOverwrite p at len) = enc_u32 0 @ string_encode p @ enc_u64 at @ enc_u64 len"
| "logged_encode (LExtend p at len) = enc_u32 1 @ string_encode p @ enc_u64 at @ enc_u64 len"
| "logged_encode (LTruncate p len) = enc_u32 2 @ string_encode p @ enc_u64 len"
| "logged_encode (LInsert p at len) = enc_u32 3 @ string_encode p @ enc_u64 at @ enc_u64 len"
| "logged_encode (LDelete p at len) = enc_u32 4 @ string_encode p @ enc_u64 at @ enc_u64 len"
| "logged_encode (LCreate p) = enc_u32 5 @ string_encode p"
| "logged_encode (LMknod p node m) = enc_u32 6 @ string_encode p @ encode_bytes node @ enc_u32 m"
| "logged_encode (LUnlink p) = enc_u32 7 @ string_encode p"
| "logged_encode (LRename p q) = enc_u32 8 @ string_encode p @ string_encode q"
| "logged_encode (LMkdir p) = enc_u32 9 @ string_encode p"
| "logged_encode (LRmdir p) = enc_u32 10 @ string_encode p"
| "logged_encode (LSetMode p m) = enc_u32 11 @ string_encode p @ enc_u32 m"
| "logged_encode (LSymlink p q) = enc_u32 12 @ string_encode p @ string_encode q"
| "logged_encode (LSetXattr p q v) = enc_u32 13 @ string_encode p @ string_encode q @ encode_bytes v"
| "logged_encode (LRemoveXattr p q) = enc_u32 14 @ string_encode p @ string_encode q"
| "logged_encode (LLink p q) = enc_u32 15 @ string_encode p @ string_encode q"

text \<open>The fields of a variant, read in order: \<open>Self::V { f: <T as Wire>::decode(input)?, .. }\<close>.\<close>

definition field1 :: "'a wire_decoder \<Rightarrow> ('a \<Rightarrow> 'r) \<Rightarrow> 'r wire_decoder" where
  "field1 da mk input = rbind (da input) (\<lambda>(a, input). Inr (mk a, input))"

definition field2 :: "'a wire_decoder \<Rightarrow> 'b wire_decoder \<Rightarrow> ('a \<Rightarrow> 'b \<Rightarrow> 'r) \<Rightarrow> 'r wire_decoder" where
  "field2 da db mk input = rbind (da input) (\<lambda>(a, input). field1 db (mk a) input)"

definition field3 ::
  "'a wire_decoder \<Rightarrow> 'b wire_decoder \<Rightarrow> 'c wire_decoder \<Rightarrow> ('a \<Rightarrow> 'b \<Rightarrow> 'c \<Rightarrow> 'r) \<Rightarrow> 'r wire_decoder" where
  "field3 da db dc mk input = rbind (da input) (\<lambda>(a, input). field2 db dc (mk a) input)"

definition field4 ::
  "'a wire_decoder \<Rightarrow> 'b wire_decoder \<Rightarrow> 'c wire_decoder \<Rightarrow> 'd wire_decoder \<Rightarrow> ('a \<Rightarrow> 'b \<Rightarrow> 'c \<Rightarrow> 'd \<Rightarrow> 'r)
    \<Rightarrow> 'r wire_decoder" where
  "field4 da db dc dd mk input = rbind (da input) (\<lambda>(a, input). field3 db dc dd (mk a) input)"

text \<open>The variants of an enum, by the discriminant.\<close>

definition enum_decode :: "'r wire_decoder list \<Rightarrow> 'r wire_decoder" where
  "enum_decode arms input = rbind (uint_decode 4 input) (\<lambda>(d, input).
     if d < length arms then (arms ! d) input else Inl (WBadDiscriminant d))"

abbreviation dec_u64 :: "nat wire_decoder" where
  "dec_u64 \<equiv> uint_decode 8"

abbreviation dec_u32 :: "nat wire_decoder" where
  "dec_u32 \<equiv> uint_decode 4"

definition logged_decode :: "logged_op wire_decoder" where
  "logged_decode = enum_decode
     [field3 string_decode dec_u64 dec_u64 LOverwrite,
      field3 string_decode dec_u64 dec_u64 LExtend,
      field2 string_decode dec_u64 LTruncate,
      field3 string_decode dec_u64 dec_u64 LInsert,
      field3 string_decode dec_u64 dec_u64 LDelete,
      field1 string_decode LCreate,
      field3 string_decode bytes_decode dec_u32 LMknod,
      field1 string_decode LUnlink,
      field2 string_decode string_decode LRename,
      field1 string_decode LMkdir,
      field1 string_decode LRmdir,
      field2 string_decode dec_u32 LSetMode,
      field2 string_decode string_decode LSymlink,
      field3 string_decode string_decode bytes_decode LSetXattr,
      field2 string_decode string_decode LRemoveXattr,
      field2 string_decode string_decode LLink]"

definition own_encode :: "own_file \<Rightarrow> byte list" where
  "own_encode f = string_encode (own_path f) @ option_encode encode_bytes (own_bytes f)"

definition own_decode :: "own_file wire_decoder" where
  "own_decode = field2 string_decode (option_decode bytes_decode) (\<lambda>p b. \<lparr>own_path = p, own_bytes = b\<rparr>)"

fun entry_encode :: "work_log_entry \<Rightarrow> byte list" where
  "entry_encode (LogEdit p at del bytes) = enc_u32 0 @ string_encode p @ enc_u64 at @ enc_u64 del @ encode_bytes bytes"
| "entry_encode (LogDeclared op) = enc_u32 1 @ logged_encode op"
| "entry_encode (LogRestated base fs js) =
     enc_u32 2 @ enc_u64 base @ vec_encode own_encode fs @ vec_encode logged_encode js"

definition entry_decode :: "work_log_entry wire_decoder" where
  "entry_decode = enum_decode
     [field4 string_decode dec_u64 dec_u64 bytes_decode LogEdit,
      field1 logged_decode LogDeclared,
      field3 dec_u64 (vec_decode own_decode) (vec_decode logged_decode) LogRestated]"

section \<open>To and from the journal\<close>

fun logged_of :: "volume_op \<Rightarrow> logged_op" where
  "logged_of (VOverwrite p at len) = LOverwrite p at len"
| "logged_of (VExtend p at len) = LExtend p at len"
| "logged_of (VTruncate p len) = LTruncate p len"
| "logged_of (VInsert p at len) = LInsert p at len"
| "logged_of (VDelete p at len) = LDelete p at len"
| "logged_of (VCreate p) = LCreate p"
| "logged_of (VMknod p node m) = LMknod p (encode_node node) m"
| "logged_of (VUnlink p) = LUnlink p"
| "logged_of (VRename p q) = LRename p q"
| "logged_of (VMkdir p) = LMkdir p"
| "logged_of (VRmdir p) = LRmdir p"
| "logged_of (VSetMode p m) = LSetMode p m"
| "logged_of (VSymlink p q) = LSymlink p q"
| "logged_of (VSetXattr p q v) = LSetXattr p q v"
| "logged_of (VRemoveXattr p q) = LRemoveXattr p q"
| "logged_of (VLink p q) = LLink p q"

fun logged_volume_op :: "logged_op \<Rightarrow> replay_error + volume_op" where
  "logged_volume_op (LOverwrite p at len) = Inr (VOverwrite p at len)"
| "logged_volume_op (LExtend p at len) = Inr (VExtend p at len)"
| "logged_volume_op (LTruncate p len) = Inr (VTruncate p len)"
| "logged_volume_op (LInsert p at len) = Inr (VInsert p at len)"
| "logged_volume_op (LDelete p at len) = Inr (VDelete p at len)"
| "logged_volume_op (LCreate p) = Inr (VCreate p)"
| "logged_volume_op (LMknod p node m) =
     (case decode_node node of Inl _ \<Rightarrow> Inl BadNode | Inr n \<Rightarrow> Inr (VMknod p n m))"
| "logged_volume_op (LUnlink p) = Inr (VUnlink p)"
| "logged_volume_op (LRename p q) = Inr (VRename p q)"
| "logged_volume_op (LMkdir p) = Inr (VMkdir p)"
| "logged_volume_op (LRmdir p) = Inr (VRmdir p)"
| "logged_volume_op (LSetMode p m) = Inr (VSetMode p m)"
| "logged_volume_op (LSymlink p q) = Inr (VSymlink p q)"
| "logged_volume_op (LSetXattr p q v) = Inr (VSetXattr p q v)"
| "logged_volume_op (LRemoveXattr p q) = Inr (VRemoveXattr p q)"
| "logged_volume_op (LLink p q) = Inr (VLink p q)"

definition restated :: "nat \<Rightarrow> work_files \<Rightarrow> volume_op list \<Rightarrow> work_log_entry" where
  "restated base w journal =
     LogRestated base (map (\<lambda>(p, b). \<lparr>own_path = p, own_bytes = b\<rparr>) w) (map logged_of journal)"

section \<open>The change path\<close>

definition edit_ops :: "path \<Rightarrow> byte list option \<Rightarrow> nat \<times> nat \<times> nat \<Rightarrow> volume_op list" where
  "edit_ops p old e =
     (let (at, delete_len, inserted) = e;
          old_len = (case old of None \<Rightarrow> 0 | Some bytes \<Rightarrow> length bytes)
      in (if old = None then [VCreate p] else [])
         @ (if delete_len > 0 then [VDelete p at delete_len] else [])
         @ (if inserted > 0 then [if at \<ge> old_len then VExtend p at inserted else VInsert p at inserted] else []))"

type_synonym work_change = "work_files \<times> volume_op list"

definition apply_edit ::
  "work_change \<Rightarrow> work_base \<Rightarrow> path \<times> nat \<times> nat \<times> byte list \<Rightarrow> volume_op list \<Rightarrow> base_gone + work_change" where
  "apply_edit wj b e ops =
     (let (p, at, delete_len, bytes) = e
      in rbind (wf_splice b p (at, delete_len) bytes (fst wj)) (\<lambda>w. Inr (w, snd wj @ ops)))"

definition apply_declare :: "work_change \<Rightarrow> work_base \<Rightarrow> volume_op \<Rightarrow> base_gone + work_change" where
  "apply_declare wj b op = rbind (wf_declare b op (fst wj)) (\<lambda>w. Inr (w, snd wj @ [op]))"

section \<open>Replay\<close>

text \<open>\<open>From<BaseGone> for ReplayError\<close>.\<close>

definition or_gone :: "base_gone + 'a \<Rightarrow> replay_error + 'a" where
  "or_gone r = (case r of Inl _ \<Rightarrow> Inl ReplayBaseGone | Inr a \<Rightarrow> Inr a)"

text \<open>\<open>collect::<Result<_, _>>()\<close>: the first refusal ends it.\<close>

fun collect_ops :: "logged_op list \<Rightarrow> replay_error + volume_op list" where
  "collect_ops [] = Inr []"
| "collect_ops (l # ls) = rbind (logged_volume_op l) (\<lambda>v. rbind (collect_ops ls) (\<lambda>vs. Inr (v # vs)))"

fun replay_entry ::
  "green option \<Rightarrow> nat \<times> work_change \<Rightarrow> work_log_entry \<Rightarrow> replay_error + nat \<times> work_change" where
  "replay_entry g (version, w, journal) (LogRestated base own logged) =
     rbind (collect_ops logged) (\<lambda>js. Inr (base, bt_of_list (map (\<lambda>f. (own_path f, own_bytes f)) own), js))"
| "replay_entry g (version, w, journal) (LogEdit p at delete_len bytes) =
     (let b = \<lparr>wb_green = g, wb_version = version\<rparr>
      in rbind (or_gone (wf_get w b p)) (\<lambda>old.
         rbind (or_gone (apply_edit (w, journal) b (p, at, delete_len, bytes)
             (edit_ops p old (at, delete_len, length bytes)))) (\<lambda>wj. Inr (version, wj))))"
| "replay_entry g (version, w, journal) (LogDeclared l) =
     rbind (logged_volume_op l) (\<lambda>op.
     rbind (or_gone (apply_declare (w, journal) \<lparr>wb_green = g, wb_version = version\<rparr> op)) (\<lambda>wj. Inr (version, wj)))"

fun replay_from :: "green option \<Rightarrow> nat \<times> work_change \<Rightarrow> byte list list \<Rightarrow> replay_error + nat \<times> work_change" where
  "replay_from g st [] = Inr st"
| "replay_from g st (bytes # log) =
     (case wire_from_bytes entry_decode bytes of
        Inl _ \<Rightarrow> Inl Undecodable
      | Inr e \<Rightarrow> rbind (replay_entry g st e) (\<lambda>st. replay_from g st log))"

definition replay :: "green option \<Rightarrow> nat \<Rightarrow> byte list list \<Rightarrow> replay_error + nat \<times> work_change" where
  "replay g created_at log = replay_from g (created_at, [], []) log"

end
