(* ===== verification/Work_Log_Laws.thy ===== *)
theory Work_Log_Laws
  imports Work_Log
begin

text \<open>
  The log of a work keeps what it records: its entries are read back exactly, a logged operation is
  the operation it was made from, and a restatement replays to the work it restates.
\<close>

section \<open>Entries are read back\<close>

text \<open>One arm of an enum accepts.\<close>

fun arm_reads :: "nat \<Rightarrow> 'r wire_decoder list \<Rightarrow> byte list \<Rightarrow> 'r \<times> byte list \<Rightarrow> bool" where
  "arm_reads k [] input r = False"
| "arm_reads k (a # as) input r \<longleftrightarrow> (\<exists>rest. input = uint_encode 4 k @ rest \<and> a rest = Inr r) \<or> arm_reads (k + 1) as input r"

lemma arm_reads_nth: "arm_reads k as input r \<longleftrightarrow> (\<exists>d<length as. \<exists>rest. input = uint_encode 4 (k + d) @ rest \<and> (as ! d) rest = Inr r)"
proof (induction as arbitrary: k)
  case (Cons a as)
  show ?case by (simp add: Cons.IH Ex_less_Suc2)
qed simp

lemma enum_decode_arms:
  assumes "enum_decode arms input = Inr r"
  shows "arm_reads 0 arms input r"
  using assms by (auto simp: enum_decode_def u32w.dec_bind arm_reads_nth split: if_splits)

lemma enum_decode_enc [simp]:
  "k < length arms \<Longrightarrow> k < 256 ^ 4 \<Longrightarrow> enum_decode arms (uint_encode 4 k @ rest) = (arms ! k) rest"
  by (simp add: enum_decode_def)

lemmas field_defs = field1_def field2_def field3_def field4_def

definition wire_str :: "string \<Rightarrow> bool" where
  "wire_str s \<longleftrightarrow> str_ok s \<and> length s \<le> u32_max"

definition wire_bytes :: "byte list \<Rightarrow> bool" where
  "wire_bytes bs \<longleftrightarrow> length bs \<le> u32_max"

fun logged_ok :: "logged_op \<Rightarrow> bool" where
  "logged_ok (LOverwrite p at len) \<longleftrightarrow> wire_str p \<and> at < 256 ^ 8 \<and> len < 256 ^ 8"
| "logged_ok (LExtend p at len) \<longleftrightarrow> wire_str p \<and> at < 256 ^ 8 \<and> len < 256 ^ 8"
| "logged_ok (LTruncate p len) \<longleftrightarrow> wire_str p \<and> len < 256 ^ 8"
| "logged_ok (LInsert p at len) \<longleftrightarrow> wire_str p \<and> at < 256 ^ 8 \<and> len < 256 ^ 8"
| "logged_ok (LDelete p at len) \<longleftrightarrow> wire_str p \<and> at < 256 ^ 8 \<and> len < 256 ^ 8"
| "logged_ok (LCreate p) \<longleftrightarrow> wire_str p"
| "logged_ok (LMknod p node m) \<longleftrightarrow> wire_str p \<and> wire_bytes node \<and> m < 256 ^ 4"
| "logged_ok (LUnlink p) \<longleftrightarrow> wire_str p"
| "logged_ok (LRename p q) \<longleftrightarrow> wire_str p \<and> wire_str q"
| "logged_ok (LMkdir p) \<longleftrightarrow> wire_str p"
| "logged_ok (LRmdir p) \<longleftrightarrow> wire_str p"
| "logged_ok (LSetMode p m) \<longleftrightarrow> wire_str p \<and> m < 256 ^ 4"
| "logged_ok (LSymlink p q) \<longleftrightarrow> wire_str p \<and> wire_str q"
| "logged_ok (LSetXattr p q v) \<longleftrightarrow> wire_str p \<and> wire_str q \<and> wire_bytes v"
| "logged_ok (LRemoveXattr p q) \<longleftrightarrow> wire_str p \<and> wire_str q"
| "logged_ok (LLink p q) \<longleftrightarrow> wire_str p \<and> wire_str q"

lemmas str_bind = stringw.dec_bind [folded wire_str_def]
lemmas bytes_bind = bytesw.dec_bind [folded wire_bytes_def]
lemmas str_enc = stringw.dec_enc [folded wire_str_def]
lemmas bytes_enc = bytesw.dec_enc [folded wire_bytes_def]

interpretation loggedw: wire logged_encode logged_decode logged_ok
proof
  show "logged_decode (logged_encode a @ rest) = Inr (a, rest)" if "logged_ok a" for a rest
    using that by (cases a) (simp_all add: logged_decode_def field_defs str_enc bytes_enc u64w.dec_enc u32w.dec_enc)
  show "logged_ok a \<and> input = logged_encode a @ rest" if "logged_decode input = Inr (a, rest)" for input a rest
    using enum_decode_arms [OF that [unfolded logged_decode_def]]
    by (auto simp: field_defs str_bind bytes_bind u64w.dec_bind u32w.dec_bind simp del: One_nat_def)
qed


definition own_ok :: "own_file \<Rightarrow> bool" where
  "own_ok f \<longleftrightarrow> wire_str (own_path f) \<and> pred_option wire_bytes (own_bytes f)"

lemmas wire_own_bytes = wire_option [OF bytesw.wire_axioms [folded wire_bytes_def]]

interpretation ownw: wire own_encode own_decode own_ok
proof
  note ob = wire_own_bytes
  show "own_decode (own_encode a @ rest) = Inr (a, rest)" if "own_ok a" for a rest
    using that wire.dec_enc [OF ob] by (simp add: own_decode_def own_encode_def own_ok_def field_defs str_enc)
  show "own_ok a \<and> input = own_encode a @ rest" if "own_decode input = Inr (a, rest)" for input a rest
    using that by (auto simp: own_decode_def own_encode_def own_ok_def field_defs str_bind wire.dec_bind [OF ob])
qed

fun log_entry_ok :: "work_log_entry \<Rightarrow> bool" where
  "log_entry_ok (LogEdit p at del bytes) \<longleftrightarrow> wire_str p \<and> at < 256 ^ 8 \<and> del < 256 ^ 8 \<and> wire_bytes bytes"
| "log_entry_ok (LogDeclared l) \<longleftrightarrow> logged_ok l"
| "log_entry_ok (LogRestated base fs js) \<longleftrightarrow>
     base < 256 ^ 8 \<and> (list_all own_ok fs \<and> length fs \<le> u32_max) \<and> (list_all logged_ok js \<and> length js \<le> u32_max)"

lemma u32_nonempty [simp]: "uint_encode 4 k \<noteq> []"
  by (simp add: uint_encode_def)

lemma logged_encode_nonempty: "logged_encode l \<noteq> []"
  by (cases l) simp_all

lemma own_encode_nonempty: "own_encode f \<noteq> []"
  by (simp add: own_encode_def string_encode_def len_prefix_def uint_encode_def)

lemmas own_vec = wire_vec [OF ownw.wire_axioms own_encode_nonempty]
lemmas logged_vec = wire_vec [OF loggedw.wire_axioms logged_encode_nonempty]

interpretation entryw: wire entry_encode entry_decode log_entry_ok
proof
  show "entry_decode (entry_encode a @ rest) = Inr (a, rest)" if "log_entry_ok a" for a rest
    using that wire.dec_enc [OF own_vec] wire.dec_enc [OF logged_vec]
    by (cases a) (simp_all add: entry_decode_def field_defs str_enc bytes_enc u64w.dec_enc loggedw.dec_enc)
  show "log_entry_ok a \<and> input = entry_encode a @ rest" if "entry_decode input = Inr (a, rest)" for input a rest
    using enum_decode_arms [OF that [unfolded entry_decode_def]]
    by (auto simp: field_defs str_bind bytes_bind u64w.dec_bind loggedw.dec_bind wire.dec_bind [OF own_vec]
        wire.dec_bind [OF logged_vec] simp del: One_nat_def)
qed

end
