(* ===== verification/Work_State.thy ===== *)
theory Work_State
  imports Work_Log Seal Increments
begin

text \<open>
  A work volume as its shard holds it (\<open>WorkState\<close> of \<open>crates/server/src/state.rs\<close>) and the
  sealing of its journal into an increment (\<open>assemble_post_state\<close> and \<open>build_increment\<close> of
  \<open>crates/server/src/verbs.rs\<close>). BLAKE3 is a parameter.
\<close>

type_synonym vid = "byte list"

record work_state =
  ws_green :: vid
  ws_base :: ver
  ws_journal :: "volume_op list"
  ws_files :: work_files
  ws_revision :: nat
  ws_charged :: nat

section \<open>The post-state\<close>

text \<open>\<open>journal.iter().rev().find_map(\<dots>)\<close>.\<close>

fun set_value :: "path \<Rightarrow> path \<Rightarrow> volume_op \<Rightarrow> byte list option" where
  "set_value p n (VSetXattr q m v) = (if q = p \<and> m = n then Some v else None)"
| "set_value p n _ = None"

definition declared_xattr :: "volume_op list \<Rightarrow> path \<Rightarrow> path \<Rightarrow> byte list option" where
  "declared_xattr journal p n =
     (case List.map_filter (set_value p n) (rev journal) of [] \<Rightarrow> None | v # _ \<Rightarrow> Some v)"

fun made_node :: "path \<Rightarrow> volume_op \<Rightarrow> special_node option" where
  "made_node p (VMknod q node m) = (if q = p then Some node else None)"
| "made_node p _ = None"

definition declared_node :: "volume_op list \<Rightarrow> path \<Rightarrow> special_node option" where
  "declared_node journal p =
     (case List.map_filter (made_node p) (rev journal) of [] \<Rightarrow> None | n # _ \<Rightarrow> Some n)"

definition is_file_content :: "opkind \<Rightarrow> bool" where
  "is_file_content k \<longleftrightarrow> k = KOverwrite \<or> k = KInsert \<or> k = KExtend"

definition post_size :: "op list \<Rightarrow> nat" where
  "post_size ops = foldl (\<lambda>size p.
     if op_src p \<noteq> u64_max \<and> (is_file_content (op_kind p) \<or> op_kind p = KSetXattr \<or> op_kind p = KMknod)
     then max size (sat_add (op_src p) (op_len p)) else size) 0 ops"

text \<open>The bytes an operation contributes and the offset into them; \<open>None\<close> is the \<open>continue\<close> of the loop.\<close>

definition op_source ::
  "ops_doc \<Rightarrow> work_files \<Rightarrow> work_base \<Rightarrow> volume_op list \<Rightarrow> op \<Rightarrow> (byte list \<times> nat) option" where
  "op_source doc w b journal p =
     (if op_src p = u64_max then None
      else case path_at (doc_paths doc) (op_path p) of
        None \<Rightarrow> None
      | Some path \<Rightarrow>
          if is_file_content (op_kind p) then
            (case wf_get w b path of Inr (Some bytes) \<Rightarrow> Some (bytes, op_at p) | _ \<Rightarrow> None)
          else if op_kind p = KMknod then
            (case declared_node journal path of None \<Rightarrow> None | Some node \<Rightarrow> Some (encode_node node, 0))
          else if op_kind p = KSetXattr then
            (if op_at p > u16_max then None
             else case path_at (doc_paths doc) (op_at p) of
               None \<Rightarrow> None
             | Some name \<Rightarrow> (case declared_xattr journal path name of None \<Rightarrow> None | Some v \<Rightarrow> Some (v, 0)))
          else None)"

definition copy_op ::
  "ops_doc \<Rightarrow> work_files \<Rightarrow> work_base \<Rightarrow> volume_op list \<Rightarrow> op \<Rightarrow> byte list \<Rightarrow> byte list" where
  "copy_op doc w b journal p post =
     (case op_source doc w b journal p of
        None \<Rightarrow> post
      | Some (source, from) \<Rightarrow>
          (case (slice_get post (op_src p) (sat_add (op_src p) (op_len p)), slice_get source from (sat_add from (op_len p))) of
             (Some _, Some bytes) \<Rightarrow> take (op_src p) post @ bytes @ drop (sat_add (op_src p) (op_len p)) post
           | _ \<Rightarrow> post))"

definition assemble_post_state :: "ops_doc \<Rightarrow> work_files \<Rightarrow> work_base \<Rightarrow> volume_op list \<Rightarrow> byte list" where
  "assemble_post_state doc w b journal =
     fold (copy_op doc w b journal) (doc_ops doc) (replicate (post_size (doc_ops doc)) 0)"

section \<open>The increment\<close>

datatype seal_refusal = SealUnknownBase | SealNotComposed derive_error

text \<open>
  \<open>build_increment\<close> past the lookup of the work: the green when it exists and reaches the base, the
  composed document, the post-state, and the identity over the work, its base, the document and the
  post-state.
\<close>

definition seal_increment ::
  "(byte list \<Rightarrow> identity32) \<Rightarrow> vid \<Rightarrow> work_state \<Rightarrow> green option \<Rightarrow> identity32 list \<Rightarrow> seal_refusal + increment" where
  "seal_increment blake3 work_id w engine evidence =
     (case engine of
        None \<Rightarrow> Inl SealUnknownBase
      | Some g \<Rightarrow>
          if ws_base w > head g then Inl SealUnknownBase
          else (case compose_volume (base_for g (ws_base w) (ws_journal w)) (ws_journal w) of
            Inl e \<Rightarrow> Inl (SealNotComposed e)
          | Inr doc \<Rightarrow>
              let post = assemble_post_state doc (ws_files w) \<lparr>wb_green = Some g, wb_version = ws_base w\<rparr> (ws_journal w)
              in Inr \<lparr>inc_id = blake3 (work_id @ le_bytes 8 (ws_base w) @ encode doc @ post), inc_base = ws_base w,
                      inc_doc = doc, inc_post = post, inc_evidence = evidence\<rparr>))"

end
