(* ===== verification/Budget.thy ===== *)
theory Budget
  imports Prelude
begin

text \<open>
  The capacity ledgers of a shard (\<open>crates/mem/src/budget.rs\<close>): the reservation arithmetic the
  dimensions share, the byte budget with its retention, replication and pressure, the version
  budget, the metadata budget with its observation room, the sizing formulas, and the growth of the
  byte budget from the arena's pool (\<open>make_room\<close> of \<open>crates/mem/src/arena.rs\<close>). The claims on a
  budget are shown to be backed by capacity through every sequence of operations.
\<close>

section \<open>The ledger\<close>

record ledger =
  lg_reserve :: nat
  lg_committed :: nat
  lg_headroom :: nat
  lg_hold :: nat

text \<open>\<open>MemError::BudgetExceeded { requested, available }\<close>, the only refusal of this module.\<close>

datatype mem_error = MemBudgetExceeded nat nat

definition ledger_new :: "nat \<Rightarrow> nat \<Rightarrow> ledger" where
  "ledger_new reserve headroom =
     \<lparr>lg_reserve = reserve, lg_committed = 0, lg_headroom = headroom, lg_hold = 0\<rparr>"

definition ledger_admittable :: "ledger \<Rightarrow> nat" where
  "ledger_admittable l = lg_reserve l - lg_committed l - lg_headroom l - lg_hold l"

definition ledger_take :: "nat \<Rightarrow> ledger \<Rightarrow> mem_error + nat \<times> ledger" where
  "ledger_take amount l =
     (let available = ledger_admittable l
      in if amount > available then Inl (MemBudgetExceeded amount available)
         else Inr (amount, l\<lparr>lg_committed := sat_add (lg_committed l) amount\<rparr>))"

text \<open>The admittable room and what is left of the headroom, shared by \<open>take_into_headroom\<close> and \<open>observation_admittable\<close>.\<close>

definition ledger_with_headroom :: "ledger \<Rightarrow> nat" where
  "ledger_with_headroom l =
     sat_add (ledger_admittable l) (min (lg_headroom l) (lg_reserve l - lg_committed l - lg_hold l))"

definition ledger_take_into_headroom :: "nat \<Rightarrow> ledger \<Rightarrow> mem_error + nat \<times> ledger" where
  "ledger_take_into_headroom amount l =
     (let available = ledger_with_headroom l
      in if amount > available then Inl (MemBudgetExceeded amount available)
         else Inr (amount, l\<lparr>lg_committed := sat_add (lg_committed l) amount\<rparr>))"

definition ledger_give :: "nat \<Rightarrow> ledger \<Rightarrow> ledger" where
  "ledger_give amount l = l\<lparr>lg_committed := lg_committed l - amount\<rparr>"

section \<open>The byte budget\<close>

record pressure =
  pr_debt :: nat
  pr_extended :: nat

record shard_budget =
  sb_ledger :: ledger
  sb_retained :: nat
  sb_replicated :: nat
  sb_pressure :: pressure

definition budget_new :: "nat \<Rightarrow> nat \<Rightarrow> shard_budget" where
  "budget_new reserve headroom =
     \<lparr>sb_ledger = ledger_new reserve headroom, sb_retained = 0, sb_replicated = 0,
      sb_pressure = \<lparr>pr_debt = 0, pr_extended = 0\<rparr>\<rparr>"

definition budget_capacity :: "shard_budget \<Rightarrow> nat" where
  "budget_capacity b = lg_reserve (sb_ledger b)"

definition budget_committed :: "shard_budget \<Rightarrow> nat" where
  "budget_committed b = lg_committed (sb_ledger b)"

definition budget_headroom :: "shard_budget \<Rightarrow> nat" where
  "budget_headroom b = lg_headroom (sb_ledger b)"

definition budget_hold :: "shard_budget \<Rightarrow> nat" where
  "budget_hold b = lg_hold (sb_ledger b)"

definition budget_admittable :: "shard_budget \<Rightarrow> nat" where
  "budget_admittable b = ledger_admittable (sb_ledger b)"

definition set_hold :: "nat \<Rightarrow> shard_budget \<Rightarrow> shard_budget" where
  "set_hold bytes b = b\<lparr>sb_ledger := (sb_ledger b)\<lparr>lg_hold := bytes\<rparr>\<rparr>"

definition budget_deficit :: "shard_budget \<Rightarrow> nat \<Rightarrow> nat" where
  "budget_deficit b bytes =
     sat_add (sat_add (sat_add (lg_committed (sb_ledger b)) (lg_headroom (sb_ledger b))) (lg_hold (sb_ledger b))) bytes
       - lg_reserve (sb_ledger b)"

definition budget_extend :: "nat \<Rightarrow> shard_budget \<Rightarrow> shard_budget" where
  "budget_extend bytes b =
     b\<lparr>sb_ledger := (sb_ledger b)\<lparr>lg_reserve := sat_add (lg_reserve (sb_ledger b)) bytes\<rparr>,
       sb_pressure := (sb_pressure b)\<lparr>pr_extended := sat_add (pr_extended (sb_pressure b)) bytes\<rparr>\<rparr>"

definition budget_debt :: "shard_budget \<Rightarrow> nat" where
  "budget_debt b = pr_debt (sb_pressure b)"

definition absorb_debt :: "shard_budget \<Rightarrow> shard_budget" where
  "absorb_debt b =
     b\<lparr>sb_ledger := (sb_ledger b)\<lparr>lg_hold := sat_add (lg_hold (sb_ledger b)) (pr_debt (sb_pressure b))\<rparr>,
       sb_pressure := (sb_pressure b)\<lparr>pr_debt := 0\<rparr>\<rparr>"

definition mark_room :: "shard_budget \<Rightarrow> nat \<times> shard_budget" where
  "mark_room b =
     (lg_reserve (sb_ledger b) - lg_committed (sb_ledger b) - lg_headroom (sb_ledger b),
      b\<lparr>sb_pressure := (sb_pressure b)\<lparr>pr_extended := 0\<rparr>\<rparr>)"

definition set_pressure :: "nat \<Rightarrow> nat \<Rightarrow> shard_budget \<Rightarrow> shard_budget" where
  "set_pressure hold debt b =
     (let owed_now = min debt (pr_extended (sb_pressure b))
      in b\<lparr>sb_ledger := (sb_ledger b)\<lparr>lg_hold := sat_add hold owed_now\<rparr>,
           sb_pressure := \<lparr>pr_debt = debt - owed_now, pr_extended = 0\<rparr>\<rparr>)"

definition restore_pressure :: "pressure \<Rightarrow> shard_budget \<Rightarrow> shard_budget" where
  "restore_pressure p b = b\<lparr>sb_pressure := p\<rparr>"

definition budget_retract :: "nat \<Rightarrow> shard_budget \<Rightarrow> bool \<times> shard_budget" where
  "budget_retract bytes b =
     (let floor = sat_add (lg_committed (sb_ledger b)) (lg_headroom (sb_ledger b))
      in if bytes \<le> lg_reserve (sb_ledger b) \<and> floor \<le> lg_reserve (sb_ledger b) - bytes
         then (True, b\<lparr>sb_ledger := (sb_ledger b)\<lparr>lg_reserve := lg_reserve (sb_ledger b) - bytes\<rparr>\<rparr>)
         else (False, b))"

definition budget_reserve :: "nat \<Rightarrow> shard_budget \<Rightarrow> mem_error + nat \<times> shard_budget" where
  "budget_reserve bytes b =
     rbind (ledger_take bytes (sb_ledger b)) (\<lambda>(taken, l). Inr (taken, b\<lparr>sb_ledger := l\<rparr>))"

definition budget_release :: "nat \<Rightarrow> shard_budget \<Rightarrow> shard_budget" where
  "budget_release bytes b = b\<lparr>sb_ledger := ledger_give bytes (sb_ledger b)\<rparr>"

definition may_grow :: "shard_budget \<Rightarrow> nat \<Rightarrow> bool" where
  "may_grow b increment \<longleftrightarrow> increment \<le> ledger_admittable (sb_ledger b)"

definition budget_grow :: "nat \<Rightarrow> shard_budget \<Rightarrow> mem_error + nat \<times> shard_budget" where
  "budget_grow increment b =
     rbind (ledger_take increment (sb_ledger b)) (\<lambda>(taken, l). Inr (taken, b\<lparr>sb_ledger := l\<rparr>))"

definition charge_retention :: "nat \<Rightarrow> shard_budget \<Rightarrow> mem_error + shard_budget" where
  "charge_retention bytes b =
     rbind (ledger_take bytes (sb_ledger b)) (\<lambda>(taken, l).
     Inr (b\<lparr>sb_ledger := l, sb_retained := sat_add (sb_retained b) taken\<rparr>))"

definition credit_retention :: "nat \<Rightarrow> shard_budget \<Rightarrow> shard_budget" where
  "credit_retention bytes b =
     b\<lparr>sb_ledger := ledger_give bytes (sb_ledger b), sb_retained := sb_retained b - bytes\<rparr>"

definition charge_replicated :: "nat \<Rightarrow> shard_budget \<Rightarrow> mem_error + shard_budget" where
  "charge_replicated bytes b =
     rbind (ledger_take bytes (sb_ledger b)) (\<lambda>(taken, l).
     Inr (b\<lparr>sb_ledger := l, sb_replicated := sat_add (sb_replicated b) taken\<rparr>))"

definition credit_replicated :: "nat \<Rightarrow> shard_budget \<Rightarrow> shard_budget" where
  "credit_replicated bytes b =
     b\<lparr>sb_ledger := ledger_give bytes (sb_ledger b), sb_replicated := sb_replicated b - bytes\<rparr>"

section \<open>The version and metadata budgets\<close>

record version_budget =
  vb_ledger :: ledger
  vb_retained :: nat

definition version_new :: "nat \<Rightarrow> nat \<Rightarrow> version_budget" where
  "version_new slots headroom = \<lparr>vb_ledger = ledger_new slots headroom, vb_retained = 0\<rparr>"

definition version_reserve :: "nat \<Rightarrow> version_budget \<Rightarrow> mem_error + nat \<times> version_budget" where
  "version_reserve slots b =
     rbind (ledger_take slots (vb_ledger b)) (\<lambda>(taken, l). Inr (taken, b\<lparr>vb_ledger := l\<rparr>))"

definition version_release :: "nat \<Rightarrow> version_budget \<Rightarrow> version_budget" where
  "version_release slots b = b\<lparr>vb_ledger := ledger_give slots (vb_ledger b)\<rparr>"

definition version_charge_retention :: "nat \<Rightarrow> version_budget \<Rightarrow> mem_error + version_budget" where
  "version_charge_retention slots b =
     rbind (ledger_take slots (vb_ledger b)) (\<lambda>(taken, l).
     Inr (b\<lparr>vb_ledger := l, vb_retained := sat_add (vb_retained b) taken\<rparr>))"

definition version_credit_retention :: "nat \<Rightarrow> version_budget \<Rightarrow> version_budget" where
  "version_credit_retention slots b =
     b\<lparr>vb_ledger := ledger_give slots (vb_ledger b), vb_retained := vb_retained b - slots\<rparr>"

record metadata_budget =
  mb_ledger :: ledger

definition metadata_new :: "nat \<Rightarrow> metadata_budget" where
  "metadata_new bytes = \<lparr>mb_ledger = ledger_new bytes 0\<rparr>"

definition set_observation_room :: "nat \<Rightarrow> metadata_budget \<Rightarrow> mem_error + metadata_budget" where
  "set_observation_room bytes b =
     (if lg_committed (mb_ledger b) \<noteq> 0 \<or> bytes > lg_reserve (mb_ledger b)
      then Inl (MemBudgetExceeded bytes (lg_reserve (mb_ledger b) - lg_committed (mb_ledger b)))
      else Inr (b\<lparr>mb_ledger := (mb_ledger b)\<lparr>lg_headroom := bytes\<rparr>\<rparr>))"

definition observation_admittable :: "metadata_budget \<Rightarrow> nat" where
  "observation_admittable b = ledger_with_headroom (mb_ledger b)"

definition reserve_observation :: "nat \<Rightarrow> metadata_budget \<Rightarrow> mem_error + nat \<times> metadata_budget" where
  "reserve_observation bytes b =
     rbind (ledger_take_into_headroom bytes (mb_ledger b)) (\<lambda>(taken, l). Inr (taken, b\<lparr>mb_ledger := l\<rparr>))"

definition metadata_reserve :: "nat \<Rightarrow> metadata_budget \<Rightarrow> mem_error + nat \<times> metadata_budget" where
  "metadata_reserve bytes b =
     rbind (ledger_take bytes (mb_ledger b)) (\<lambda>(taken, l). Inr (taken, b\<lparr>mb_ledger := l\<rparr>))"

definition metadata_release :: "nat \<Rightarrow> metadata_budget \<Rightarrow> metadata_budget" where
  "metadata_release bytes b = b\<lparr>mb_ledger := ledger_give bytes (mb_ledger b)\<rparr>"

section \<open>Sizing\<close>

definition growth_increment :: "nat \<Rightarrow> nat \<Rightarrow> nat \<Rightarrow> nat" where
  "growth_increment rate_p99 prepare_ns slab = max (sat_mul rate_p99 prepare_ns) slab"

definition div_ceil :: "nat \<Rightarrow> nat \<Rightarrow> nat" where
  "div_ceil a b = (if a mod b = 0 then a div b else a div b + 1)"

definition slab_bytes :: "nat \<Rightarrow> nat \<Rightarrow> nat \<Rightarrow> nat" where
  "slab_bytes page burst_p99 slot =
     (let needed = sat_mul (max burst_p99 1) (max slot 1)
      in sat_mul (div_ceil needed (max page 1)) (max page 1))"

definition region_bytes :: "nat \<Rightarrow> nat \<Rightarrow> nat \<Rightarrow> nat" where
  "region_bytes capacity shards classes = capacity div max shards 1 div max classes 1"

section \<open>Growing from the pool\<close>

text \<open>
  \<open>ChunkArena::make_room\<close>. The arena's regions are the operating system's; \<open>claim needed\<close> is the
  capacity the arena adds when asked for \<open>needed\<close> bytes (0 when the pool has fewer claimable, or
  when the claims it took fall short and are given back).
\<close>

definition make_room :: "(nat \<Rightarrow> nat) \<Rightarrow> nat \<Rightarrow> shard_budget \<Rightarrow> nat \<times> shard_budget" where
  "make_room claim bytes b =
     (if bytes = 0 \<or> budget_deficit b bytes = 0 then (0, b)
      else (let needed = sat_add (budget_deficit b bytes) (budget_debt b);
                added = claim needed
            in if added < needed then (0, b) else (added, absorb_debt (budget_extend added b))))"

section \<open>The contract of a reservation\<close>

text \<open>Every claim is backed: what is committed and the headroom lie within the capacity.\<close>

definition backed :: "ledger \<Rightarrow> bool" where
  "backed l \<longleftrightarrow> lg_reserve l \<le> u64_max \<and> lg_headroom l \<le> u64_max
     \<and> (lg_committed l = 0 \<or> lg_committed l + lg_headroom l \<le> lg_reserve l)"

lemma ledger_take_Inr: "ledger_take n l = Inr (m, l') \<longleftrightarrow>
  m = n \<and> n \<le> ledger_admittable l \<and> l' = l\<lparr>lg_committed := sat_add (lg_committed l) n\<rparr>"
  by (auto simp: ledger_take_def Let_def)

lemma ledger_take_Inl: "ledger_take n l = Inl e \<longleftrightarrow> ledger_admittable l < n \<and> e = MemBudgetExceeded n (ledger_admittable l)"
  by (auto simp: ledger_take_def Let_def)

lemma backed_take:
  assumes "backed l" "n \<le> ledger_admittable l"
  shows "backed (l\<lparr>lg_committed := sat_add (lg_committed l) n\<rparr>)" "sat_add (lg_committed l) n = lg_committed l + n"
proof -
  have "lg_committed l + n + lg_headroom l \<le> lg_reserve l \<or> n = 0"
    using assms(2) by (auto simp: ledger_admittable_def)
  moreover have "lg_committed l \<le> u64_max" using assms(1) by (auto simp: backed_def)
  ultimately show s: "sat_add (lg_committed l) n = lg_committed l + n"
    using assms(1) by (intro sat_add_small) (auto simp: backed_def)
  show "backed (l\<lparr>lg_committed := sat_add (lg_committed l) n\<rparr>)"
    using assms(1) \<open>_ \<or> n = 0\<close> by (auto simp: s backed_def)
qed

lemma backed_give: "backed l \<Longrightarrow> backed (ledger_give n l)"
  by (auto simp: backed_def ledger_give_def)

locale reserving =
  fixes ledger_of :: "'b \<Rightarrow> ledger"
    and reserve :: "nat \<Rightarrow> 'b \<Rightarrow> mem_error + nat \<times> 'b"
    and release :: "nat \<Rightarrow> 'b \<Rightarrow> 'b"
  assumes reserves: "reserve n b = Inr (m, b') \<Longrightarrow> ledger_take n (ledger_of b) = Inr (m, ledger_of b')"
    and refuses: "reserve n b = Inl e \<longleftrightarrow> ledger_take n (ledger_of b) = Inl e"
    and releases: "ledger_of (release n b) = ledger_give n (ledger_of b)"
begin

text \<open>A reservation is granted whole exactly when it is admittable; a refusal names what is.\<close>

lemma granted_iff: "(\<exists>b'. reserve n b = Inr (n, b')) \<longleftrightarrow> n \<le> ledger_admittable (ledger_of b)"
proof
  assume "\<exists>b'. reserve n b = Inr (n, b')"
  then show "n \<le> ledger_admittable (ledger_of b)" using reserves by (auto simp: ledger_take_Inr)
next
  assume n: "n \<le> ledger_admittable (ledger_of b)"
  show "\<exists>b'. reserve n b = Inr (n, b')"
  proof (cases "reserve n b")
    case (Inl e)
    then show ?thesis using refuses n by (auto simp: ledger_take_Inl)
  next
    case (Inr r)
    then show ?thesis using reserves [of n b "fst r" "snd r"] by (cases r) (auto simp: ledger_take_Inr)
  qed
qed

lemma reserve_backed: "backed (ledger_of b) \<Longrightarrow> reserve n b = Inr (m, b') \<Longrightarrow> backed (ledger_of b')"
  using reserves [of n b m b'] backed_take by (auto simp: ledger_take_Inr)

lemma release_backed: "backed (ledger_of b) \<Longrightarrow> backed (ledger_of (release n b))"
  by (simp add: releases backed_give)

text \<open>Releasing a reservation gives back exactly what it took.\<close>

lemma reserve_release:
  assumes "backed (ledger_of b)" "reserve n b = Inr (m, b')"
  shows "ledger_of (release m b') = ledger_of b"
  using reserves [OF assms(2)] backed_take(2) [OF assms(1)] by (auto simp: ledger_take_Inr releases ledger_give_def)

end

interpretation byte_budget: reserving sb_ledger budget_reserve budget_release
  by unfold_locales (auto simp: budget_reserve_def budget_release_def rbind_def split: sum.splits)

interpretation slot_budget: reserving vb_ledger version_reserve version_release
  by unfold_locales (auto simp: version_reserve_def version_release_def rbind_def split: sum.splits)

interpretation record_budget: reserving mb_ledger metadata_reserve metadata_release
  by unfold_locales (auto simp: metadata_reserve_def metadata_release_def rbind_def split: sum.splits)

interpretation growing_budget: reserving sb_ledger budget_grow budget_release
  by unfold_locales (auto simp: budget_grow_def budget_release_def rbind_def split: sum.splits)

section \<open>Runs\<close>

text \<open>
  A budget through any sequence of its operations, with the claims its holders have not given back.
  A holder gives back a claim it holds, and credits no more than was charged.
\<close>

inductive budget_run :: "shard_budget \<Rightarrow> nat multiset \<Rightarrow> bool" where
  run_new: "reserve \<le> u64_max \<Longrightarrow> headroom \<le> u64_max \<Longrightarrow> budget_run (budget_new reserve headroom) {#}"
| run_reserve: "budget_run b cs \<Longrightarrow> budget_reserve n b = Inr (m, b') \<Longrightarrow> budget_run b' (add_mset m cs)"
| run_grow: "budget_run b cs \<Longrightarrow> budget_grow n b = Inr (m, b') \<Longrightarrow> budget_run b' (add_mset m cs)"
| run_release: "budget_run b (add_mset m cs) \<Longrightarrow> budget_run (budget_release m b) cs"
| run_charge_retention: "budget_run b cs \<Longrightarrow> charge_retention n b = Inr b' \<Longrightarrow> budget_run b' cs"
| run_credit_retention: "budget_run b cs \<Longrightarrow> n \<le> sb_retained b \<Longrightarrow> budget_run (credit_retention n b) cs"
| run_charge_replicated: "budget_run b cs \<Longrightarrow> charge_replicated n b = Inr b' \<Longrightarrow> budget_run b' cs"
| run_credit_replicated: "budget_run b cs \<Longrightarrow> n \<le> sb_replicated b \<Longrightarrow> budget_run (credit_replicated n b) cs"
| run_set_hold: "budget_run b cs \<Longrightarrow> budget_run (set_hold n b) cs"
| run_set_pressure: "budget_run b cs \<Longrightarrow> budget_run (set_pressure hold debt b) cs"
| run_restore_pressure: "budget_run b cs \<Longrightarrow> budget_run (restore_pressure p b) cs"
| run_mark_room: "budget_run b cs \<Longrightarrow> budget_run (snd (mark_room b)) cs"
| run_retract: "budget_run b cs \<Longrightarrow> budget_run (snd (budget_retract n b)) cs"
| run_make_room: "budget_run b cs \<Longrightarrow> budget_run (snd (make_room claim n b)) cs"

definition accounts :: "shard_budget \<Rightarrow> nat multiset \<Rightarrow> bool" where
  "accounts b cs \<longleftrightarrow> backed (sb_ledger b) \<and> budget_committed b = sum_mset cs + sb_retained b + sb_replicated b"

lemma sat_add_le_u64: "sat_add a b \<le> u64_max"
  by (simp add: sat_add_def)

lemma accounts_take:
  assumes "accounts b cs" "ledger_take n (sb_ledger b) = Inr (m, l)"
  shows "backed l" "lg_committed l = budget_committed b + m" "m = n"
  using assms backed_take [of "sb_ledger b" n] by (auto simp: accounts_def ledger_take_Inr budget_committed_def)

lemma accounts_charge:
  assumes "accounts b cs" "charge_retention n b = Inr b'"
  shows "accounts b' cs"
proof -
  obtain m l where l: "ledger_take n (sb_ledger b) = Inr (m, l)"
    "b' = b\<lparr>sb_ledger := l, sb_retained := sat_add (sb_retained b) m\<rparr>"
    using assms(2) by (auto simp: charge_retention_def rbind_Inr_iff)
  note t = accounts_take [OF assms(1) l(1)]
  have "sb_retained b + m \<le> u64_max" using t assms(1) by (auto simp: accounts_def backed_def)
  then show ?thesis using t assms(1) by (simp add: l(2) accounts_def budget_committed_def sat_add_small)
qed

lemma accounts_replicate:
  assumes "accounts b cs" "charge_replicated n b = Inr b'"
  shows "accounts b' cs"
proof -
  obtain m l where l: "ledger_take n (sb_ledger b) = Inr (m, l)"
    "b' = b\<lparr>sb_ledger := l, sb_replicated := sat_add (sb_replicated b) m\<rparr>"
    using assms(2) by (auto simp: charge_replicated_def rbind_Inr_iff)
  note t = accounts_take [OF assms(1) l(1)]
  have "sb_replicated b + m \<le> u64_max" using t assms(1) by (auto simp: accounts_def backed_def)
  then show ?thesis using t assms(1) by (simp add: l(2) accounts_def budget_committed_def sat_add_small)
qed

lemma give_committed [simp]: "lg_committed (ledger_give n l) = lg_committed l - n"
  by (simp add: ledger_give_def)

lemma accounts_release: "accounts b (add_mset m cs) \<Longrightarrow> accounts (budget_release m b) cs"
  by (simp add: accounts_def budget_release_def budget_committed_def backed_give)

lemma accounts_credit:
  "accounts b cs \<Longrightarrow> n \<le> sb_retained b \<Longrightarrow> accounts (credit_retention n b) cs"
  "accounts b cs \<Longrightarrow> n \<le> sb_replicated b \<Longrightarrow> accounts (credit_replicated n b) cs"
  by (simp_all add: accounts_def credit_retention_def credit_replicated_def budget_committed_def backed_give)

lemma accounts_room: "accounts b cs \<Longrightarrow> accounts (snd (make_room claim n b)) cs"
  using sat_add_le_u64
  by (auto simp: make_room_def Let_def accounts_def backed_def budget_committed_def absorb_debt_def budget_extend_def sat_add_def)

lemma accounts_retract: "accounts b cs \<Longrightarrow> accounts (snd (budget_retract n b)) cs"
  by (auto simp: budget_retract_def Let_def accounts_def backed_def budget_committed_def sat_add_def min_def split: if_splits)

lemma backed_hold [simp]: "backed (l\<lparr>lg_hold := h\<rparr>) = backed l"
  by (simp add: backed_def)

lemma accounts_pressure:
  "accounts b cs \<Longrightarrow> accounts (set_hold n b) cs" "accounts b cs \<Longrightarrow> accounts (set_pressure hold debt b) cs"
  "accounts b cs \<Longrightarrow> accounts (restore_pressure p b) cs" "accounts b cs \<Longrightarrow> accounts (snd (mark_room b)) cs"
  by (simp_all add: accounts_def budget_committed_def set_hold_def set_pressure_def restore_pressure_def mark_room_def Let_def)

lemma run_accounts: "budget_run b cs \<Longrightarrow> accounts b cs"
proof (induction rule: budget_run.induct)
  case (run_new reserve headroom)
  then show ?case by (simp add: accounts_def backed_def budget_new_def ledger_new_def budget_committed_def)
next
  case (run_reserve b cs n m b')
  then show ?case using accounts_take [OF run_reserve.IH]
    by (auto simp: budget_reserve_def rbind_Inr_iff accounts_def budget_committed_def)
next
  case (run_grow b cs n m b')
  then show ?case using accounts_take [OF run_grow.IH]
    by (auto simp: budget_grow_def rbind_Inr_iff accounts_def budget_committed_def)
qed (blast intro: accounts_release accounts_charge accounts_replicate accounts_credit accounts_room accounts_retract
    accounts_pressure)+

section \<open>Properties\<close>

text \<open>
  C31: claims are backed. Through any sequence of reservations, growths, releases, retention and
  replication charges and credits, pressure changes, growth from the pool and retractions, the
  committed bytes are exactly the claims not given back, the retained and the replicated bytes, and
  together with the operation headroom they lie within the capacity.
\<close>

theorem budget_claims_backed:
  assumes "budget_run b cs"
  shows "budget_committed b = sum_mset cs + sb_retained b + sb_replicated b
    \<and> (budget_committed b = 0 \<or> budget_committed b + budget_headroom b \<le> budget_capacity b)"
  using run_accounts [OF assms]
  by (auto simp: accounts_def backed_def budget_committed_def budget_headroom_def budget_capacity_def)

lemma budget_claims_backed_witness:
  "budget_committed (budget_new 100 10) = 0
   \<and> (\<exists>b. budget_reserve 60 (budget_new 100 10) = Inr (60, b) \<and> budget_committed b = 60 \<and> 60 + budget_headroom b \<le> budget_capacity b)"
proof
  have new: "budget_run (budget_new 100 10) {#}" by (rule run_new) (simp_all add: u64_max_def)
  show "budget_committed (budget_new 100 10) = 0"
    by (simp add: budget_committed_def budget_new_def ledger_new_def)
  obtain b where b: "budget_reserve 60 (budget_new 100 10) = Inr (60, b)" "sb_retained b = 0" "sb_replicated b = 0"
    by (simp add: budget_reserve_def ledger_take_def ledger_admittable_def budget_new_def ledger_new_def)
  from budget_claims_backed [OF run_reserve [OF new b(1)]] b
  show "\<exists>b. budget_reserve 60 (budget_new 100 10) = Inr (60, b) \<and> budget_committed b = 60 \<and> 60 + budget_headroom b \<le> budget_capacity b"
    by auto
qed

text \<open>
  C32: growth from the pool admits. When the arena claims what \<open>make_room\<close> asks it for, the
  admission that follows is granted whole, be it a reservation, a growth or a charge of retention:
  the deficit covers the request, the headroom, the hold and the pressure debt the growth takes on.
\<close>

theorem make_room_admits:
  assumes "lg_committed (sb_ledger b) + budget_headroom b + budget_hold b + bytes + budget_debt b \<le> u64_max"
    and "budget_deficit b bytes + budget_debt b \<le> claim (budget_deficit b bytes + budget_debt b)"
    and "budget_capacity b + claim (budget_deficit b bytes + budget_debt b) \<le> u64_max"
  shows "(\<exists>b'. budget_reserve bytes (snd (make_room claim bytes b)) = Inr (bytes, b'))
    \<and> (\<exists>b'. budget_grow bytes (snd (make_room claim bytes b)) = Inr (bytes, b'))
    \<and> (\<exists>b'. charge_retention bytes (snd (make_room claim bytes b)) = Inr b')"
proof -
  have d: "budget_deficit b bytes = lg_committed (sb_ledger b) + budget_headroom b + budget_hold b + bytes - budget_capacity b"
    using assms(1) by (simp add: budget_deficit_def budget_headroom_def budget_hold_def budget_capacity_def sat_add_small)
  have "sat_add (budget_deficit b bytes) (budget_debt b) = budget_deficit b bytes + budget_debt b"
    using assms(1) d by (intro sat_add_small) simp
  note sat = this
  have "bytes \<le> ledger_admittable (sb_ledger (snd (make_room claim bytes b)))"
  proof (cases "bytes = 0 \<or> budget_deficit b bytes = 0")
    case True
    then have "make_room claim bytes b = (0, b)" by (auto simp: make_room_def)
    moreover have "bytes \<le> budget_capacity b - lg_committed (sb_ledger b) - budget_headroom b - budget_hold b"
      using True d by auto
    ultimately show ?thesis
      by (simp add: ledger_admittable_def budget_headroom_def budget_hold_def budget_capacity_def)
  next
    case False
    define added where "added = claim (budget_deficit b bytes + budget_debt b)"
    have "make_room claim bytes b = (added, absorb_debt (budget_extend added b))"
      using False assms(2) by (simp add: make_room_def Let_def sat added_def)
    moreover have "sat_add (budget_capacity b) added = budget_capacity b + added"
      using assms(3) by (simp add: added_def sat_add_small)
    moreover have "sat_add (budget_hold b) (budget_debt b) = budget_hold b + budget_debt b"
      using assms(1) by (intro sat_add_small) simp
    moreover have "bytes \<le> budget_capacity b + added - lg_committed (sb_ledger b) - budget_headroom b - (budget_hold b + budget_debt b)"
      using d False assms(2) unfolding added_def by linarith
    ultimately show ?thesis
      by (simp add: ledger_admittable_def absorb_debt_def budget_extend_def budget_headroom_def budget_hold_def
          budget_capacity_def budget_debt_def)
  qed
  note room = this
  moreover have "\<exists>b'. charge_retention bytes (snd (make_room claim bytes b)) = Inr b'"
    using room by (simp add: charge_retention_def ledger_take_def)
  ultimately show ?thesis using growing_budget.granted_iff byte_budget.granted_iff by blast
qed

lemma make_room_admits_witness:
  "\<exists>b'. budget_reserve 50 (snd (make_room (\<lambda>n. n + 7) 50 (budget_new 20 10))) = Inr (50, b')"
  by (rule conjunct1 [OF make_room_admits])
    (simp_all add: budget_new_def ledger_new_def budget_deficit_def budget_debt_def budget_headroom_def budget_hold_def
      budget_capacity_def sat_add_def u64_max_def)

end
