(* ===== verification/Merge_Service.thy ===== *)
theory Merge_Service
  imports Work_State Budget Commit Retention Rebase
begin

text \<open>
  The merge plane of one shard (\<open>crates/server/src/merge_service.rs\<close>, the merge verbs of
  \<open>crates/server/src/verbs.rs\<close>, \<open>crates/server/src/work_charge.rs\<close>), with the tables of the
  partition it records in (\<open>crates/db/src/partition.rs\<close>). A verb runs inside a transaction, where
  \<open>Db::mutate\<close> is the check and the application of the operation. Modelled on one host (\<open>f = 0\<close>),
  where the owner is the quorum and an appended version is placed at once.
\<close>

section \<open>The catalog\<close>

datatype principal =
    Uid nat
  | Sid string
  | Certificate "byte list"
  | Consumer nat nat

record rights =
  may_read :: bool
  may_write :: bool
  may_admin :: bool

datatype role =
    RPlain
  | RWork vid ver bool
  | RGreen bool ver

datatype volume_state = Creating | Live | Sealing | Landing | Archived | Restoring | Destroying | Destroyed

record volume_record =
  vr_name :: string
  vr_role :: role
  vr_state :: volume_state
  vr_epoch :: nat
  vr_owner :: principal
  vr_access :: "(principal \<times> rights) list"

definition no_rights :: rights where
  "no_rights = \<lparr>may_read = False, may_write = False, may_admin = False\<rparr>"

definition rights_of :: "volume_record \<Rightarrow> principal \<Rightarrow> rights" where
  "rights_of r who =
     (if vr_owner r = who then \<lparr>may_read = True, may_write = True, may_admin = True\<rparr>
      else case find (\<lambda>e. fst e = who) (vr_access r) of None \<Rightarrow> no_rights | Some e \<Rightarrow> snd e)"

section \<open>The partition\<close>

text \<open>
  The origin of a green is recorded as a reference to an immutable snapshot the green holds; the
  table keeps the origin the walk of that snapshot gives.
\<close>

record partition =
  pt_volumes :: "(vid, volume_record) btmap"
  pt_chains :: "(vid, byte list list) btmap"
  pt_origins :: "(vid, origin) btmap"
  pt_logs :: "(vid, byte list list) btmap"
  pt_merge_bytes :: nat
  pt_merge_cap :: nat
  pt_tombstones :: "(vid, nat) btmap"
  pt_volume_cap :: nat

datatype db_op =
    VolumeCreated vid volume_record
  | VolumeStateChanged vid volume_state
  | VolumeDestroyed vid
  | GreenOriginHeld vid origin
  | GreenAdvanced vid "byte list"
  | WorkLogged vid "byte list"
  | WorkRestated vid "byte list"

datatype db_error = DbNotFound | DbExists vid | DbCapacity string

definition log_of :: "(vid, byte list list) btmap \<Rightarrow> vid \<Rightarrow> byte list list" where
  "log_of m v = unwrap_or (bt_get m v) []"

definition work_log_bytes :: "partition \<Rightarrow> vid \<Rightarrow> nat" where
  "work_log_bytes pt work = sum_list (map length (log_of (pt_logs pt) work))"

definition merge_bytes_fit :: "partition \<Rightarrow> nat \<Rightarrow> nat \<Rightarrow> bool" where
  "merge_bytes_fit pt released added \<longleftrightarrow> sat_add (pt_merge_bytes pt - released) added \<le> pt_merge_cap pt"

definition volume_by_name :: "partition \<Rightarrow> string \<Rightarrow> vid option" where
  "volume_by_name pt name = map_option fst (find (\<lambda>e. vr_name (snd e) = name) (pt_volumes pt))"

definition volume_slots_used :: "partition \<Rightarrow> nat" where
  "volume_slots_used pt = sat_add (length (pt_volumes pt)) (length (pt_tombstones pt))"

definition tombstone_sequence :: "partition \<Rightarrow> vid \<Rightarrow> nat option" where
  "tombstone_sequence pt v =
     (case bt_get (pt_volumes pt) v of
        None \<Rightarrow> None
      | Some r \<Rightarrow> checked_add (max (vr_epoch r) (length (log_of (pt_chains pt) v))) 1)"

text \<open>The record goes with its chain and its log, whose bytes return to the cap.\<close>

definition remove_volume :: "vid \<Rightarrow> partition \<Rightarrow> partition" where
  "remove_volume v pt =
     (let pt = pt\<lparr>pt_volumes := bt_remove v (pt_volumes pt)\<rparr>;
          pt = pt\<lparr>pt_merge_bytes := pt_merge_bytes pt - sum_list (map length (log_of (pt_chains pt) v)),
                 pt_chains := bt_remove v (pt_chains pt), pt_origins := bt_remove v (pt_origins pt)\<rparr>;
          pt = pt\<lparr>pt_merge_bytes := pt_merge_bytes pt - work_log_bytes pt v, pt_logs := bt_remove v (pt_logs pt)\<rparr>
      in pt)"

text \<open>
  The snapshot an origin names is not a table of the model, so the refusal of \<open>GreenOriginHeld\<close> for a
  snapshot that is gone has no arm here: the model admits an origin the code may refuse.
\<close>

fun partition_check :: "partition \<Rightarrow> db_op \<Rightarrow> db_error option" where
  "partition_check pt (VolumeCreated v r) =
     (if bt_get (pt_volumes pt) v \<noteq> None then Some (DbExists v)
      else case volume_by_name pt (vr_name r) of
          Some w \<Rightarrow> Some (DbExists w)
        | None \<Rightarrow>
            if bt_get (pt_tombstones pt) v \<noteq> None then Some (DbExists v)
            else if volume_slots_used pt \<ge> pt_volume_cap pt then Some (DbCapacity ''volumes'')
            else None)"
| "partition_check pt (VolumeStateChanged v _) = (if bt_get (pt_volumes pt) v = None then Some DbNotFound else None)"
| "partition_check pt (VolumeDestroyed v) =
     (if bt_get (pt_volumes pt) v = None then Some DbNotFound
      else if tombstone_sequence pt v = None then Some (DbCapacity ''tombstone sequence'')
      else None)"
| "partition_check pt (GreenOriginHeld green _) =
     (if bt_get (pt_volumes pt) green = None then Some DbNotFound
      else if bt_get (pt_origins pt) green \<noteq> None \<or> log_of (pt_chains pt) green \<noteq> [] then Some (DbExists green)
      else None)"
| "partition_check pt (GreenAdvanced green increment) =
     (if bt_get (pt_volumes pt) green = None then Some DbNotFound
      else if sat_add (pt_merge_bytes pt) (length increment) > pt_merge_cap pt then Some (DbCapacity ''green_chains'')
      else None)"
| "partition_check pt (WorkLogged work entry) =
     (if bt_get (pt_volumes pt) work = None then Some DbNotFound
      else if merge_bytes_fit pt 0 (length entry) then None else Some (DbCapacity ''green_chains''))"
| "partition_check pt (WorkRestated work entry) =
     (if bt_get (pt_volumes pt) work = None then Some DbNotFound
      else if merge_bytes_fit pt (work_log_bytes pt work) (length entry) then None else Some (DbCapacity ''green_chains''))"

fun partition_apply :: "db_op \<Rightarrow> partition \<Rightarrow> partition" where
  "partition_apply (VolumeCreated v r) pt = pt\<lparr>pt_volumes := bt_insert v r (pt_volumes pt)\<rparr>"
| "partition_apply (VolumeStateChanged v state) pt =
     pt\<lparr>pt_volumes := (case bt_get (pt_volumes pt) v of
         None \<Rightarrow> pt_volumes pt
       | Some r \<Rightarrow> bt_insert v (r\<lparr>vr_state := state\<rparr>) (pt_volumes pt))\<rparr>"
| "partition_apply (VolumeDestroyed v) pt =
     (let pt' = remove_volume v pt
      in case tombstone_sequence pt v of
           None \<Rightarrow> pt'
         | Some n \<Rightarrow> pt'\<lparr>pt_tombstones := bt_insert v n (pt_tombstones pt')\<rparr>)"
| "partition_apply (GreenOriginHeld green origin) pt = pt\<lparr>pt_origins := bt_insert green origin (pt_origins pt)\<rparr>"
| "partition_apply (GreenAdvanced green increment) pt =
     pt\<lparr>pt_merge_bytes := sat_add (pt_merge_bytes pt) (length increment),
        pt_chains := bt_insert green (log_of (pt_chains pt) green @ [increment]) (pt_chains pt)\<rparr>"
| "partition_apply (WorkLogged work entry) pt =
     pt\<lparr>pt_merge_bytes := sat_add (pt_merge_bytes pt) (length entry),
        pt_logs := bt_insert work (log_of (pt_logs pt) work @ [entry]) (pt_logs pt)\<rparr>"
| "partition_apply (WorkRestated work entry) pt =
     pt\<lparr>pt_merge_bytes := sat_add (pt_merge_bytes pt - work_log_bytes pt work) (length entry),
        pt_logs := bt_insert work [entry] (pt_logs pt)\<rparr>"

section \<open>The shard\<close>

record shard =
  sh_partition :: partition
  sh_greens :: "(vid, green) btmap"
  sh_works :: "(vid, work_state) btmap"
  sh_retention :: "(vid, nat) btmap"
  sh_pins :: "(nat, vid \<times> ver) btmap"
  sh_placed :: "(vid, ver) btmap"
  sh_budget :: shard_budget

text \<open>
  What the shard is built over: the size of \<open>VolumeOp\<close>, BLAKE3 and its extended output, and the
  arena's pool (what it claims when asked, and what it could still claim).
\<close>

record env =
  ev_op_size :: nat
  ev_blake3 :: "byte list \<Rightarrow> identity32"
  ev_xof :: xof
  ev_claim :: "nat \<Rightarrow> nat"
  ev_claimable :: nat

datatype refusal =
    NotFound
  | Destroying_volume
  | ReadOnlyVolume
  | NotWork
  | NotGreen
  | Forbidden
  | UnknownBase vid ver
  | BudgetExceeded nat
  | EvidenceRequired
  | NotComposed derive_error
  | BadRequest string
  | AlreadyExists vid
  | IdsExhausted

datatype reply =
    Edited
  | Declared
  | Submitted "ver option" "conflict_window list"
  | RebasedTo "ver option" "conflict_window list"
  | ReadBytes "byte list"
  | ReadPage "byte list" nat nat
  | Versions ver
  | ChangedSince "path list"
  | GreenCreated vid
  | WorkCreated vid ver
  | Destroyed_volume
  | Refused refusal

definition refusal_of_db :: "db_error \<Rightarrow> refusal" where
  "refusal_of_db e =
     (case e of
        DbNotFound \<Rightarrow> NotFound
      | DbExists v \<Rightarrow> AlreadyExists v
      | DbCapacity table \<Rightarrow> BadRequest (table @ '' at capacity''))"

text \<open>
  \<open>Db::mutate\<close> inside a transaction: checked and applied at once. The record written at the commit, the
  log that may be full there and the snapshot that empties it are the log ring's.
\<close>

definition db_mutate :: "db_op \<Rightarrow> shard \<Rightarrow> db_error + shard" where
  "db_mutate p st =
     (case partition_check (sh_partition st) p of
        Some e \<Rightarrow> Inl e
      | None \<Rightarrow> Inr (st\<lparr>sh_partition := partition_apply p (sh_partition st)\<rparr>))"

section \<open>Roles\<close>

definition find_record :: "shard \<Rightarrow> vid \<Rightarrow> refusal + volume_record" where
  "find_record st v =
     (case bt_get (pt_volumes (sh_partition st)) v of
        None \<Rightarrow> Inl NotFound
      | Some r \<Rightarrow> if vr_state r = Destroying \<or> vr_state r = Destroyed then Inl Destroying_volume else Inr r)"

definition require_work :: "shard \<Rightarrow> principal \<Rightarrow> vid \<Rightarrow> bool \<Rightarrow> refusal + vid" where
  "require_work st who work writes =
     rbind (find_record st work) (\<lambda>r.
     rbind (case vr_role r of
         RWork green _ _ \<Rightarrow> Inr green
       | RGreen _ _ \<Rightarrow> Inl (if writes then ReadOnlyVolume else NotWork)
       | RPlain \<Rightarrow> Inl NotWork) (\<lambda>green.
     if may_write (rights_of r who) then Inr green else Inl Forbidden))"

definition requires_evidence :: "shard \<Rightarrow> vid \<Rightarrow> bool" where
  "requires_evidence st v =
     (case bt_get (pt_volumes (sh_partition st)) v of
        None \<Rightarrow> False
      | Some r \<Rightarrow> (case vr_role r of RGreen req _ \<Rightarrow> req | _ \<Rightarrow> False))"

definition canonical_path :: "path \<Rightarrow> path" where
  "canonical_path p = dropWhile (\<lambda>c. c = CHR ''/'') p"

definition base_of_work :: "shard \<Rightarrow> work_state \<Rightarrow> work_base" where
  "base_of_work st w = \<lparr>wb_green = bt_get (sh_greens st) (ws_green w), wb_version = ws_base w\<rparr>"

section \<open>Charges\<close>

text \<open>\<open>Store::grow\<close> and \<open>Store::admittable\<close>.\<close>

definition store_admittable :: "env \<Rightarrow> shard_budget \<Rightarrow> nat" where
  "store_admittable ev b =
     sat_add (budget_capacity b) (ev_claimable ev - budget_debt b)
       - budget_committed b - budget_headroom b - budget_hold b"

definition charge_grow :: "env \<Rightarrow> vid \<Rightarrow> nat \<Rightarrow> shard \<Rightarrow> (nat + unit) \<times> shard" where
  "charge_grow ev work bytes st =
     (if bytes = 0 then (Inr (), st)
      else
        let b = snd (make_room (ev_claim ev) bytes (sh_budget st))
        in case budget_grow bytes b of
             Inr (_, b) \<Rightarrow>
               (Inr (), st\<lparr>sh_budget := b,
                  sh_works := (case bt_get (sh_works st) work of
                      None \<Rightarrow> sh_works st
                    | Some w \<Rightarrow> bt_insert work (w\<lparr>ws_charged := sat_add (ws_charged w) bytes\<rparr>) (sh_works st))\<rparr>)
           | Inl _ \<Rightarrow> (Inl (store_admittable ev b), st\<lparr>sh_budget := b\<rparr>))"

definition charge_shrink :: "vid \<Rightarrow> nat \<Rightarrow> shard \<Rightarrow> shard" where
  "charge_shrink work bytes st =
     (case bt_get (sh_works st) work of
        None \<Rightarrow> st
      | Some w \<Rightarrow>
          let released = min bytes (ws_charged w)
          in st\<lparr>sh_works := bt_insert work (w\<lparr>ws_charged := ws_charged w - released\<rparr>) (sh_works st),
               sh_budget := budget_release released (sh_budget st)\<rparr>)"

definition charge_set_to :: "env \<Rightarrow> vid \<Rightarrow> nat \<Rightarrow> shard \<Rightarrow> (nat + unit) \<times> shard" where
  "charge_set_to ev work wanted st =
     (let charged = (case bt_get (sh_works st) work of None \<Rightarrow> 0 | Some w \<Rightarrow> ws_charged w)
      in if wanted > charged then charge_grow ev work (wanted - charged) st
         else (Inr (), charge_shrink work (charged - wanted) st))"

definition charge_release :: "nat \<Rightarrow> shard \<Rightarrow> shard" where
  "charge_release charged st = st\<lparr>sh_budget := budget_release charged (sh_budget st)\<rparr>"

section \<open>Retention\<close>

definition rejected_cache_budget :: "shard \<Rightarrow> nat" where
  "rejected_cache_budget st = pt_merge_cap (sh_partition st)"

definition reader_versions :: "shard \<Rightarrow> vid \<Rightarrow> ver list" where
  "reader_versions st green =
     map ws_base (filter (\<lambda>w. ws_green w = green) (bt_values (sh_works st)))
     @ map snd (filter (\<lambda>pin. fst pin = green) (bt_values (sh_pins st)))"

definition reachable_floor :: "shard \<Rightarrow> vid \<Rightarrow> ver" where
  "reachable_floor st green =
     (let top_version = (case bt_get (sh_greens st) green of None \<Rightarrow> 0 | Some g \<Rightarrow> head g)
      in min (case reader_versions st green of [] \<Rightarrow> top_version | v # vs \<Rightarrow> fold min vs v) top_version)"

definition settle_green_retention :: "env \<Rightarrow> vid \<Rightarrow> shard \<Rightarrow> (nat + unit) \<times> shard" where
  "settle_green_retention ev green st =
     (case bt_get (sh_greens st) green of
        None \<Rightarrow> (Inr (), st)
      | Some g \<Rightarrow>
          let g = snd (fold_history_to_budget (ev_xof ev) (reachable_floor st green) (rejected_cache_budget st) g);
              st = st\<lparr>sh_greens := bt_insert green g (sh_greens st)\<rparr>;
              wanted = retention_charge g;
              charged = unwrap_or (bt_get (sh_retention st) green) 0;
              settled = st\<lparr>sh_retention := bt_insert green wanted (sh_retention st)\<rparr>
          in if wanted > charged then
               (case charge_retention (wanted - charged) (sh_budget st) of
                  Inl (MemBudgetExceeded _ available) \<Rightarrow> (Inl available, st)
                | Inr b \<Rightarrow> (Inr (), settled\<lparr>sh_budget := b\<rparr>))
             else if wanted < charged then
               (Inr (), settled\<lparr>sh_budget := credit_retention (charged - wanted) (sh_budget st)\<rparr>)
             else (Inr (), settled))"

definition secure_green_retention :: "vid \<Rightarrow> nat \<Rightarrow> shard \<Rightarrow> nat + shard" where
  "secure_green_retention green bytes st =
     (if bytes = 0 then Inr st
      else
        let cap = rejected_cache_budget st;
            charged = unwrap_or (bt_get (sh_retention st) green) 0
        in if sat_add charged bytes > cap then Inl (cap - charged)
           else case charge_retention bytes (sh_budget st) of
                  Inl (MemBudgetExceeded _ available) \<Rightarrow> Inl available
                | Inr b \<Rightarrow> Inr (st\<lparr>sh_budget := b, sh_retention := bt_insert green (sat_add charged bytes) (sh_retention st)\<rparr>))"

definition release_green_retention :: "vid \<Rightarrow> shard \<Rightarrow> shard" where
  "release_green_retention green st =
     (case bt_get (sh_retention st) green of
        None \<Rightarrow> st
      | Some charged \<Rightarrow>
          st\<lparr>sh_retention := bt_remove green (sh_retention st), sh_budget := credit_retention charged (sh_budget st)\<rparr>)"

section \<open>Edits and declarations\<close>

definition wrapping_succ :: "nat \<Rightarrow> nat" where
  "wrapping_succ n = (n + 1) mod (u64_max + 1)"

definition record_work_change :: "env \<Rightarrow> vid \<Rightarrow> nat \<Rightarrow> work_log_entry \<Rightarrow> shard \<Rightarrow> (refusal + unit) \<times> shard" where
  "record_work_change ev work added entry st =
     (let p = WorkLogged work (entry_encode entry)
      in case partition_check (sh_partition st) p of
           Some e \<Rightarrow> (Inl (refusal_of_db e), st)
         | None \<Rightarrow>
             (case charge_grow ev work added st of
                (Inl available, st) \<Rightarrow> (Inl (BudgetExceeded available), st)
              | (Inr _, st) \<Rightarrow>
                  (case db_mutate p st of
                     Inl e \<Rightarrow> (Inl (refusal_of_db e), charge_shrink work added st)
                   | Inr st \<Rightarrow> (Inr (), st))))"

text \<open>
  The tail both verbs share: the change applied to the work, the revision bumped, and what the
  change removed given back; a base that cannot be read gives the charge back.
\<close>

definition finish_change :: "vid \<Rightarrow> nat \<times> nat \<Rightarrow> (work_change \<Rightarrow> work_base \<Rightarrow> base_gone + work_change) \<Rightarrow> reply \<Rightarrow>
    shard \<Rightarrow> reply \<times> shard" where
  "finish_change work amounts change done st =
     (let (added, removed) = amounts
      in case bt_get (sh_works st) work of
           None \<Rightarrow> (Refused NotFound, st)
         | Some w \<Rightarrow>
             (case change (ws_files w, ws_journal w) (base_of_work st w) of
                Inl _ \<Rightarrow> (Refused (UnknownBase (ws_green w) (ws_base w)), charge_shrink work added st)
              | Inr (fs, journal) \<Rightarrow>
                  (done, charge_shrink work removed
                     (st\<lparr>sh_works := bt_insert work
                        (w\<lparr>ws_files := fs, ws_journal := journal, ws_revision := wrapping_succ (ws_revision w)\<rparr>)
                        (sh_works st)\<rparr>))))"

definition edit_verb :: "env \<Rightarrow> principal \<Rightarrow> vid \<Rightarrow> path \<Rightarrow> nat \<Rightarrow> nat \<Rightarrow> byte list \<Rightarrow> shard \<Rightarrow> reply \<times> shard" where
  "edit_verb ev who work p at delete_len bytes st =
     (case require_work st who work True of
        Inl r \<Rightarrow> (Refused r, st)
      | Inr _ \<Rightarrow>
          let p = canonical_path p
          in case bt_get (sh_works st) work of
               None \<Rightarrow> (Refused NotFound, st)
             | Some w \<Rightarrow>
                 (case wf_get (ws_files w) (base_of_work st w) p of
                    Inl _ \<Rightarrow> (Refused (UnknownBase (ws_green w) (ws_base w)), st)
                  | Inr old \<Rightarrow>
                      let ops = edit_ops p old (at, delete_len, length bytes);
                          (spliced, removed) = splice_delta (ws_files w) p old (at, delete_len, length bytes);
                          added = sat_add (journal_footprint (ev_op_size ev) ops) spliced
                      in case record_work_change ev work added (LogEdit p at delete_len bytes) st of
                           (Inl r, st) \<Rightarrow> (Refused r, st)
                         | (Inr _, st) \<Rightarrow>
                             finish_change work (added, removed)
                               (\<lambda>wj b. apply_edit wj b (p, at, delete_len, bytes) ops) Edited st))"

datatype work_op =
    WMknod path special_node nat
  | WUnlink path
  | WRename path path
  | WMkdir path
  | WRmdir path
  | WSetMode path nat
  | WSymlink path path
  | WLink path path
  | WSetXattr path path "byte list"
  | WRemoveXattr path path

fun declared_op :: "work_op \<Rightarrow> volume_op" where
  "declared_op (WMknod p node m) = VMknod (canonical_path p) node m"
| "declared_op (WUnlink p) = VUnlink (canonical_path p)"
| "declared_op (WRename p q) = VRename (canonical_path p) (canonical_path q)"
| "declared_op (WMkdir p) = VMkdir (canonical_path p)"
| "declared_op (WRmdir p) = VRmdir (canonical_path p)"
| "declared_op (WSetMode p m) = VSetMode (canonical_path p) m"
| "declared_op (WSymlink p t) = VSymlink (canonical_path p) t"
| "declared_op (WLink p t) = VLink (canonical_path p) (canonical_path t)"
| "declared_op (WSetXattr p n v) = VSetXattr (canonical_path p) n v"
| "declared_op (WRemoveXattr p n) = VRemoveXattr (canonical_path p) n"

definition declare_verb :: "env \<Rightarrow> principal \<Rightarrow> vid \<Rightarrow> work_op \<Rightarrow> shard \<Rightarrow> reply \<times> shard" where
  "declare_verb ev who work p st =
     (case require_work st who work True of
        Inl r \<Rightarrow> (Refused r, st)
      | Inr _ \<Rightarrow>
          (case bt_get (sh_works st) work of
             None \<Rightarrow> (Refused NotFound, st)
           | Some w \<Rightarrow>
               let p = declared_op p
               in case declare_delta (ws_files w) (base_of_work st w) p of
                    Inl _ \<Rightarrow> (Refused (UnknownBase (ws_green w) (ws_base w)), st)
                  | Inr (moved, removed) \<Rightarrow>
                      let added = sat_add (footprint (ev_op_size ev) p) moved
                      in case record_work_change ev work added (LogDeclared (logged_of p)) st of
                           (Inl r, st) \<Rightarrow> (Refused r, st)
                         | (Inr _, st) \<Rightarrow> finish_change work (added, removed) (\<lambda>wj b. apply_declare wj b p) Declared st))"

end
