(* ===== verification/Merge_Verbs.thy ===== *)
theory Merge_Verbs
  imports Merge_Service
begin

text \<open>
  The verbs of the merge plane that move a work or a green: submit, rebase, the creation of a green
  and of a work, the pins of attachments, and the destruction of a merge volume.
\<close>

section \<open>Submit\<close>

definition accepted_restatement :: "ver \<Rightarrow> work_log_entry" where
  "accepted_restatement version = LogRestated version [] []"

definition restatement :: "vid \<Rightarrow> work_log_entry \<Rightarrow> db_op" where
  "restatement work entry = WorkRestated work (entry_encode entry)"

definition refusal_of_seal :: "work_state \<Rightarrow> seal_refusal \<Rightarrow> refusal" where
  "refusal_of_seal w e =
     (case e of SealUnknownBase \<Rightarrow> UnknownBase (ws_green w) (ws_base w) | SealNotComposed d \<Rightarrow> NotComposed d)"

definition build_increment :: "env \<Rightarrow> shard \<Rightarrow> vid \<Rightarrow> identity32 list \<Rightarrow> refusal + vid \<times> increment" where
  "build_increment ev st work evidence =
     (case bt_get (sh_works st) work of
        None \<Rightarrow> Inl NotFound
      | Some w \<Rightarrow>
          (case seal_increment (ev_blake3 ev) work w (bt_get (sh_greens st) (ws_green w)) evidence of
             Inl e \<Rightarrow> Inl (refusal_of_seal w e)
           | Inr inc \<Rightarrow> Inr (ws_green w, inc)))"

definition reset_accepted_work :: "env \<Rightarrow> vid \<Rightarrow> ver \<Rightarrow> shard \<Rightarrow> shard" where
  "reset_accepted_work ev work version st =
     (case bt_get (sh_works st) work of
        None \<Rightarrow> st
      | Some w \<Rightarrow>
          let w = w\<lparr>ws_base := version, ws_journal := [], ws_files := [], ws_revision := wrapping_succ (ws_revision w)\<rparr>;
              kept = work_footprint (ev_op_size ev) (ws_files w) (ws_journal w)
          in snd (charge_set_to ev work kept (st\<lparr>sh_works := bt_insert work w (sh_works st)\<rparr>)))"

text \<open>\<open>enqueue_record\<close> where the owner is the quorum.\<close>

definition enqueue_record :: "vid \<Rightarrow> ver \<Rightarrow> shard \<Rightarrow> shard" where
  "enqueue_record green version st =
     st\<lparr>sh_placed := bt_insert green (max (unwrap_or (bt_get (sh_placed st) green) version) version) (sh_placed st)\<rparr>"

definition settle_after_conflict :: "env \<Rightarrow> vid \<Rightarrow> identity32 \<Rightarrow> shard \<Rightarrow> shard" where
  "settle_after_conflict ev green increment st =
     (case settle_green_retention ev green st of
        (Inr _, st) \<Rightarrow> st
      | (Inl _, st) \<Rightarrow>
          let st = (case bt_get (sh_greens st) green of
                None \<Rightarrow> st
              | Some g \<Rightarrow> st\<lparr>sh_greens := bt_insert green (snd (forget_rejected increment g)) (sh_greens st)\<rparr>)
          in snd (settle_green_retention ev green st))"

text \<open>What follows an accept: the chain and the log moved, the work reset, the charge settled.\<close>

definition finish_accept :: "env \<Rightarrow> vid \<Rightarrow> vid \<Rightarrow> db_op \<Rightarrow> ver \<Rightarrow> shard \<Rightarrow> reply \<times> shard" where
  "finish_accept ev work green record version st =
     (case (if length (log_of (pt_chains (sh_partition st)) green) < version then db_mutate record st else Inr st) of
        Inl e \<Rightarrow> (Refused (refusal_of_db e), st)
      | Inr st \<Rightarrow>
          (case db_mutate (restatement work (accepted_restatement version)) st of
             Inl e \<Rightarrow> (Refused (refusal_of_db e), st)
           | Inr st \<Rightarrow>
               (Submitted (Some version) [],
                snd (settle_green_retention ev green (enqueue_record green version (reset_accepted_work ev work version st))))))"

definition judge_submit :: "env \<Rightarrow> vid \<Rightarrow> vid \<Rightarrow> increment \<Rightarrow> db_op \<Rightarrow> shard \<Rightarrow> reply \<times> shard" where
  "judge_submit ev work green inc record st =
     (case bt_get (sh_greens st) green of
        None \<Rightarrow> (Refused NotFound, st)
      | Some g \<Rightarrow>
          (case submit inc g of
             (Accepted version, g) \<Rightarrow>
               finish_accept ev work green record version (st\<lparr>sh_greens := bt_insert green g (sh_greens st)\<rparr>)
           | (OutConflict ws, g) \<Rightarrow>
               (Submitted None ws, settle_after_conflict ev green (inc_id inc) (st\<lparr>sh_greens := bt_insert green g (sh_greens st)\<rparr>))))"

definition submit_verb :: "env \<Rightarrow> principal \<Rightarrow> vid \<Rightarrow> identity32 list \<Rightarrow> shard \<Rightarrow> reply \<times> shard" where
  "submit_verb ev who work evidence st =
     (case require_work st who work False of
        Inl r \<Rightarrow> (Refused r, st)
      | Inr over \<Rightarrow>
          if evidence = [] \<and> requires_evidence st over then (Refused EvidenceRequired, st)
          else case build_increment ev st work evidence of
            Inl r \<Rightarrow> (Refused r, st)
          | Inr (green, inc) \<Rightarrow>
              let record = GreenAdvanced green (inc_encode inc);
                  reset = restatement work (accepted_restatement (inc_base inc))
              in case partition_check (sh_partition st) record of
                   Some e \<Rightarrow> (Refused (refusal_of_db e), st)
                 | None \<Rightarrow>
                     (case partition_check (sh_partition st) reset of
                        Some e \<Rightarrow> (Refused (refusal_of_db e), st)
                      | None \<Rightarrow>
                          (case bt_get (sh_greens st) green of
                             None \<Rightarrow> (Refused NotFound, st)
                           | Some g \<Rightarrow>
                               let secured = history_reservation g inc
                               in case settle_green_retention ev green st of
                                    (Inl available, st) \<Rightarrow> (Refused (BudgetExceeded available), st)
                                  | (Inr _, st) \<Rightarrow>
                                      (case secure_green_retention green secured st of
                                         Inl available \<Rightarrow> (Refused (BudgetExceeded available), st)
                                       | Inr st \<Rightarrow> judge_submit ev work green inc record st))))"

section \<open>Rebase\<close>

text \<open>A clean rebase: the restatement checked, the new footprint charged, the work moved.\<close>

definition finish_rebase ::
  "env \<Rightarrow> vid \<Rightarrow> vid \<Rightarrow> ver \<Rightarrow> work_files \<Rightarrow> volume_op list \<Rightarrow> shard \<Rightarrow> reply \<times> shard" where
  "finish_rebase ev work green version changed journal st =
     (let wanted = work_footprint (ev_op_size ev) changed journal;
          p = restatement work (restated version changed journal)
      in case partition_check (sh_partition st) p of
           Some e \<Rightarrow> (Refused (refusal_of_db e), st)
         | None \<Rightarrow>
             let charged_before = (case bt_get (sh_works st) work of None \<Rightarrow> 0 | Some w \<Rightarrow> ws_charged w)
             in case charge_set_to ev work wanted st of
                  (Inl available, st) \<Rightarrow> (Refused (BudgetExceeded available), st)
                | (Inr _, st) \<Rightarrow>
                    (case db_mutate p st of
                       Inl e \<Rightarrow> (Refused (refusal_of_db e), snd (charge_set_to ev work charged_before st))
                     | Inr st \<Rightarrow>
                         let st = (case bt_get (sh_works st) work of
                               None \<Rightarrow> st
                             | Some w \<Rightarrow> st\<lparr>sh_works := bt_insert work
                                 (w\<lparr>ws_files := changed, ws_base := version, ws_journal := journal,
                                    ws_revision := wrapping_succ (ws_revision w)\<rparr>) (sh_works st)\<rparr>)
                         in (RebasedTo (Some version) [], snd (settle_green_retention ev green st))))"

definition rebase_verb :: "env \<Rightarrow> principal \<Rightarrow> vid \<Rightarrow> shard \<Rightarrow> reply \<times> shard" where
  "rebase_verb ev who work st =
     (case require_work st who work False of
        Inl r \<Rightarrow> (Refused r, st)
      | Inr _ \<Rightarrow>
          (case build_increment ev st work [] of
             Inl r \<Rightarrow> (Refused r, st)
           | Inr (green, inc) \<Rightarrow>
               (case bt_get (sh_greens st) green of
                  None \<Rightarrow> (Refused NotFound, st)
                | Some g \<Rightarrow>
                    let (outcome, g) = rebase inc g;
                        st = st\<lparr>sh_greens := bt_insert green g (sh_greens st)\<rparr>
                    in case outcome of
                         RebaseConflict ws \<Rightarrow> (RebasedTo None ws, st)
                       | Rebased version changed journal \<Rightarrow> finish_rebase ev work green version changed journal st)))"

section \<open>Volumes and pins\<close>

text \<open>
  \<open>create_green\<close> and \<open>create_work\<close>. The id is what \<open>fresh_volume_id\<close> minted, if the partition has one
  left; the walk of a base into its origin happens before, and its refusals are its own.
\<close>

definition new_record :: "string \<Rightarrow> role \<Rightarrow> principal \<Rightarrow> volume_record" where
  "new_record name r who =
     \<lparr>vr_name = name, vr_role = r, vr_state = Live, vr_epoch = 0, vr_owner = who, vr_access = []\<rparr>"

definition install_green :: "vid \<Rightarrow> green \<Rightarrow> shard \<Rightarrow> shard" where
  "install_green green engine st =
     enqueue_record green 0
       (st\<lparr>sh_greens := bt_insert green (set_rejected_budget (rejected_cache_budget st) engine) (sh_greens st)\<rparr>)"

definition create_green ::
  "env \<Rightarrow> principal \<Rightarrow> string \<Rightarrow> bool \<Rightarrow> origin option \<Rightarrow> vid option \<Rightarrow> shard \<Rightarrow> reply \<times> shard" where
  "create_green ev who name require_evidence seed fresh st =
     (case volume_by_name (sh_partition st) name of
        Some existing \<Rightarrow> (Refused (AlreadyExists existing), st)
      | None \<Rightarrow>
          (case fresh of
             None \<Rightarrow> (Refused IdsExhausted, st)
           | Some v \<Rightarrow>
               (case db_mutate (VolumeCreated v (new_record name (RGreen require_evidence 0) who)) st of
                  Inl e \<Rightarrow> (Refused (refusal_of_db e), st)
                | Inr st \<Rightarrow>
                    (case seed of
                       None \<Rightarrow> (GreenCreated v, install_green v green_new st)
                     | Some s \<Rightarrow>
                         (case db_mutate (GreenOriginHeld v s) st of
                            Inl e \<Rightarrow> (Refused (refusal_of_db e), st)
                          | Inr st \<Rightarrow> (GreenCreated v, install_green v (with_origin (ev_xof ev) s) st))))))"

definition require_green :: "shard \<Rightarrow> principal \<Rightarrow> vid \<Rightarrow> refusal + volume_record" where
  "require_green st who green =
     rbind (find_record st green) (\<lambda>r.
     case vr_role r of
       RGreen _ _ \<Rightarrow> if may_read (rights_of r who) then Inr r else Inl Forbidden
     | _ \<Rightarrow> Inl NotGreen)"

definition fresh_work :: "vid \<Rightarrow> ver \<Rightarrow> work_state" where
  "fresh_work green base =
     \<lparr>ws_green = green, ws_base = base, ws_journal = [], ws_files = [], ws_revision = 0, ws_charged = 0\<rparr>"

definition create_work :: "principal \<Rightarrow> vid \<Rightarrow> string \<Rightarrow> vid option \<Rightarrow> shard \<Rightarrow> reply \<times> shard" where
  "create_work who green name fresh st =
     (case require_green st who green of
        Inl r \<Rightarrow> (Refused r, st)
      | Inr _ \<Rightarrow>
          (case bt_get (sh_greens st) green of
             None \<Rightarrow> (Refused NotFound, st)
           | Some engine \<Rightarrow>
               (case volume_by_name (sh_partition st) name of
                  Some existing \<Rightarrow> (Refused (AlreadyExists existing), st)
                | None \<Rightarrow>
                    (case fresh of
                       None \<Rightarrow> (Refused IdsExhausted, st)
                     | Some v \<Rightarrow>
                         (case db_mutate (VolumeCreated v (new_record name (RWork green (head engine) False) who)) st of
                            Inl e \<Rightarrow> (Refused (refusal_of_db e), st)
                          | Inr st \<Rightarrow>
                              (WorkCreated v (head engine),
                               st\<lparr>sh_works := bt_insert v (fresh_work green (head engine)) (sh_works st)\<rparr>))))))"

text \<open>\<open>attach_green\<close> pins the head; \<open>forget_attachment\<close> drops a pin.\<close>

definition pin_head :: "nat \<Rightarrow> vid \<Rightarrow> shard \<Rightarrow> shard" where
  "pin_head attachment green st =
     (case bt_get (sh_greens st) green of
        None \<Rightarrow> st
      | Some g \<Rightarrow> st\<lparr>sh_pins := bt_insert attachment (green, head g) (sh_pins st)\<rparr>)"

definition forget_attachment :: "env \<Rightarrow> nat \<Rightarrow> shard \<Rightarrow> shard" where
  "forget_attachment ev attachment st =
     (case bt_get (sh_pins st) attachment of
        None \<Rightarrow> st
      | Some pin \<Rightarrow>
          snd (settle_green_retention ev (fst pin) (st\<lparr>sh_pins := bt_remove attachment (sh_pins st)\<rparr>)))"

text \<open>\<open>advance\<close> of a green attachment, past the checks of its owner: the version and the paths invalidated.\<close>

definition advance :: "env \<Rightarrow> nat \<Rightarrow> ver option \<Rightarrow> shard \<Rightarrow> (refusal + ver \<times> path list) \<times> shard" where
  "advance ev attachment version st =
     (case bt_get (sh_pins st) attachment of
        None \<Rightarrow> (Inl NotGreen, st)
      | Some (green, pinned) \<Rightarrow>
          (case bt_get (sh_greens st) green of
             None \<Rightarrow> (Inl (UnknownBase green (unwrap_or version pinned)), st)
           | Some g \<Rightarrow>
               let target = unwrap_or version (head g)
               in if target > head g \<or> target < g_folded_below g then (Inl (UnknownBase green target), st)
                  else
                    let (from, to) = (if target \<ge> pinned then (pinned, target) else (target, pinned));
                        invalidated = changed_between g from to;
                        st = st\<lparr>sh_pins := bt_insert attachment (green, target) (sh_pins st)\<rparr>
                    in (Inr (target, invalidated), snd (settle_green_retention ev green st))))"

text \<open>
  \<open>destroy_merge_volume\<close>, \<open>None\<close> for a volume outside the merge plane. The attachments of a green are
  its pins; a lease holds no merge state.
\<close>

definition retire_volume :: "env \<Rightarrow> vid \<Rightarrow> shard \<Rightarrow> shard" where
  "retire_volume ev v st =
     (let st = (case bt_get (sh_works st) v of
            None \<Rightarrow> st
          | Some w \<Rightarrow>
              snd (settle_green_retention ev (ws_green w)
                (charge_release (ws_charged w) (st\<lparr>sh_works := bt_remove v (sh_works st)\<rparr>))))
      in case bt_get (sh_greens st) v of
           None \<Rightarrow> st
         | Some _ \<Rightarrow>
             let st = release_green_retention v
                 (st\<lparr>sh_greens := bt_remove v (sh_greens st),
                     sh_pins := filter (\<lambda>(_, pin). fst pin \<noteq> v) (sh_pins st)\<rparr>)
             in st\<lparr>sh_placed := bt_remove v (sh_placed st)\<rparr>)"

definition destroy_merge_volume :: "env \<Rightarrow> principal \<Rightarrow> vid \<Rightarrow> shard \<Rightarrow> reply option \<times> shard" where
  "destroy_merge_volume ev who v st =
     (case bt_get (pt_volumes (sh_partition st)) v of
        None \<Rightarrow> (None, st)
      | Some r \<Rightarrow>
          if vr_role r = RPlain then (None, st)
          else case find_record st v of
            Inl refusal \<Rightarrow> (Some (Refused refusal), st)
          | Inr r \<Rightarrow>
              if \<not> may_admin (rights_of r who) then (Some (Refused Forbidden), st)
              else
                let st = st\<lparr>sh_pins := filter (\<lambda>(_, pin). fst pin \<noteq> v) (sh_pins st)\<rparr>
                in case db_mutate (VolumeStateChanged v Destroying) st of
                     Inl e \<Rightarrow> (Some (Refused (refusal_of_db e)), st)
                   | Inr st \<Rightarrow>
                       (case db_mutate (VolumeDestroyed v) st of
                          Inl e \<Rightarrow> (Some (Refused (refusal_of_db e)), st)
                        | Inr st \<Rightarrow> (Some Destroyed_volume, retire_volume ev v st)))"

end
