(* ===== verification/Service_Reads.thy ===== *)
theory Service_Reads
  imports Merge_Verbs Engine_Props
begin

text \<open>
  What the readers of a green keep: through every verb of the merge plane a version a work is based
  on, or an attachment pins, stays readable and reads the same.
\<close>

section \<open>One green\<close>

text \<open>An identity made over a work's id and a base older than the version, among the inputs hashed in the run.\<close>

definition stamped :: "env \<Rightarrow> byte list set \<Rightarrow> identity32 \<Rightarrow> ver \<Rightarrow> bool" where
  "stamped ev H k v \<longleftrightarrow>
     (\<exists>wk b rest. length wk = 16 \<and> b < 256 ^ 8 \<and> b < v \<and> wk @ le_bytes 8 b @ rest \<in> H
       \<and> k = ev_blake3 ev (wk @ le_bytes 8 b @ rest))"

definition green_sound :: "env \<Rightarrow> byte list set \<Rightarrow> green \<Rightarrow> bool" where
  "green_sound ev H g \<longleftrightarrow> green_ok (ev_xof ev) g \<and> accepted_ok g \<and> g_folded_below g \<le> head g
     \<and> (\<forall>k v. bt_get (g_accepted g) k = Some v \<longrightarrow> stamped ev H k v)"

text \<open>\<open>h\<close> is a later state of \<open>g\<close> that keeps the versions \<open>R\<close>.\<close>

definition later_green :: "env \<Rightarrow> byte list set \<Rightarrow> (ver \<Rightarrow> bool) \<Rightarrow> green \<Rightarrow> green \<Rightarrow> bool" where
  "later_green ev H R g h \<longleftrightarrow> (green_sound ev H g \<longrightarrow> green_sound ev H h) \<and> head g \<le> head h
     \<and> (\<forall>k v. bt_get (g_accepted g) k = Some v \<longrightarrow> bt_get (g_accepted h) k = Some v)
     \<and> (\<forall>w. R w \<and> g_folded_below g \<le> w \<and> w \<le> head g \<longrightarrow>
          g_folded_below h \<le> w \<and> (\<forall>p. content_at h p w = content_at g p w))"

lemma later_green_refl [simp]: "later_green ev H R g g"
  by (simp add: later_green_def)

lemma later_green_trans: "later_green ev H R g h \<Longrightarrow> later_green ev H R h k \<Longrightarrow> later_green ev H R g k"
  by (fastforce simp: later_green_def)

lemma later_green_mono: "later_green ev H R g h \<Longrightarrow> (\<And>w. S w \<Longrightarrow> R w) \<Longrightarrow> later_green ev H S g h"
  by (auto simp: later_green_def)

text \<open>Operations on the cache and the counters only.\<close>

lemma later_green_chain:
  assumes "chain_state h = chain_state g"
  shows "later_green ev H R g h"
proof -
  note c = arg_cong [OF assms]
  have "content_dim h = content_dim g" using c [of content_dim] by simp
  then have "g_content_history h = g_content_history g" by (simp add: content_dim_def)
  then show ?thesis
    using c [of g_folded_below] c [of g_accepted] c [of head] green_ok_chain [OF assms, of "ev_xof ev"]
    by (simp add: later_green_def green_sound_def accepted_ok_def content_at_def)
qed

lemma content_at_dims: "vd_at (content_dim h) w = vd_at (content_dim g) w \<Longrightarrow> content_at h p w = content_at g p w"
  by (drule fun_cong [of _ _ p]) (simp add: content_at_def vd_at_def content_dim_def)

lemma submit_later:
  assumes "green_sound ev H g" "head g < u64_max" "stamped ev H (inc_id inc) (Suc (head g))"
  shows "later_green ev H R g (snd (submit inc g))" "g_folded_below (snd (submit inc g)) = g_folded_below g"
    "submit inc g = (Accepted v, h) \<Longrightarrow> v \<le> head h \<and> (bt_get (g_accepted g) (inc_id inc) = None \<longrightarrow> v = Suc (head g))"
proof (induction rule: submit_cases [of g inc])
  case (retry v')
  { case 1 show ?case by (simp add: retry) }
  { case 2 show ?case by (simp add: retry) }
  { case 3 then show ?case using assms(1) retry by (auto simp: green_sound_def accepted_ok_def) }
next
  case (conflict ws h)
  { case 1 show ?case using later_green_chain [OF conflict(3)] by (simp add: conflict(2)) }
  { case 2 show ?case using arg_cong [OF conflict(3), of g_folded_below] by (simp add: conflict(2)) }
  { case 3 then show ?case by (simp add: conflict(2)) }
next
  case (accept es h')
  have v: "sat_add (head g) 1 = Suc (head g)" using assms(2) by (simp add: sat_add_small)
  note n = arg_cong [OF no_hits_chain [OF accept(4)]]
  have h': "green_ok (ev_xof ev) h'" using green_ok_chain [OF no_hits_chain [OF accept(4)]] assms(1) by (simp add: green_sound_def)
  have hh: "head h' = head g" "g_accepted h' = g_accepted g" "g_folded_below h' = g_folded_below g"
    "content_dim h' = content_dim g"
    using n [of head] n [of g_accepted] n [of g_folded_below] n [of content_dim] by simp_all
  note k = green_ok_commit [OF h', of es, unfolded hh(1)]
  define c where "c = commit es (Suc (head g)) h'"
  let ?c = "c\<lparr>g_accepted := bt_insert (inc_id inc) (Suc (head g)) (g_accepted g)\<rparr>"
  have s: "submit inc g = (Accepted (Suc (head g)), ?c)" using accept(5) [unfolded v] k(3) by (simp add: c_def hh(2))
  have e: "green_ok (ev_xof ev) (x\<lparr>g_accepted := m\<rparr>) = green_ok (ev_xof ev) x" "head (x\<lparr>g_accepted := m\<rparr>) = head x" for x m
    using entries_dims [of "x\<lparr>g_accepted := m\<rparr>" x] by (simp_all add: green_ok_def identity_ok_def dim_defs head_def)
  have r: "content_at ?c p w = content_at g p w" if "w \<le> head g" for p w
  proof (rule content_at_dims)
    have "content_dim ?c = content_dim c" by (simp add: content_dim_def)
    then show "vd_at (content_dim ?c) w = vd_at (content_dim g) w"
      using k(4) that hh(4) by (simp add: same_past_def c_def less_Suc_eq_le)
  qed
  have f: "g_folded_below c = g_folded_below g" using k(11) by (simp add: c_def hh(3))
  have a: "accepted_ok ?c" using assms(1) k(2) by (auto simp: green_sound_def accepted_ok_def e c_def intro: le_SucI)
  { case 1 show ?case using k(1,2) assms(1,3) r f accept(1) a
      by (auto simp: s later_green_def green_sound_def e c_def) }
  { case 2 show ?case by (simp add: s f) }
  { case 3 then show ?case using k(2) by (auto simp: s e c_def) }
qed

lemma content_at_fold: "floor \<le> w \<Longrightarrow> content_at (snd (fold_history_before xof floor g)) p w = content_at g p w"
proof (cases "floor \<le> g_folded_below g")
  case False
  assume "floor \<le> w"
  then show ?thesis using fold_history_fields(1) [of g floor xof] False by (simp add: content_at_def fold_table_reads)
qed (simp add: fold_history_before_def)

lemma fold_later:
  assumes "floor \<le> head g" "green_sound ev H g"
  shows "later_green ev H (\<lambda>w. floor \<le> w) g (snd (fold_budget_loop (ev_xof ev) floor budget released g))"
  using assms
proof (induction "ev_xof ev" floor budget released g rule: fold_budget_loop.induct)
  case (1 floor budget released g)
  let ?n = "sat_add (g_folded_below g) 1"
  let ?f = "snd (fold_history_before (ev_xof ev) ?n g)"
  show ?case
  proof (cases "g_history_bytes g > budget \<and> g_folded_below g < min floor u64_max")
    case True
    then have n: "?n = Suc (g_folded_below g)" "?n \<le> floor" by (simp_all add: sat_add_small)
    note fr = fold_history_frame [of "ev_xof ev" ?n g]
    have s: "green_sound ev H ?f"
      using "1.prems" n fr fold_history_green_ok [of "ev_xof ev" g ?n] folded_below_after [of "ev_xof ev" ?n g]
      by (simp add: green_sound_def accepted_ok_def)
    have "later_green ev H (\<lambda>w. floor \<le> w) g ?f"
      using s fr n content_at_fold folded_below_after [of "ev_xof ev" ?n g] by (auto simp: later_green_def)
    moreover have "later_green ev H (\<lambda>w. floor \<le> w) ?f
        (snd (fold_budget_loop (ev_xof ev) floor budget (sat_add released (fst (fold_history_before (ev_xof ev) ?n g))) ?f))"
      using "1.hyps" [OF True refl refl prod.collapse] "1.prems" fr(3) s by simp
    ultimately show ?thesis
      using True by (subst fold_budget_loop.simps) (auto simp: Let_def case_prod_unfold intro: later_green_trans)
  next
    case False
    then have "fold_budget_loop (ev_xof ev) floor budget released g = (released, g)" by (subst fold_budget_loop.simps) auto
    then show ?thesis by simp
  qed
qed

lemma head_fold_budget: "head (snd (fold_budget_loop xof floor budget released g)) = head g"
proof (induction xof floor budget released g rule: fold_budget_loop.induct)
  case (1 xof floor budget released g)
  then show ?case
    using fold_history_frame(3) [of xof "sat_add (g_folded_below g) 1" g]
    by (subst fold_budget_loop.simps) (auto simp: Let_def case_prod_unfold)
qed

section \<open>The greens of a shard\<close>

definition reader :: "shard \<Rightarrow> vid \<Rightarrow> ver \<Rightarrow> bool" where
  "reader st k w \<longleftrightarrow> w \<in> set (reader_versions st k)"

lemma reader_iff:
  assumes "bt_ok (sh_works st)" "bt_ok (sh_pins st)"
  shows "reader st k w \<longleftrightarrow> (\<exists>v x. bt_get (sh_works st) v = Some x \<and> ws_green x = k \<and> ws_base x = w)
     \<or> (\<exists>a. bt_get (sh_pins st) a = Some (k, w))"
  using assms by (force simp: reader_def reader_versions_def bt_values_def bt_get_in image_iff)

lemma fold_min_start: "fold min vs (v :: nat) \<le> v"
proof (induction vs arbitrary: v)
  case (Cons a vs)
  then have "fold min vs (min a v) \<le> min a v" .
  then show ?case by simp
qed simp

lemma fold_min_mem: "x \<in> set vs \<Longrightarrow> fold min vs (v :: nat) \<le> x"
proof (induction vs arbitrary: v)
  case (Cons a vs)
  then show ?case using fold_min_start [of vs "min a v"] by auto
qed simp

lemma reachable_floor_reader: "reader st k w \<Longrightarrow> reachable_floor st k \<le> w"
  using fold_min_start fold_min_mem by (auto simp: reader_def reachable_floor_def Let_def min_le_iff_disj split: list.split)

lemma reachable_floor_head: "bt_get (sh_greens st) k = Some g \<Longrightarrow> reachable_floor st k \<le> head g"
  by (simp add: reachable_floor_def Let_def)

text \<open>No green comes or goes, and each keeps the versions \<open>R\<close>.\<close>

definition keeps :: "env \<Rightarrow> byte list set \<Rightarrow> (vid \<Rightarrow> ver \<Rightarrow> bool) \<Rightarrow> shard \<Rightarrow> shard \<Rightarrow> bool" where
  "keeps ev H R st st' \<longleftrightarrow> (\<forall>k. rel_option (later_green ev H (R k)) (bt_get (sh_greens st) k) (bt_get (sh_greens st') k))"

definition greens_sound :: "env \<Rightarrow> byte list set \<Rightarrow> shard \<Rightarrow> bool" where
  "greens_sound ev H st \<longleftrightarrow> (\<forall>k g. bt_get (sh_greens st) k = Some g \<longrightarrow> green_sound ev H g)"

lemma keeps_same: "sh_greens st' = sh_greens st \<Longrightarrow> keeps ev H R st st'"
  by (simp add: keeps_def option.rel_refl)

lemma keeps_refl [simp]: "keeps ev H R st st"
  by (rule keeps_same) simp

lemma keeps_trans:
  assumes "keeps ev H R a b" "keeps ev H R b c"
  shows "keeps ev H R a c"
  unfolding keeps_def
proof
  fix k
  have "rel_option (later_green ev H (R k)) (bt_get (sh_greens a) k) (bt_get (sh_greens b) k)"
    "rel_option (later_green ev H (R k)) (bt_get (sh_greens b) k) (bt_get (sh_greens c) k)"
    using assms by (simp_all add: keeps_def)
  then show "rel_option (later_green ev H (R k)) (bt_get (sh_greens a) k) (bt_get (sh_greens c) k)"
    by (cases "bt_get (sh_greens a) k"; cases "bt_get (sh_greens b) k"; cases "bt_get (sh_greens c) k")
      (auto intro: later_green_trans)
qed

lemma keepsD:
  assumes "keeps ev H R st st'" "bt_get (sh_greens st') k = Some g'"
  obtains g where "bt_get (sh_greens st) k = Some g" "later_green ev H (R k) g g'"
proof -
  have "rel_option (later_green ev H (R k)) (bt_get (sh_greens st) k) (Some g')"
    using assms by (metis keeps_def)
  then show ?thesis using that by (cases "bt_get (sh_greens st) k") auto
qed

lemma keeps_mono:
  assumes "keeps ev H R st st'" "\<And>k w. S k w \<Longrightarrow> R k w"
  shows "keeps ev H S st st'"
  unfolding keeps_def
proof
  fix k
  show "rel_option (later_green ev H (S k)) (bt_get (sh_greens st) k) (bt_get (sh_greens st') k)"
    using assms(1) later_green_mono [of ev H "R k" _ _ "S k"] assms(2)
    by (auto simp: keeps_def intro: option.rel_mono_strong)
qed

lemma keeps_greens_sound: "keeps ev H R st st' \<Longrightarrow> greens_sound ev H st \<Longrightarrow> greens_sound ev H st'"
  by (auto simp: greens_sound_def later_green_def elim!: keepsD)

lemma keeps_insert:
  assumes "bt_get (sh_greens st) k = Some g" "later_green ev H (R k) g g'"
  shows "keeps ev H R st (st\<lparr>sh_greens := bt_insert k g' (sh_greens st)\<rparr>)"
  using assms by (simp add: keeps_def option.rel_refl)

section \<open>Settling\<close>

lemma settle_frame [simp]:
  "sh_works (snd (settle_green_retention ev k st)) = sh_works st"
  "sh_pins (snd (settle_green_retention ev k st)) = sh_pins st"
  "sh_partition (snd (settle_green_retention ev k st)) = sh_partition st"
  by (simp_all add: settle_green_retention_def Let_def split: option.split sum.split mem_error.split)

lemma settle_greens:
  "sh_greens (snd (settle_green_retention ev k st)) = (case bt_get (sh_greens st) k of None \<Rightarrow> sh_greens st
     | Some g \<Rightarrow> bt_insert k (snd (fold_history_to_budget (ev_xof ev) (reachable_floor st k) (rejected_cache_budget st) g)) (sh_greens st))"
  by (simp add: settle_green_retention_def Let_def split: option.split sum.split mem_error.split)

lemma settle_heads:
  "map_option head (bt_get (sh_greens (snd (settle_green_retention ev k st))) j) = map_option head (bt_get (sh_greens st) j)"
  by (auto simp: settle_greens fold_history_to_budget_def head_fold_budget split: option.split)

lemma settle_keeps:
  assumes "greens_sound ev H st"
  shows "keeps ev H (reader st) st (snd (settle_green_retention ev k st))"
proof (cases "bt_get (sh_greens st) k")
  case None
  then show ?thesis by (intro keeps_same) (simp add: settle_greens)
next
  case (Some g)
  let ?f = "snd (fold_history_to_budget (ev_xof ev) (reachable_floor st k) (rejected_cache_budget st) g)"
  have "later_green ev H (\<lambda>w. reachable_floor st k \<le> w) g ?f"
    unfolding fold_history_to_budget_def using assms Some reachable_floor_head
    by (intro fold_later) (auto simp: greens_sound_def)
  then have "later_green ev H (reader st k) g ?f" by (rule later_green_mono) (rule reachable_floor_reader)
  from keeps_insert [where R = "reader st", OF Some this]
  have "keeps ev H (reader st) st (st\<lparr>sh_greens := bt_insert k ?f (sh_greens st)\<rparr>)" .
  moreover have "sh_greens (snd (settle_green_retention ev k st)) = bt_insert k ?f (sh_greens st)"
    by (simp add: settle_greens Some)
  ultimately show ?thesis by (simp add: keeps_def)
qed

lemma secure_frame:
  assumes "secure_green_retention k n st = Inr st'"
  shows "sh_works st' = sh_works st" "sh_pins st' = sh_pins st" "sh_partition st' = sh_partition st" "sh_greens st' = sh_greens st"
  using assms by (auto simp: secure_green_retention_def Let_def split: if_splits sum.splits mem_error.splits)

end
