(* ===== verification/Service_Moves.thy ===== *)
theory Service_Moves
  imports Service_Reads
begin

text \<open>
  What each verb does to the works and the greens of a shard: it acts on one work, leaves every
  other work as it was, and keeps the versions the others read.
\<close>

section \<open>Works without their charges\<close>

definition core :: "shard \<Rightarrow> vid \<Rightarrow> work_state option" where
  "core st v = map_option (\<lambda>w. w\<lparr>ws_charged := 0\<rparr>) (bt_get (sh_works st) v)"

definition based :: "shard \<Rightarrow> vid \<Rightarrow> (vid \<times> ver) option" where
  "based st v = map_option (\<lambda>w. (ws_green w, ws_base w)) (bt_get (sh_works st) v)"

lemma based_core: "based st v = map_option (\<lambda>w. (ws_green w, ws_base w)) (core st v)"
  by (simp add: based_def core_def option.map_comp comp_def)

lemma based_eq: "core st' v = core st v \<Longrightarrow> based st' v = based st v"
  by (simp add: based_core)

lemma reader_based:
  assumes "bt_ok (sh_works st)" "bt_ok (sh_pins st)"
  shows "reader st k w \<longleftrightarrow> (\<exists>v. based st v = Some (k, w)) \<or> (\<exists>a. bt_get (sh_pins st) a = Some (k, w))"
  using reader_iff [OF assms] by (auto simp: based_def)

lemma charge_grow_frame [simp]:
  "sh_greens (snd (charge_grow ev work n st)) = sh_greens st" "sh_pins (snd (charge_grow ev work n st)) = sh_pins st"
  "sh_partition (snd (charge_grow ev work n st)) = sh_partition st"
  "sh_retention (snd (charge_grow ev work n st)) = sh_retention st"
  by (simp_all add: charge_grow_def Let_def split: sum.split)

lemma charge_grow_core [simp]: "core (snd (charge_grow ev work n st)) = core st"
  by (rule ext) (simp add: charge_grow_def Let_def core_def split: sum.split option.split)

lemma charge_grow_ok [simp]: "bt_ok (sh_works st) \<Longrightarrow> bt_ok (sh_works (snd (charge_grow ev work n st)))"
  by (simp add: charge_grow_def Let_def split: sum.split option.split)

lemma charge_shrink_frame [simp]:
  "sh_greens (charge_shrink work n st) = sh_greens st" "sh_pins (charge_shrink work n st) = sh_pins st"
  "sh_partition (charge_shrink work n st) = sh_partition st" "sh_retention (charge_shrink work n st) = sh_retention st"
  by (simp_all add: charge_shrink_def Let_def split: option.split)

lemma charge_shrink_core [simp]: "core (charge_shrink work n st) = core st"
  by (rule ext) (simp add: charge_shrink_def Let_def core_def split: option.split)

lemma charge_shrink_ok [simp]: "bt_ok (sh_works st) \<Longrightarrow> bt_ok (sh_works (charge_shrink work n st))"
  by (simp add: charge_shrink_def Let_def split: option.split)

lemma charge_set_to_frame [simp]:
  "sh_greens (snd (charge_set_to ev work n st)) = sh_greens st" "sh_pins (snd (charge_set_to ev work n st)) = sh_pins st"
  "sh_partition (snd (charge_set_to ev work n st)) = sh_partition st"
  "sh_retention (snd (charge_set_to ev work n st)) = sh_retention st"
  "core (snd (charge_set_to ev work n st)) = core st"
  "bt_ok (sh_works st) \<Longrightarrow> bt_ok (sh_works (snd (charge_set_to ev work n st)))"
  by (simp_all add: charge_set_to_def Let_def)

lemma db_mutate_frame:
  assumes "db_mutate p st = Inr st'"
  shows "sh_greens st' = sh_greens st" "sh_pins st' = sh_pins st" "sh_works st' = sh_works st" "sh_budget st' = sh_budget st"
    "sh_retention st' = sh_retention st" "sh_partition st' = partition_apply p (sh_partition st)"
  using assms by (auto simp: db_mutate_def split: option.splits)

lemma core_same: "sh_works st' = sh_works st \<Longrightarrow> core st' = core st"
  by (simp add: core_def fun_eq_iff)

section \<open>A move\<close>

text \<open>The versions the others read.\<close>

definition others_read :: "vid \<Rightarrow> shard \<Rightarrow> vid \<Rightarrow> ver \<Rightarrow> bool" where
  "others_read work st k w \<longleftrightarrow> (\<exists>v. v \<noteq> work \<and> based st v = Some (k, w)) \<or> (\<exists>a. bt_get (sh_pins st) a = Some (k, w))"

definition moves :: "env \<Rightarrow> byte list set \<Rightarrow> vid \<Rightarrow> shard \<Rightarrow> shard \<Rightarrow> bool" where
  "moves ev H work st st' \<longleftrightarrow> bt_ok (sh_works st') \<and> sh_pins st' = sh_pins st \<and> (\<forall>v. v \<noteq> work \<longrightarrow> core st' v = core st v)
     \<and> keeps ev H (others_read work st) st st'
     \<and> (based st' work = based st work \<and> keeps ev H (reader st) st st'
        \<or> (\<exists>k b b'. based st work = Some (k, b) \<and> based st' work = Some (k, b')
             \<and> (\<forall>g. bt_get (sh_greens st') k = Some g \<longrightarrow> g_folded_below g \<le> b' \<and> b' \<le> head g)))"

lemma others_readers:
  assumes "bt_ok (sh_works st)" "bt_ok (sh_pins st)" "others_read work st k w"
  shows "reader st k w"
  using assms by (auto simp: others_read_def reader_based)

text \<open>A change of the work that moves neither a base nor a green.\<close>

lemma moves_in_place:
  assumes "bt_ok (sh_works st')" "sh_greens st' = sh_greens st" "sh_pins st' = sh_pins st"
    "\<And>v. v \<noteq> work \<Longrightarrow> core st' v = core st v" "based st' work = based st work"
  shows "moves ev H work st st'"
  using assms keeps_same by (auto simp: moves_def)

lemma record_work_change_frame:
  assumes "record_work_change ev work added entry st = (r, st')"
  shows "sh_greens st' = sh_greens st" "sh_pins st' = sh_pins st" "core st' = core st"
    "bt_ok (sh_works st) \<Longrightarrow> bt_ok (sh_works st')"
proof -
  obtain q st1 where q: "charge_grow ev work added st = (q, st1)" by fastforce
  note c = charge_grow_frame(1,2,3) [of ev work added st] charge_grow_core [of ev work added st]
    charge_grow_ok [of st ev work added]
  have st1: "sh_greens st1 = sh_greens st" "sh_pins st1 = sh_pins st" "core st1 = core st"
    "bt_ok (sh_works st) \<Longrightarrow> bt_ok (sh_works st1)" using c by (simp_all add: q)
  consider "st' = st" | "st' = st1" | "st' = charge_shrink work added st1" | p where "db_mutate p st1 = Inr st'"
    using assms by (auto simp: record_work_change_def q Let_def split: option.splits sum.splits)
  then have "sh_greens st' = sh_greens st \<and> sh_pins st' = sh_pins st \<and> core st' = core st
      \<and> (bt_ok (sh_works st) \<longrightarrow> bt_ok (sh_works st'))"
  proof cases
    case (4 p)
    note m = db_mutate_frame [OF 4]
    show ?thesis using st1 m core_same [OF m(3)] by simp
  qed (use st1 in simp_all)
  then show "sh_greens st' = sh_greens st" "sh_pins st' = sh_pins st" "core st' = core st"
    "bt_ok (sh_works st) \<Longrightarrow> bt_ok (sh_works st')" by simp_all
qed

lemma finish_change_moves:
  assumes "finish_change work amounts change done st = (r, st')" "bt_ok (sh_works st)"
  shows "sh_greens st' = sh_greens st" "sh_pins st' = sh_pins st" "v \<noteq> work \<Longrightarrow> core st' v = core st v"
    "based st' v = based st v" "bt_ok (sh_works st')"
proof -
  consider "st' = st" | added where "st' = charge_shrink work added st"
    | w fs js n removed where "bt_get (sh_works st) work = Some w"
      "st' = charge_shrink work removed (st\<lparr>sh_works := bt_insert work (w\<lparr>ws_files := fs, ws_journal := js, ws_revision := n\<rparr>) (sh_works st)\<rparr>)"
    using assms(1) by (auto simp: finish_change_def Let_def case_prod_unfold split: option.splits sum.splits)
  then show "sh_greens st' = sh_greens st" "sh_pins st' = sh_pins st" "v \<noteq> work \<Longrightarrow> core st' v = core st v"
    "based st' v = based st v" "bt_ok (sh_works st')"
    using assms(2) by (cases; simp add: based_core; simp add: core_def)+
qed

text \<open>Both verbs record the change, then make it.\<close>

definition changes :: "env \<Rightarrow> vid \<Rightarrow> shard \<Rightarrow> shard \<Rightarrow> bool" where
  "changes ev work st st' \<longleftrightarrow> st' = st
     \<or> (\<exists>added entry r. record_work_change ev work added entry st = (Inl r, st'))
     \<or> (\<exists>added entry st1 amounts change done r. record_work_change ev work added entry st = (Inr (), st1)
          \<and> finish_change work amounts change done st1 = (r, st'))"

lemma changesI:
  "changes ev work st st"
  "record_work_change ev work added entry st = (Inl r, st') \<Longrightarrow> changes ev work st st'"
  "record_work_change ev work added entry st = (Inr u, st1) \<Longrightarrow> finish_change work amounts change done st1 = (r', st') \<Longrightarrow>
     changes ev work st st'"
  unfolding changes_def by (simp, blast, cases u, blast)

lemma edit_changes: "changes ev work st (snd (edit_verb ev who work p at del bytes st))"
proof -
  obtain r st' where e: "edit_verb ev who work p at del bytes st = (r, st')" by fastforce
  then have "changes ev work st st'"
    unfolding edit_verb_def Let_def by (auto split: sum.splits option.splits prod.splits intro: changesI)
  then show ?thesis by (simp add: e)
qed

lemma declare_changes: "changes ev work st (snd (declare_verb ev who work p st))"
proof -
  obtain r st' where e: "declare_verb ev who work p st = (r, st')" by fastforce
  then have "changes ev work st st'"
    unfolding declare_verb_def Let_def by (auto split: sum.splits option.splits prod.splits intro: changesI)
  then show ?thesis by (simp add: e)
qed

lemma changes_moves:
  assumes "changes ev work st st'" "bt_ok (sh_works st)"
  shows "moves ev H work st st'"
  using assms(1) unfolding changes_def
proof (elim disjE exE conjE)
  assume "st' = st"
  then show ?thesis using assms(2) by (intro moves_in_place) simp_all
next
  fix added entry r assume "record_work_change ev work added entry st = (Inl r, st')"
  note f = record_work_change_frame [OF this]
  show ?thesis using f assms(2) by (intro moves_in_place) (simp_all add: based_core)
next
  fix added entry st1 amounts change answer r
  assume r: "record_work_change ev work added entry st = (Inr (), st1)" and c: "finish_change work amounts change answer st1 = (r, st')"
  note f = record_work_change_frame [OF r]
  note g = finish_change_moves [OF c f(4) [OF assms(2)]]
  have "based st1 = based st" using f(3) by (simp add: based_core fun_eq_iff)
  then show ?thesis using f g by (intro moves_in_place) simp_all
qed

lemmas edit_moves = changes_moves [OF edit_changes]
lemmas declare_moves = changes_moves [OF declare_changes]

section \<open>The invariant of the readers\<close>

definition readers_ok :: "shard \<Rightarrow> bool" where
  "readers_ok st \<longleftrightarrow> (\<forall>k g w. bt_get (sh_greens st) k = Some g \<and> reader st k w \<longrightarrow> g_folded_below g \<le> w \<and> w \<le> head g)"

definition shard_inv :: "env \<Rightarrow> byte list set \<Rightarrow> shard \<Rightarrow> bool" where
  "shard_inv ev H st \<longleftrightarrow> bt_ok (sh_works st) \<and> bt_ok (sh_pins st) \<and> greens_sound ev H st \<and> readers_ok st
     \<and> (\<forall>v w. bt_get (sh_works st) v = Some w \<longrightarrow> length v = 16)"

text \<open>A version number is a word of 64 bits.\<close>

definition heads_fit :: "shard \<Rightarrow> bool" where
  "heads_fit st \<longleftrightarrow> (\<forall>k g. bt_get (sh_greens st) k = Some g \<longrightarrow> head g < u64_max)"

lemma heads_fit_same:
  assumes "\<And>k. map_option head (bt_get (sh_greens st') k) = map_option head (bt_get (sh_greens st) k)" "heads_fit st"
  shows "heads_fit st'"
  unfolding heads_fit_def
proof (intro allI impI)
  fix k g assume "bt_get (sh_greens st') k = Some g"
  then obtain h where "bt_get (sh_greens st) k = Some h" "head h = head g"
    using assms(1) [of k] by (cases "bt_get (sh_greens st) k") auto
  then show "head g < u64_max" using assms(2) by (fastforce simp: heads_fit_def)
qed

lemma keeps_version:
  assumes "keeps ev H R st st'" "bt_get (sh_greens st') k = Some g'" "R k w"
    and "\<And>g. bt_get (sh_greens st) k = Some g \<Longrightarrow> g_folded_below g \<le> w \<and> w \<le> head g"
  shows "g_folded_below g' \<le> w" "w \<le> head g'"
proof -
  obtain g where g: "bt_get (sh_greens st) k = Some g" "later_green ev H (R k) g g'" by (rule keepsD [OF assms(1,2)])
  show "g_folded_below g' \<le> w" "w \<le> head g'"
    using g assms(3) assms(4) [OF g(1)] by (auto simp: later_green_def)
qed

lemma based_work_ids: "based st v = None \<longleftrightarrow> bt_get (sh_works st) v = None"
  by (simp add: based_def)

lemma moves_inv:
  assumes "shard_inv ev H st" "moves ev H work st st'"
  shows "shard_inv ev H st'"
proof -
  have ok: "bt_ok (sh_works st)" "bt_ok (sh_pins st)" "greens_sound ev H st" "readers_ok st" using assms(1) by (simp_all add: shard_inv_def)
  have ok': "bt_ok (sh_works st')" "sh_pins st' = sh_pins st" "keeps ev H (others_read work st) st st'"
    and same: "v \<noteq> work \<Longrightarrow> core st' v = core st v" for v
    using assms(2) by (simp_all add: moves_def)
  have oth: "based st' v = based st v" if "v \<noteq> work" for v by (rule based_eq [OF same [OF that]])
  have self: "based st' work = based st work \<and> keeps ev H (reader st) st st'
      \<or> (\<exists>k b b'. based st work = Some (k, b) \<and> based st' work = Some (k, b')
           \<and> (\<forall>g. bt_get (sh_greens st') k = Some g \<longrightarrow> g_folded_below g \<le> b' \<and> b' \<le> head g))"
    using assms(2) by (simp add: moves_def)
  have r: "g_folded_below g \<le> w \<and> w \<le> head g" if "bt_get (sh_greens st) k = Some g" "reader st k w" for k g w
    using ok(4) that by (auto simp: readers_ok_def)
  have "readers_ok st'"
    unfolding readers_ok_def
  proof (intro allI impI, elim conjE)
    fix k g' w assume g': "bt_get (sh_greens st') k = Some g'" and w: "reader st' k w"
    from w have "(\<exists>v. based st' v = Some (k, w)) \<or> (\<exists>a. bt_get (sh_pins st) a = Some (k, w))"
      using ok' ok(2) by (simp add: reader_based)
    then have "others_read work st k w \<or> based st' work = Some (k, w)"
      using oth unfolding others_read_def by metis
    then show "g_folded_below g' \<le> w \<and> w \<le> head g'"
    proof
      assume o: "others_read work st k w"
      from keeps_version [OF ok'(3) g' o] r others_readers [OF ok(1,2) o] show ?thesis by blast
    next
      assume b: "based st' work = Some (k, w)"
      from self show ?thesis
      proof (elim disjE exE conjE)
        assume s: "based st' work = based st work" "keeps ev H (reader st) st st'"
        then have "reader st k w" using b ok by (auto simp: reader_based)
        from keeps_version [OF s(2) g' this] r this show ?thesis by blast
      qed (use b g' in auto)
    qed
  qed
  moreover have "length v = 16" if "bt_get (sh_works st') v = Some x" for v x
  proof -
    have "based st' v \<noteq> None" using that by (simp add: based_work_ids)
    then have "based st v \<noteq> None" using self oth by (cases "v = work") auto
    then show ?thesis using assms(1) by (auto simp: based_work_ids shard_inv_def)
  qed
  ultimately show ?thesis
    using ok ok' keeps_greens_sound [OF ok'(3) ok(3)] by (auto simp: shard_inv_def)
qed

section \<open>Rebase\<close>

lemma rebase_result:
  assumes "rebase inc g = (r, g')"
  shows "g' = g" "r = Rebased v c j \<Longrightarrow> v = head g"
  using assms rebase_green [of inc g]
  by (auto simp: rebase_def rebased_from_def Let_def split: prod.splits sum.splits)

lemma keeps_put_same:
  "bt_get (sh_greens st) k = Some g \<Longrightarrow> sh_greens st' = bt_insert k g (sh_greens st) \<Longrightarrow> keeps ev H R st st'"
  by (auto simp: keeps_def option.rel_refl)

text \<open>The last step of a verb that moves a base: the works are set, then the green is settled.\<close>

lemma settle_moves:
  assumes inv: "shard_inv ev H st" and k: "based st work = Some (k, b)"
    and st1: "keeps ev H (others_read work st) st st1" "sh_pins st1 = sh_pins st" "bt_ok (sh_works st1)"
      "\<And>v. v \<noteq> work \<Longrightarrow> core st1 v = core st v" "based st1 work = Some (k, b')"
    and b': "\<And>g. bt_get (sh_greens st1) k = Some g \<Longrightarrow> g_folded_below g \<le> b' \<and> b' \<le> head g"
  shows "moves ev H work st (snd (settle_green_retention ev k' st1))"
proof -
  let ?s = "snd (settle_green_retention ev k' st1)"
  have ok: "bt_ok (sh_works st)" "bt_ok (sh_pins st)" "greens_sound ev H st" using inv by (simp_all add: shard_inv_def)
  have s: "keeps ev H (reader st1) st1 ?s" by (rule settle_keeps [OF keeps_greens_sound [OF st1(1) ok(3)]])
  have c: "core ?s = core st1" by (rule core_same) simp
  have o: "reader st1 j w" if "others_read work st j w" for j w
    using that based_eq [OF st1(4)] st1(2,3) ok(2) unfolding others_read_def reader_based [OF st1(3) ok(2) [folded st1(2)]]
    by metis
  have "reader st1 k b'" using st1 ok(2) by (auto simp: reader_based)
  from keeps_version [OF s _ this] b'
  have "g_folded_below g \<le> b' \<and> b' \<le> head g" if "bt_get (sh_greens ?s) k = Some g" for g using that by blast
  moreover have "keeps ev H (others_read work st) st ?s" using st1(1) keeps_mono [OF s o] keeps_trans by blast
  ultimately show ?thesis using st1 k c by (auto simp: moves_def based_core)
qed

lemma build_based:
  assumes "build_increment ev st work evidence = Inr (k, inc)"
  obtains w where "bt_get (sh_works st) work = Some w" "k = ws_green w" "inc_base inc = ws_base w"
    "inc_id inc = ev_blake3 ev (work @ le_bytes 8 (ws_base w) @ encode (inc_doc inc) @ inc_post inc)"
    "based st work = Some (k, ws_base w)"
  using assms
  by (auto simp: build_increment_def seal_increment_def based_def Let_def split: option.splits sum.splits if_splits)

text \<open>A verb that leaves the bases where they are.\<close>

lemma moves_still:
  assumes "shard_inv ev H st" "keeps ev H (reader st) st st'" "sh_pins st' = sh_pins st" "bt_ok (sh_works st')" "core st' = core st"
  shows "moves ev H work st st'"
proof -
  have "bt_ok (sh_works st)" "bt_ok (sh_pins st)" using assms(1) by (simp_all add: shard_inv_def)
  then show ?thesis using assms keeps_mono [OF assms(2) others_readers] by (simp add: moves_def based_core)
qed

lemma finish_rebase_moves:
  assumes inv: "shard_inv ev H st" and k: "based st work = Some (k, b)" and g: "bt_get (sh_greens st) k = Some g"
  shows "moves ev H work st (snd (finish_rebase ev work k (head g) changed journal st))"
proof -
  have ok: "bt_ok (sh_works st)" "bt_ok (sh_pins st)" "green_sound ev H g"
    using inv g by (simp_all add: shard_inv_def greens_sound_def)
  obtain q st1 where q: "charge_set_to ev work (work_footprint (ev_op_size ev) changed journal) st = (q, st1)" by fastforce
  note c = charge_set_to_frame [where ev = ev and work = work and n = "work_footprint (ev_op_size ev) changed journal" and st = st,
      unfolded q snd_conv]
  let ?p = "restatement work (restated (head g) changed journal)"
  let ?r = "finish_rebase ev work k (head g) changed journal st"
  note still = moves_still [OF inv keeps_same]
  show ?thesis
  proof (cases "partition_check (sh_partition st) ?p")
    case (Some e)
    then show ?thesis using still ok by (simp add: finish_rebase_def)
  next
    case None
    show ?thesis
    proof (cases q)
      case (Inl n)
      then show ?thesis using still c ok by (simp add: finish_rebase_def None q)
    next
      case (Inr u)
      have m: "db_mutate ?p st1 = Inr (st1\<lparr>sh_partition := partition_apply ?p (sh_partition st1)\<rparr>)"
        using None c(3) by (simp add: db_mutate_def)
      have "based st1 work = Some (k, b)" using k based_eq [of st1 work st] c(5) by simp
      then obtain x where x: "bt_get (sh_works st1) work = Some x" and bx: "ws_green x = k" by (auto simp: based_def)
      define st2 where "st2 = st1\<lparr>sh_partition := partition_apply ?p (sh_partition st1),
          sh_works := bt_insert work (x\<lparr>ws_files := changed, ws_base := head g, ws_journal := journal,
            ws_revision := wrapping_succ (ws_revision x)\<rparr>) (sh_works st1)\<rparr>"
      have s: "snd ?r = snd (settle_green_retention ev k st2)"
        by (simp add: finish_rebase_def None q Inr m x st2_def)
      have "moves ev H work st (snd (settle_green_retention ev k st2))"
      proof (rule settle_moves [OF inv k])
        show "keeps ev H (others_read work st) st st2" by (rule keeps_same) (simp add: st2_def c(1))
        show "sh_pins st2 = sh_pins st" "bt_ok (sh_works st2)" using c ok by (simp_all add: st2_def)
        show "core st2 v = core st v" if "v \<noteq> work" for v using that c(5) by (simp add: st2_def core_def fun_eq_iff)
        show "based st2 work = Some (k, head g)" by (simp add: based_def st2_def bx)
        show "g_folded_below h \<le> head g \<and> head g \<le> head h" if "bt_get (sh_greens st2) k = Some h" for h
          using that g c(1) ok(3) by (simp add: st2_def green_sound_def)
      qed
      then show ?thesis by (simp add: s)
    qed
  qed
qed

lemma moves_first:
  assumes "sh_greens st1 = bt_insert k g (sh_greens st)" "bt_get (sh_greens st) k = Some g" "sh_works st1 = sh_works st"
    "sh_pins st1 = sh_pins st"
  shows "shard_inv ev H st1 = shard_inv ev H st" "moves ev H work st1 st2 = moves ev H work st st2"
proof -
  have g: "bt_get (sh_greens st1) j = bt_get (sh_greens st) j" for j using assms(1,2) by simp
  have r: "reader st1 = reader st" "core st1 = core st" "based st1 = based st" "others_read work st1 = others_read work st"
    using assms by (simp_all add: fun_eq_iff reader_def reader_versions_def core_def based_def others_read_def)
  show "shard_inv ev H st1 = shard_inv ev H st" "moves ev H work st1 st2 = moves ev H work st st2"
    by (simp_all add: shard_inv_def moves_def greens_sound_def readers_ok_def keeps_def g r assms(3,4))
qed

lemma rebase_moves:
  assumes inv: "shard_inv ev H st"
  shows "moves ev H work st (snd (rebase_verb ev who work st))"
proof (cases "\<exists>k inc g. require_work st who work False \<noteq> Inl (projl (require_work st who work False))
    \<and> build_increment ev st work [] = Inr (k, inc) \<and> bt_get (sh_greens st) k = Some g")
  case False
  then have "snd (rebase_verb ev who work st) = st"
    by (auto simp: rebase_verb_def split: sum.splits option.splits)
  then show ?thesis using moves_still [OF inv] inv by (simp add: shard_inv_def)
next
  case True
  then obtain k inc g where t: "build_increment ev st work [] = Inr (k, inc)" "bt_get (sh_greens st) k = Some g"
    and req: "\<exists>x. require_work st who work False = Inr x"
    by (cases "require_work st who work False") auto
  obtain b where w: "based st work = Some (k, b)" using build_based [OF t(1)] by blast
  obtain out h where "rebase inc g = (out, h)" by fastforce
  then have out: "rebase inc g = (out, g)" using rebase_result(1) by simp
  define st1 where "st1 = st\<lparr>sh_greens := bt_insert k g (sh_greens st)\<rparr>"
  have st1: "shard_inv ev H st1" "moves ev H work st1 x = moves ev H work st x" "based st1 work = Some (k, b)"
    "bt_get (sh_greens st1) k = Some g" for x
    using moves_first [of st1 k g st] t(2) inv w by (simp_all add: st1_def based_def)
  show ?thesis
  proof (cases out)
    case (RebaseConflict ws)
    then have "snd (rebase_verb ev who work st) = st1" using req by (auto simp: rebase_verb_def t out st1_def)
    then show ?thesis using moves_still [OF st1(1), of st1 work] st1 by (simp add: shard_inv_def)
  next
    case (Rebased v c j)
    then have "snd (rebase_verb ev who work st) = snd (finish_rebase ev work k (head g) c j st1)"
      using req rebase_result(2) [OF out] by (auto simp: rebase_verb_def t out st1_def)
    then show ?thesis using finish_rebase_moves [OF st1(1,3,4)] st1(2) by simp
  qed
qed

section \<open>Submit\<close>

text \<open>A first step that keeps the works where they are and every version read.\<close>

lemma moves_after:
  assumes "keeps ev H (reader st) st st1" "sh_works st1 = sh_works st" "sh_pins st1 = sh_pins st" "bt_ok (sh_works st)"
    "bt_ok (sh_pins st)" "moves ev H work st1 st2"
  shows "moves ev H work st st2"
proof -
  have r: "reader st1 = reader st" "core st1 = core st" "based st1 = based st" "others_read work st1 = others_read work st"
    using assms(2,3) by (simp_all add: fun_eq_iff reader_def reader_versions_def core_def based_def others_read_def)
  have "keeps ev H (others_read work st) st st1" by (rule keeps_mono [OF assms(1)]) (rule others_readers [OF assms(4,5)])
  then show ?thesis
    using assms(6) keeps_trans [OF assms(1)] keeps_trans [of ev H "others_read work st" st st1 st2]
    by (auto simp: moves_def r assms(3))
qed

lemma forget_rejected_chain: "chain_state (snd (forget_rejected i g)) = chain_state g"
  by (simp add: forget_rejected_def chain_state_def Let_def split: option.split)

lemma settle_after_conflict_keeps:
  assumes "greens_sound ev H st"
  shows "keeps ev H (reader st) st (settle_after_conflict ev k i st)"
    "sh_works (settle_after_conflict ev k i st) = sh_works st" "sh_pins (settle_after_conflict ev k i st) = sh_pins st"
proof -
  obtain q st1 where q: "settle_green_retention ev k st = (q, st1)" by fastforce
  have s: "keeps ev H (reader st) st st1" "sh_works st1 = sh_works st" "sh_pins st1 = sh_pins st"
    using settle_keeps [OF assms, of k] settle_frame(1,2) [of ev k st] by (simp_all add: q)
  have r: "reader x = reader st" if "sh_works x = sh_works st" "sh_pins x = sh_pins st" for x
    using that by (simp add: fun_eq_iff reader_def reader_versions_def)
  define st2 where "st2 = (case bt_get (sh_greens st1) k of None \<Rightarrow> st1
      | Some g \<Rightarrow> st1\<lparr>sh_greens := bt_insert k (snd (forget_rejected i g)) (sh_greens st1)\<rparr>)"
  have f: "keeps ev H (reader st) st1 st2" "sh_works st2 = sh_works st" "sh_pins st2 = sh_pins st"
    using s keeps_insert [OF _ later_green_chain [OF forget_rejected_chain]] by (auto simp: st2_def split: option.split)
  note f1 = keeps_trans [OF s(1) f(1)]
  have "keeps ev H (reader st) st2 (snd (settle_green_retention ev k st2))"
    using settle_keeps [OF keeps_greens_sound [OF f1 assms], of k] r [OF f(2,3)] by simp
  from keeps_trans [OF f1 this] s f
  show "keeps ev H (reader st) st (settle_after_conflict ev k i st)"
    "sh_works (settle_after_conflict ev k i st) = sh_works st" "sh_pins (settle_after_conflict ev k i st) = sh_pins st"
    by (simp_all add: settle_after_conflict_def q st2_def [symmetric] Let_def split: sum.split)
qed

lemma reset_frame:
  assumes "bt_get (sh_works st) work = Some w"
  shows "sh_greens (reset_accepted_work ev work v st) = sh_greens st" "sh_pins (reset_accepted_work ev work v st) = sh_pins st"
    "based (reset_accepted_work ev work v st) work = Some (ws_green w, v)"
    "u \<noteq> work \<Longrightarrow> core (reset_accepted_work ev work v st) u = core st u"
    "bt_ok (sh_works st) \<Longrightarrow> bt_ok (sh_works (reset_accepted_work ev work v st))"
  using assms by (simp_all add: reset_accepted_work_def Let_def based_core) (simp_all add: core_def)

lemma finish_accept_moves:
  assumes inv: "shard_inv ev H st" and k: "based st work = Some (k, b)"
    and s: "keeps ev H (reader st) st s" "sh_works s = sh_works st" "sh_pins s = sh_pins st"
    and v: "\<And>g. bt_get (sh_greens s) k = Some g \<Longrightarrow> g_folded_below g \<le> v \<and> v \<le> head g"
  shows "moves ev H work st (snd (finish_accept ev work k record v s))"
proof -
  have ok: "bt_ok (sh_works st)" "bt_ok (sh_pins st)" using inv by (simp_all add: shard_inv_def)
  define same where "same x \<longleftrightarrow> sh_greens x = sh_greens s \<and> sh_works x = sh_works st \<and> sh_pins x = sh_pins st" for x :: shard
  have keep: "keeps ev H (reader st) st x" "moves ev H work st x" if "same x" for x
  proof -
    show kx: "keeps ev H (reader st) st x" using keeps_trans [OF s(1) keeps_same] that by (simp add: same_def)
    show "moves ev H work st x" using that ok by (intro moves_still [OF inv kx] core_same) (simp_all add: same_def)
  qed
  have db: "same y" if "db_mutate p x = Inr y" "same x" for p x y using db_mutate_frame [OF that(1)] that(2) by (simp add: same_def)
  let ?r = "finish_accept ev work k record v s"
  have "same s" using s by (simp add: same_def)
  then have "same (snd ?r)
      \<or> (\<exists>x. same x \<and> snd ?r = snd (settle_green_retention ev k (enqueue_record k v (reset_accepted_work ev work v x))))"
    unfolding finish_accept_def by (auto split: sum.split dest!: db)
  then consider "same (snd ?r)" | x where "same x"
      "snd ?r = snd (settle_green_retention ev k (enqueue_record k v (reset_accepted_work ev work v x)))" by blast
  then show ?thesis
  proof cases
    case 1
    then show ?thesis by (rule keep(2))
  next
    case (2 x)
    obtain w where w: "bt_get (sh_works x) work = Some w" "ws_green w = k" using k 2(1) by (auto simp: based_def same_def)
    note f = reset_frame [OF w(1), where ev = ev and v = v]
    have e: "sh_greens (enqueue_record k v y) = sh_greens y" "sh_pins (enqueue_record k v y) = sh_pins y"
      "sh_works (enqueue_record k v y) = sh_works y" "core (enqueue_record k v y) = core y" "based (enqueue_record k v y) = based y" for y
      by (simp_all add: enqueue_record_def core_def based_def fun_eq_iff)
    have "keeps ev H (others_read work st) st (enqueue_record k v (reset_accepted_work ev work v x))"
      using keeps_mono [OF keeps_trans [OF keep(1) [OF 2(1)] keeps_same] others_readers [OF ok]] f(1) by (simp add: e)
    moreover have "core x = core st" using 2(1) by (intro core_same) (simp add: same_def)
    ultimately show ?thesis unfolding 2(2) using f ok 2(1) w(2) v by (intro settle_moves [OF inv k]) (simp_all add: e same_def)
  qed
qed

text \<open>An accepted version, new or remembered, is past the base of the increment.\<close>

lemma accepted_after_base:
  assumes "green_sound ev H g" "head g < u64_max" "inj_on (ev_blake3 ev) H" "length work = 16" "b \<le> head g"
    and i: "inc_id inc = ev_blake3 ev (work @ le_bytes 8 b @ rest)" "work @ le_bytes 8 b @ rest \<in> H"
    and s: "submit inc g = (Accepted v, h)"
  shows "b < v" "v \<le> head h"
proof -
  have b8: "b < 256 ^ 8" using assms(2,5) by (simp add: u64_max_def)
  have st: "stamped ev H (inc_id inc) (Suc (head g))"
    unfolding stamped_def using assms(4,5) b8 i by (intro exI [of _ work] exI [of _ b] exI [of _ rest]) simp
  note l = submit_later(3) [OF assms(1,2) st s]
  then show "v \<le> head h" by simp
  show "b < v"
  proof (cases "bt_get (g_accepted g) (inc_id inc)")
    case None
    then show ?thesis using l assms(5) by simp
  next
    case (Some u)
    then have "u = v" using s by (simp add: submit_def)
    have "stamped ev H (inc_id inc) u" using assms(1) Some by (simp add: green_sound_def)
    then obtain wk b' r where r: "length wk = 16" "b' < 256 ^ 8" "b' < u" "inc_id inc = ev_blake3 ev (wk @ le_bytes 8 b' @ r)"
      "wk @ le_bytes 8 b' @ r \<in> H" by (auto simp: stamped_def)
    have "wk @ le_bytes 8 b' @ r = work @ le_bytes 8 b @ rest" using inj_onD [OF assms(3)] i r(4,5) by metis
    then have "le_bytes 8 b' = le_bytes 8 b" using r(1) assms(4) by (simp add: append_eq_append_conv)
    then have "b' = b" using from_le_le_bytes_small [of b' 8] from_le_le_bytes_small [of b 8] r(2) b8 by simp
    then show ?thesis using r(3) \<open>u = v\<close> by simp
  qed
qed

lemma judge_submit_moves:
  assumes inv: "shard_inv ev H st" and fit: "heads_fit st" and inj: "inj_on (ev_blake3 ev) H" and k: "based st work = Some (k, b)"
    and i: "inc_id inc = ev_blake3 ev (work @ le_bytes 8 b @ rest)" "work @ le_bytes 8 b @ rest \<in> H"
  shows "moves ev H work st (snd (judge_submit ev work k inc record st))"
proof (cases "bt_get (sh_greens st) k")
  case None
  then show ?thesis using moves_still [OF inv, of st work] inv by (simp add: judge_submit_def shard_inv_def)
next
  case (Some g)
  have ok: "bt_ok (sh_works st)" "bt_ok (sh_pins st)" "greens_sound ev H st" "green_sound ev H g" "head g < u64_max"
    using inv fit Some by (auto simp: shard_inv_def heads_fit_def greens_sound_def)
  have "reader st k b" using k ok by (auto simp: reader_based)
  then have b: "g_folded_below g \<le> b" "b \<le> head g" using inv Some by (auto simp: shard_inv_def readers_ok_def)
  have len: "length work = 16" using inv k by (auto simp: based_def shard_inv_def)
  have st: "stamped ev H (inc_id inc) (Suc (head g))"
    unfolding stamped_def using len b(2) ok(5) i
    by (intro exI [of _ work] exI [of _ b] exI [of _ rest]) (simp add: u64_max_def)
  obtain out h where h: "submit inc g = (out, h)" by fastforce
  note l = submit_later [OF ok(4,5) st, unfolded h snd_conv]
  define s where "s = st\<lparr>sh_greens := bt_insert k h (sh_greens st)\<rparr>"
  have s: "keeps ev H (reader st) st s" "sh_works s = sh_works st" "sh_pins s = sh_pins st"
    using keeps_insert [of st k g ev H "reader st" h, OF Some l(1)] by (simp_all add: s_def)
  have r: "reader s = reader st" using s by (simp add: fun_eq_iff reader_def reader_versions_def)
  show ?thesis
  proof (cases out)
    case (Accepted v)
    have "b < v" "v \<le> head h" using accepted_after_base [OF ok(4,5) inj len b(2) i] h Accepted by simp_all
    then have "moves ev H work st (snd (finish_accept ev work k record v s))"
      using l(2) b(1) by (intro finish_accept_moves [OF inv k s]) (auto simp: s_def)
    then show ?thesis by (simp add: judge_submit_def Some h Accepted s_def)
  next
    case (OutConflict ws)
    note c = settle_after_conflict_keeps [OF keeps_greens_sound [OF s(1) ok(3)], of k "inc_id inc"]
    have "moves ev H work st (settle_after_conflict ev k (inc_id inc) s)"
      using c s r ok by (intro moves_still [OF inv] core_same) (auto intro: keeps_trans)
    then show ?thesis by (simp add: judge_submit_def Some h OutConflict s_def)
  qed
qed

lemma submit_stages:
  assumes "submit_verb ev who work evidence st = (r, st')"
  obtains "st' = st" | k where "st' = snd (settle_green_retention ev k st)"
    | k inc n st2 g where "build_increment ev st work evidence = Inr (k, inc)"
      "secure_green_retention k n (snd (settle_green_retention ev k st)) = Inr st2"
      "judge_submit ev work k inc (GreenAdvanced k (inc_encode inc)) st2 = (r, st')"
      "partition_check (sh_partition st) (GreenAdvanced k (inc_encode inc)) = None"
      "bt_get (sh_greens st) k = Some g" "n = history_reservation g inc" "fst (settle_green_retention ev k st) = Inr ()"
proof (cases "\<exists>k inc. build_increment ev st work evidence = Inr (k, inc)")
  case False
  then have "st' = st" using assms unfolding submit_verb_def Let_def by (auto split: sum.splits if_splits)
  then show ?thesis by (rule that(1))
next
  case True
  then obtain k inc where b: "build_increment ev st work evidence = Inr (k, inc)" by blast
  obtain q st1 where q: "settle_green_retention ev k st = (q, st1)" by fastforce
  have "st' = st \<or> st' = st1 \<or> (\<exists>st2 g. secure_green_retention k (history_reservation g inc) st1 = Inr st2
      \<and> judge_submit ev work k inc (GreenAdvanced k (inc_encode inc)) st2 = (r, st')
      \<and> partition_check (sh_partition st) (GreenAdvanced k (inc_encode inc)) = None
      \<and> bt_get (sh_greens st) k = Some g \<and> q = Inr ())"
    using assms by (auto simp: submit_verb_def Let_def b q simp del: partition_check.simps split: sum.splits if_splits option.splits)
  then show ?thesis using that(1) that(2) [of k] that(3) [OF b] q by auto
qed

text \<open>The input hashed for a work's increment.\<close>

definition sealed_input :: "env \<Rightarrow> shard \<Rightarrow> vid \<Rightarrow> identity32 list \<Rightarrow> byte list set" where
  "sealed_input ev st work evidence =
     (case build_increment ev st work evidence of
        Inl _ \<Rightarrow> {}
      | Inr (_, inc) \<Rightarrow> {work @ le_bytes 8 (inc_base inc) @ encode (inc_doc inc) @ inc_post inc})"

lemma submit_moves:
  assumes inv: "shard_inv ev H st" and fit: "heads_fit st" and inj: "inj_on (ev_blake3 ev) H"
    and h: "sealed_input ev st work evidence \<subseteq> H"
  shows "moves ev H work st (snd (submit_verb ev who work evidence st))"
proof -
  obtain r st' where e: "submit_verb ev who work evidence st = (r, st')" by fastforce
  have ok: "bt_ok (sh_works st)" "bt_ok (sh_pins st)" "greens_sound ev H st" using inv by (simp_all add: shard_inv_def)
  from submit_stages [OF e] have "moves ev H work st st'"
  proof cases
    case 1
    then show ?thesis using moves_still [OF inv, of st work] ok by simp
  next
    case (2 k)
    show ?thesis unfolding 2 using settle_keeps [OF ok(3)] ok by (intro moves_still [OF inv] core_same) simp_all
  next
    case (3 k inc n st2)
    note f = secure_frame [OF 3(2)]
    obtain w where w: "bt_get (sh_works st) work = Some w" "k = ws_green w"
      "inc_id inc = ev_blake3 ev (work @ le_bytes 8 (ws_base w) @ encode (inc_doc inc) @ inc_post inc)"
      "work @ le_bytes 8 (ws_base w) @ encode (inc_doc inc) @ inc_post inc \<in> H"
    proof (rule build_based [OF 3(1)])
      fix w assume "bt_get (sh_works st) work = Some w" "k = ws_green w" "inc_base inc = ws_base w"
        "inc_id inc = ev_blake3 ev (work @ le_bytes 8 (ws_base w) @ encode (inc_doc inc) @ inc_post inc)"
      then show thesis using h by (intro that [of w]) (simp_all add: sealed_input_def 3(1))
    qed
    have s: "keeps ev H (reader st) st st2" "sh_works st2 = sh_works st" "sh_pins st2 = sh_pins st"
      using keeps_trans [OF settle_keeps [OF ok(3)] keeps_same] f by simp_all
    have m: "moves ev H work st st2" using s ok by (intro moves_still [OF inv] core_same) simp_all
    have "map_option head (bt_get (sh_greens st2) j) = map_option head (bt_get (sh_greens st) j)" for j
      using settle_heads [of ev k st] f(4) by simp
    from heads_fit_same [OF this fit] have fit2: "heads_fit st2" .
    have b2: "based st2 work = Some (k, ws_base w)" using w s(2) by (simp add: based_def)
    have "st' = snd (judge_submit ev work k inc (GreenAdvanced k (inc_encode inc)) st2)" using 3(3) by simp
    then show ?thesis
      using moves_after [OF s ok(1,2) judge_submit_moves [OF moves_inv [OF inv m] fit2 inj b2 w(3,4)]] by simp
  qed
  then show ?thesis by (simp add: e)
qed

end
