(* ===== verification/Merge_Reads.thy ===== *)
theory Merge_Reads
  imports Merge_Verbs
begin

text \<open>
  The reads of the merge plane (\<open>crates/server/src/merge_service.rs\<close>, \<open>crates/server/src/verbs.rs\<close>):
  a green at its head, at a named version or at the version an attachment pins, and a work's live
  files, whole or by page. What a plain volume answers is a parameter: its store is not modelled.
\<close>

datatype read_at =
    AtHead
  | AtVersion ver
  | AtAttachment nat

definition versions :: "shard \<Rightarrow> principal \<Rightarrow> vid \<Rightarrow> reply" where
  "versions st who green =
     (case require_green st who green of
        Inl r \<Rightarrow> Refused r
      | Inr _ \<Rightarrow> (case bt_get (sh_greens st) green of None \<Rightarrow> Refused NotFound | Some g \<Rightarrow> Versions (head g)))"

definition changed_since_verb :: "shard \<Rightarrow> principal \<Rightarrow> vid \<Rightarrow> ver \<Rightarrow> reply" where
  "changed_since_verb st who green version =
     (case require_green st who green of
        Inl r \<Rightarrow> Refused r
      | Inr _ \<Rightarrow>
          (case bt_get (sh_greens st) green of
             None \<Rightarrow> Refused NotFound
           | Some g \<Rightarrow> ChangedSince (changed_since g version)))"

definition green_version :: "shard \<Rightarrow> green \<Rightarrow> vid \<Rightarrow> read_at \<Rightarrow> refusal + ver" where
  "green_version st g green at =
     rbind (case at of
         AtHead \<Rightarrow> Inr (head g)
       | AtVersion v \<Rightarrow> Inr v
       | AtAttachment a \<Rightarrow>
           (case bt_get (sh_pins st) a of
              None \<Rightarrow> Inl NotFound
            | Some pin \<Rightarrow>
                if fst pin = green then Inr (snd pin) else Inl (BadRequest ''the attachment pins another green'')))
     (\<lambda>version. if version > head g then Inl (UnknownBase green version) else Inr version)"

definition read_green :: "shard \<Rightarrow> vid \<Rightarrow> path \<Rightarrow> read_at \<Rightarrow> reply" where
  "read_green st green p at =
     (case bt_get (sh_greens st) green of
        None \<Rightarrow> Refused NotFound
      | Some g \<Rightarrow>
          (case green_version st g green at of
             Inl r \<Rightarrow> Refused r
           | Inr version \<Rightarrow>
               (case content_at g p version of Some bytes \<Rightarrow> ReadBytes bytes | None \<Rightarrow> Refused NotFound)))"

text \<open>The page of \<open>bytes\<close> an offset and a length name, with the whole length and the stamp.\<close>

definition page_of :: "byte list \<Rightarrow> nat \<times> nat \<Rightarrow> nat \<Rightarrow> reply" where
  "page_of bytes page stamp =
     (let (offset, want) = page;
          total = length bytes;
          start = min offset total;
          stop = min (sat_add offset want) total
      in ReadPage (take (stop - start) (drop start bytes)) total stamp)"

definition read_green_range :: "shard \<Rightarrow> vid \<Rightarrow> path \<Rightarrow> read_at \<Rightarrow> nat \<times> nat \<Rightarrow> reply" where
  "read_green_range st green p at page =
     (case bt_get (sh_greens st) green of
        None \<Rightarrow> Refused NotFound
      | Some g \<Rightarrow>
          (case green_version st g green at of
             Inl r \<Rightarrow> Refused r
           | Inr version \<Rightarrow>
               (case content_ref_at g p version of Some bytes \<Rightarrow> page_of bytes page version | None \<Rightarrow> Refused NotFound)))"

text \<open>A work serves its live files, under the stamp of its revision.\<close>

definition read_work :: "shard \<Rightarrow> vid \<Rightarrow> path \<Rightarrow> (byte list \<Rightarrow> nat \<Rightarrow> reply) \<Rightarrow> reply" where
  "read_work st work p answer =
     (case bt_get (sh_works st) work of
        None \<Rightarrow> Refused NotFound
      | Some w \<Rightarrow>
          (case wf_get (ws_files w) (base_of_work st w) p of
             Inr (Some bytes) \<Rightarrow> answer bytes (ws_revision w)
           | Inr None \<Rightarrow> Refused NotFound
           | Inl _ \<Rightarrow> Refused (UnknownBase (ws_green w) (ws_base w))))"

definition read_verb :: "(vid \<Rightarrow> path \<Rightarrow> reply) \<Rightarrow> shard \<Rightarrow> principal \<Rightarrow> vid \<Rightarrow> path \<Rightarrow> read_at \<Rightarrow> reply" where
  "read_verb plain st who v p at =
     (case find_record st v of
        Inl r \<Rightarrow> Refused r
      | Inr r \<Rightarrow>
          if \<not> may_read (rights_of r who) then Refused Forbidden
          else
            let key = canonical_path p
            in case vr_role r of
                 RGreen _ _ \<Rightarrow> read_green st v key at
               | RWork _ _ _ \<Rightarrow>
                   (case at of
                      AtHead \<Rightarrow> read_work st v key (\<lambda>bytes _. ReadBytes bytes)
                    | _ \<Rightarrow> Refused (BadRequest ''a work volume has no versions to read at; read its head''))
               | RPlain \<Rightarrow>
                   (case at of
                      AtHead \<Rightarrow> plain v p
                    | _ \<Rightarrow> Refused (BadRequest ''a plain volume has no green versions; read its head'')))"

text \<open>\<open>READ_PAGE_HEADER_BYTES\<close> and what a page leaves of a reply chunk.\<close>

definition page_room :: "nat \<Rightarrow> nat" where
  "page_room chunk = chunk - 64"

definition read_window ::
  "(vid \<Rightarrow> path \<Rightarrow> nat \<times> nat \<Rightarrow> reply) \<Rightarrow> nat \<Rightarrow> shard \<Rightarrow> principal \<Rightarrow> vid \<times> path \<times> read_at \<Rightarrow> nat \<Rightarrow> nat \<Rightarrow> nat \<Rightarrow> reply" where
  "read_window plain chunk st who target offset limit cap =
     (let (v, p, at) = target
      in case find_record st v of
        Inl r \<Rightarrow> Refused r
      | Inr r \<Rightarrow>
          if \<not> may_read (rights_of r who) then Refused Forbidden
          else
            let want = min limit (max (page_room chunk) cap);
                key = canonical_path p
            in case vr_role r of
                 RGreen _ _ \<Rightarrow> read_green_range st v key at (offset, want)
               | RWork _ _ _ \<Rightarrow>
                   (case at of
                      AtHead \<Rightarrow> read_work st v key (\<lambda>bytes stamp. page_of bytes (offset, want) stamp)
                    | _ \<Rightarrow> Refused (BadRequest ''a work volume has no versions to read at; read its head''))
               | RPlain \<Rightarrow>
                   (case at of
                      AtHead \<Rightarrow> plain v p (offset, want)
                    | _ \<Rightarrow> Refused (BadRequest ''a plain volume has no green versions; read its head'')))"

definition read_range ::
  "(vid \<Rightarrow> path \<Rightarrow> nat \<times> nat \<Rightarrow> reply) \<Rightarrow> nat \<Rightarrow> shard \<Rightarrow> principal \<Rightarrow> vid \<times> path \<times> read_at \<Rightarrow> nat \<Rightarrow> nat \<Rightarrow> reply" where
  "read_range plain chunk st who target offset limit = read_window plain chunk st who target offset limit 0"

end
