(* ===== verification/Service_Run.thy ===== *)
theory Service_Run
  imports Service_Moves Merge_Reads Work_Log_Laws
begin

text \<open>
  A shard's merge plane through any sequence of its requests. Every version a work is based on or an
  attachment pins stays readable, and a request on one work changes nothing another reader sees.
\<close>

section \<open>Requests\<close>

datatype request =
    ReqEdit principal vid path nat nat "byte list"
  | ReqDeclare principal vid work_op
  | ReqSubmit principal vid "identity32 list"
  | ReqRebase principal vid

fun dispatch :: "env \<Rightarrow> request \<Rightarrow> shard \<Rightarrow> reply \<times> shard" where
  "dispatch ev (ReqEdit who work p at delete_len bytes) st = edit_verb ev who work p at delete_len bytes st"
| "dispatch ev (ReqDeclare who work p) st = declare_verb ev who work p st"
| "dispatch ev (ReqSubmit who work evidence) st = submit_verb ev who work evidence st"
| "dispatch ev (ReqRebase who work) st = rebase_verb ev who work st"

fun acts_on :: "request \<Rightarrow> vid" where
  "acts_on (ReqEdit who work p at delete_len bytes) = work"
| "acts_on (ReqDeclare who work p) = work"
| "acts_on (ReqSubmit who work evidence) = work"
| "acts_on (ReqRebase who work) = work"

text \<open>The inputs a request hashes.\<close>

fun hashed :: "env \<Rightarrow> request \<Rightarrow> shard \<Rightarrow> byte list set" where
  "hashed ev (ReqSubmit who work evidence) st = sealed_input ev st work evidence"
| "hashed ev (ReqRebase who work) st = sealed_input ev st work []"
| "hashed ev (ReqEdit who work p at delete_len bytes) st = {}"
| "hashed ev (ReqDeclare who work p) st = {}"

lemma dispatch_moves:
  assumes "shard_inv ev H st" "heads_fit st" "inj_on (ev_blake3 ev) H" "hashed ev rq st \<subseteq> H"
  shows "moves ev H (acts_on rq) st (snd (dispatch ev rq st))"
proof -
  have "bt_ok (sh_works st)" using assms(1) by (simp add: shard_inv_def)
  then show ?thesis
    using submit_moves [OF assms(1,2,3)] rebase_moves [OF assms(1)] edit_moves declare_moves assms(4) by (cases rq) simp_all
qed

section \<open>Runs\<close>

text \<open>
  A request is served whose words fit their formats: versions and lengths in 64 bits, the entries of
  the work log and the increment in their wire forms, the paths of a document within their 16-bit index.
\<close>

definition contents_fit :: "shard \<Rightarrow> bool" where
  "contents_fit st \<longleftrightarrow> (\<forall>k g p w bytes. bt_get (sh_greens st) k = Some g \<and> content_at g p w = Some bytes \<longrightarrow> length bytes \<le> u64_max)"

definition op_fits :: "volume_op \<Rightarrow> bool" where
  "op_fits v \<longleftrightarrow> logged_ok (logged_of v) \<and> (case v of VMknod _ n _ \<Rightarrow> node_ok n | _ \<Rightarrow> True)"

fun words_fit :: "env \<Rightarrow> request \<Rightarrow> shard \<Rightarrow> bool" where
  "words_fit ev (ReqEdit who work p at delete_len bytes) st \<longleftrightarrow> log_entry_ok (LogEdit (canonical_path p) at delete_len bytes)"
| "words_fit ev (ReqDeclare who work p) st \<longleftrightarrow> op_fits (declared_op p)"
| "words_fit ev (ReqSubmit who work evidence) st \<longleftrightarrow>
     (case build_increment ev st work evidence of
        Inl _ \<Rightarrow> True
      | Inr (_, inc) \<Rightarrow> inc_ok inc \<and> length (inc_encode inc) \<le> u64_max \<and> length (doc_paths (inc_doc inc)) \<le> Suc u16_max)"
| "words_fit ev (ReqRebase who work) st \<longleftrightarrow>
     (case build_increment ev st work [] of
        Inl _ \<Rightarrow> True
      | Inr (k, inc) \<Rightarrow>
          (case bt_get (sh_greens st) k of
             None \<Rightarrow> True
           | Some g \<Rightarrow>
               (case fst (rebase inc g) of
                  RebaseConflict _ \<Rightarrow> True
                | Rebased version changed journal \<Rightarrow>
                    log_entry_ok (restated version changed journal) \<and> list_all op_fits journal)))"

definition fits :: "env \<Rightarrow> request \<Rightarrow> shard \<Rightarrow> bool" where
  "fits ev rq st \<longleftrightarrow> heads_fit st \<and> contents_fit st \<and> words_fit ev rq st
     \<and> budget_capacity (sh_budget (snd (dispatch ev rq st))) < u64_max"

text \<open>
  A volume id is minted once, so nothing on the shard names a fresh one. The verbs of other volumes
  move the rest of the catalog and of the budget: they keep the merge tables and the roles, and give
  back nothing the merge plane claimed.
\<close>

definition fresh_id :: "shard \<Rightarrow> vid \<Rightarrow> bool" where
  "fresh_id st v \<longleftrightarrow> length v = 16 \<and> bt_get (sh_works st) v = None \<and> bt_get (sh_greens st) v = None
     \<and> (\<forall>w. \<not> reader st v w) \<and> log_of (pt_chains (sh_partition st)) v = [] \<and> log_of (pt_logs (sh_partition st)) v = []
     \<and> bt_get (pt_origins (sh_partition st)) v = None \<and> bt_get (sh_retention st) v = None"

definition merge_claims :: "shard \<Rightarrow> nat" where
  "merge_claims st = (\<Sum>w\<leftarrow>bt_values (sh_works st). ws_charged w) + sum_list (bt_values (sh_retention st))"

definition keeps_merge :: "shard \<Rightarrow> partition \<Rightarrow> shard_budget \<Rightarrow> bool" where
  "keeps_merge st pt b \<longleftrightarrow> pt_chains pt = pt_chains (sh_partition st) \<and> pt_logs pt = pt_logs (sh_partition st)
     \<and> pt_origins pt = pt_origins (sh_partition st) \<and> pt_merge_cap pt = pt_merge_cap (sh_partition st) \<and> bt_ok (pt_volumes pt)
     \<and> (\<forall>v. v \<in> set (bt_keys (sh_works st)) \<union> set (bt_keys (sh_greens st)) \<longrightarrow>
          map_option vr_role (bt_get (pt_volumes pt) v) = map_option vr_role (bt_get (pt_volumes (sh_partition st)) v))
     \<and> merge_claims st \<le> budget_committed b \<and> budget_committed b \<le> budget_capacity b \<and> budget_capacity b < u64_max"

inductive service_run :: "env \<Rightarrow> byte list set \<Rightarrow> shard \<Rightarrow> bool" for ev H where
  started: "sh_greens st = [] \<Longrightarrow> sh_works st = [] \<Longrightarrow> sh_pins st = [] \<Longrightarrow> sh_retention st = [] \<Longrightarrow>
    pt_chains (sh_partition st) = [] \<Longrightarrow> pt_logs (sh_partition st) = [] \<Longrightarrow> pt_origins (sh_partition st) = [] \<Longrightarrow>
    bt_ok (pt_volumes (sh_partition st)) \<Longrightarrow> pt_merge_cap (sh_partition st) < u64_max \<Longrightarrow>
    budget_committed (sh_budget st) \<le> budget_capacity (sh_budget st) \<Longrightarrow> budget_capacity (sh_budget st) < u64_max \<Longrightarrow>
    service_run ev H st"
| served: "service_run ev H st \<Longrightarrow> fits ev rq st \<Longrightarrow> hashed ev rq st \<subseteq> H \<Longrightarrow> service_run ev H (snd (dispatch ev rq st))"
| elsewhere: "service_run ev H st \<Longrightarrow> keeps_merge st pt b \<Longrightarrow> service_run ev H (st\<lparr>sh_partition := pt, sh_budget := b\<rparr>)"
| green_made: "service_run ev H st \<Longrightarrow> pred_option (fresh_id st) fresh \<Longrightarrow>
    service_run ev H (snd (create_green ev who name require_evidence seed fresh st))"
| work_made: "service_run ev H st \<Longrightarrow> pred_option (fresh_id st) fresh \<Longrightarrow>
    service_run ev H (snd (create_work who k name fresh st))"
| attached: "service_run ev H st \<Longrightarrow> bt_get (sh_pins st) a = None \<Longrightarrow> service_run ev H (pin_head a k st)"
| detached: "service_run ev H st \<Longrightarrow> service_run ev H (forget_attachment ev a st)"
| advanced: "service_run ev H st \<Longrightarrow> service_run ev H (snd (advance ev a target st))"
| destroyed: "service_run ev H st \<Longrightarrow> service_run ev H (snd (destroy_merge_volume ev who v st))"

text \<open>A change of the readers alone.\<close>

lemma inv_readers:
  assumes "shard_inv ev H st" "sh_greens st' = sh_greens st" "bt_ok (sh_works st')" "bt_ok (sh_pins st')"
    and "\<And>v x. bt_get (sh_works st') v = Some x \<Longrightarrow> length v = 16"
    and "\<And>k w g. bt_get (sh_greens st) k = Some g \<Longrightarrow> reader st' k w \<Longrightarrow> reader st k w \<or> g_folded_below g \<le> w \<and> w \<le> head g"
  shows "shard_inv ev H st'"
  unfolding shard_inv_def readers_ok_def greens_sound_def
proof (intro conjI allI impI)
  fix k g w assume g: "bt_get (sh_greens st') k = Some g \<and> reader st' k w"
  then have "reader st k w \<or> g_folded_below g \<le> w \<and> w \<le> head g" using assms(2,6) by simp
  moreover have "reader st k w \<Longrightarrow> g_folded_below g \<le> w \<and> w \<le> head g"
    using assms(1,2) g by (auto simp: shard_inv_def readers_ok_def)
  ultimately show "g_folded_below g \<le> w" "w \<le> head g" by auto
qed (use assms(1-5) in \<open>auto simp: shard_inv_def greens_sound_def\<close>)

lemma settle_inv:
  assumes "shard_inv ev H st"
  shows "shard_inv ev H (snd (settle_green_retention ev k st))"
proof -
  have "bt_ok (sh_works st)" "greens_sound ev H st" using assms by (simp_all add: shard_inv_def)
  then have "moves ev H [] st (snd (settle_green_retention ev k st))"
    by (intro moves_still [OF assms] settle_keeps core_same) simp_all
  then show ?thesis by (rule moves_inv [OF assms])
qed

lemma same_readers: "sh_works st' = sh_works st \<Longrightarrow> sh_pins st' = sh_pins st \<Longrightarrow> reader st' = reader st"
  by (simp add: fun_eq_iff reader_def reader_versions_def)

lemma inv_same:
  assumes "shard_inv ev H st" "sh_greens st' = sh_greens st" "sh_works st' = sh_works st" "sh_pins st' = sh_pins st"
  shows "shard_inv ev H st'"
  using assms(1) same_readers [OF assms(3,4)] by (simp add: shard_inv_def readers_ok_def greens_sound_def assms)

lemma new_green_sound: "green_sound ev H (set_rejected_budget n (with_origin (ev_xof ev) seed))"
proof -
  have "green_sound ev H (with_origin (ev_xof ev) seed)"
    using with_origin_ok [of "ev_xof ev" seed] with_origin_shape(12,17) [where s = seed and xof = "ev_xof ev"]
    by (simp add: green_sound_def accepted_ok_def)
  then show ?thesis using later_green_chain [OF budget_chain, of ev H "\<lambda>_. True"] by (simp add: later_green_def)
qed

lemma install_green_inv:
  assumes "shard_inv ev H st" "\<forall>w. \<not> reader st v w"
  shows "shard_inv ev H (install_green v (with_origin (ev_xof ev) seed) st)"
proof -
  let ?s = "install_green v (with_origin (ev_xof ev) seed) st"
  have f: "sh_works ?s = sh_works st" "sh_pins ?s = sh_pins st"
    "sh_greens ?s = bt_insert v (set_rejected_budget (rejected_cache_budget st) (with_origin (ev_xof ev) seed)) (sh_greens st)"
    by (simp_all add: install_green_def enqueue_record_def)
  show ?thesis
    using assms new_green_sound same_readers [OF f(1,2)]
    by (auto simp: shard_inv_def readers_ok_def greens_sound_def f split: if_splits)
qed

lemma green_new_origin:
  "green_new = with_origin xof \<lparr>or_files = [], or_dirs = [], or_modes = [], or_symlinks = [], or_hardlinks = [],
     or_specials = [], or_xattrs = []\<rparr>"
  by (simp add: with_origin_def origin_canonicalize_def dedup_by_key_def Let_def)

lemma create_green_inv:
  assumes inv: "shard_inv ev H st" and v: "pred_option (fresh_id st) fresh"
  shows "shard_inv ev H (snd (create_green ev who name require_evidence seed fresh st))"
proof -
  obtain r st' where e: "create_green ev who name require_evidence seed fresh st = (r, st')" by fastforce
  consider "st' = st" | p where "db_mutate p st = Inr st'"
    | v p q s st1 where "fresh = Some v" "db_mutate p st = Inr st1" "db_mutate q st1 = Inr s"
        "st' = install_green v (with_origin (ev_xof ev) (the seed)) s"
    | v p s where "fresh = Some v" "db_mutate p st = Inr s" "st' = install_green v green_new s"
    using e unfolding create_green_def by (auto split: option.splits sum.splits)
  then have "shard_inv ev H st'"
  proof cases
    case (2 p)
    note f = db_mutate_frame [OF 2]
    show ?thesis by (rule inv_same [OF inv f(1,3,2)])
  next
    case (3 v p q s st1)
    note f = db_mutate_frame [OF 3(2)] db_mutate_frame [OF 3(3)]
    have "shard_inv ev H s" by (rule inv_same [OF inv]) (simp_all add: f)
    moreover have "\<forall>w. \<not> reader s v w" using v 3(1) same_readers [of s st] f by (simp add: fresh_id_def)
    ultimately show ?thesis unfolding 3(4) by (rule install_green_inv)
  next
    case (4 v p s)
    note f = db_mutate_frame [OF 4(2)]
    have "shard_inv ev H s" by (rule inv_same [OF inv]) (simp_all add: f)
    moreover have "\<forall>w. \<not> reader s v w" using v 4(1) same_readers [of s st] f by (simp add: fresh_id_def)
    ultimately show ?thesis unfolding 4(3) green_new_origin [of "ev_xof ev"] by (rule install_green_inv)
  qed (use inv in simp)
  then show ?thesis by (simp add: e)
qed

lemma reader_insert_work:
  assumes "bt_ok (sh_works st)" "bt_ok (sh_pins st)"
    "reader (st\<lparr>sh_works := bt_insert v x (sh_works st)\<rparr>) k w"
  shows "reader st k w \<or> k = ws_green x \<and> w = ws_base x"
  using assms reader_iff [of "st\<lparr>sh_works := bt_insert v x (sh_works st)\<rparr>"] by (auto simp: reader_iff split: if_splits)

lemma install_work_inv:
  assumes "shard_inv ev H st" "length v = 16" "bt_get (sh_greens st) k = Some g"
  shows "shard_inv ev H (st\<lparr>sh_works := bt_insert v (fresh_work k (head g)) (sh_works st)\<rparr>)"
proof -
  let ?x = "fresh_work k (head g)"
  have "green_sound ev H g" using assms(1,3) by (simp add: shard_inv_def greens_sound_def)
  then have h: "g_folded_below g \<le> head g" by (simp add: green_sound_def)
  have ok: "bt_ok (sh_works st)" "bt_ok (sh_pins st)" using assms(1) by (simp_all add: shard_inv_def)
  show ?thesis
  proof (rule inv_readers [OF assms(1)])
    fix j w h' assume "bt_get (sh_greens st) j = Some h'" "reader (st\<lparr>sh_works := bt_insert v ?x (sh_works st)\<rparr>) j w"
    then show "reader st j w \<or> g_folded_below h' \<le> w \<and> w \<le> head h'"
      using reader_insert_work [OF ok] h assms(3) by (fastforce simp: fresh_work_def)
  qed (use ok assms(1,2) in \<open>auto simp: shard_inv_def split: if_splits\<close>)
qed

lemma create_work_inv:
  assumes inv: "shard_inv ev H st" and v: "pred_option (fresh_id st) fresh"
  shows "shard_inv ev H (snd (create_work who k name fresh st))"
proof -
  obtain r st' where e: "create_work who k name fresh st = (r, st')" by fastforce
  consider "st' = st"
    | v p g s where "fresh = Some v" "bt_get (sh_greens st) k = Some g" "db_mutate p st = Inr s"
        "st' = s\<lparr>sh_works := bt_insert v (fresh_work k (head g)) (sh_works s)\<rparr>"
    using e unfolding create_work_def by (auto split: option.splits sum.splits)
  then have "shard_inv ev H st'"
  proof cases
    case (2 v p g s)
    note f = db_mutate_frame [OF 2(3)]
    have "shard_inv ev H s" by (rule inv_same [OF inv]) (simp_all add: f)
    then show ?thesis unfolding 2(4) using v 2(1,2) f by (intro install_work_inv) (simp_all add: fresh_id_def)
  qed (use inv in simp)
  then show ?thesis by (simp add: e)
qed

lemma pin_inv:
  assumes inv: "shard_inv ev H st" and g: "bt_get (sh_greens st) k = Some g" "g_folded_below g \<le> w" "w \<le> head g"
  shows "shard_inv ev H (st\<lparr>sh_pins := bt_insert a (k, w) (sh_pins st)\<rparr>)"
proof (rule inv_readers [OF inv])
  let ?s = "st\<lparr>sh_pins := bt_insert a (k, w) (sh_pins st)\<rparr>"
  have ok: "bt_ok (sh_works st)" "bt_ok (sh_pins st)" using inv by (simp_all add: shard_inv_def)
  fix j u h assume "bt_get (sh_greens st) j = Some h" "reader ?s j u"
  then show "reader st j u \<or> g_folded_below h \<le> u \<and> u \<le> head h"
    using ok g reader_iff [of ?s] by (auto simp: reader_iff split: if_splits)
qed (use inv in \<open>auto simp: shard_inv_def\<close>)

lemma fewer_inv:
  assumes inv: "shard_inv ev H st" and s: "sh_greens s = sh_greens st" "bt_ok (sh_works s)" "bt_ok (sh_pins s)"
    "\<And>v x. bt_get (sh_works s) v = Some x \<Longrightarrow> bt_get (sh_works st) v = Some x"
    "\<And>a x. bt_get (sh_pins s) a = Some x \<Longrightarrow> bt_get (sh_pins st) a = Some x"
  shows "shard_inv ev H s"
proof (rule inv_readers [OF inv s(1,2,3)])
  have ok: "bt_ok (sh_works st)" "bt_ok (sh_pins st)" using inv by (simp_all add: shard_inv_def)
  fix j u h assume "reader s j u"
  then have "reader st j u" using s(4,5) unfolding reader_iff [OF ok] reader_iff [OF s(2,3)] by blast
  then show "reader st j u \<or> g_folded_below h \<le> u \<and> u \<le> head h" ..
qed (use inv s in \<open>auto simp: shard_inv_def\<close>)

lemma forget_inv:
  assumes "shard_inv ev H st"
  shows "shard_inv ev H (forget_attachment ev a st)"
proof -
  have "shard_inv ev H (st\<lparr>sh_pins := bt_remove a (sh_pins st)\<rparr>)"
    by (rule fewer_inv [OF assms]) (use assms in \<open>auto simp: shard_inv_def split: if_splits\<close>)
  then show ?thesis using assms by (auto simp: forget_attachment_def intro: settle_inv split: option.split)
qed

lemma advance_inv:
  assumes "shard_inv ev H st"
  shows "shard_inv ev H (snd (advance ev a target st))"
proof (cases "bt_get (sh_pins st) a")
  case (Some pin)
  obtain k pinned where pin: "pin = (k, pinned)" by (cases pin)
  show ?thesis
  proof (cases "bt_get (sh_greens st) k")
    case (Some g)
    show ?thesis
    proof (cases "unwrap_or target (head g) > head g \<or> unwrap_or target (head g) < g_folded_below g")
      case False
      then show ?thesis
        using \<open>bt_get (sh_pins st) a = Some pin\<close> Some settle_inv [OF pin_inv [OF assms Some, of "unwrap_or target (head g)" a]]
        by (simp add: advance_def pin Let_def case_prod_unfold)
    qed (use \<open>bt_get (sh_pins st) a = Some pin\<close> Some assms in \<open>simp add: advance_def pin Let_def\<close>)
  qed (use Some pin assms in \<open>simp add: advance_def\<close>)
qed (use assms in \<open>simp add: advance_def\<close>)

lemma retire_green_inv:
  assumes "shard_inv ev H st" "sh_works s = sh_works st" "sh_greens s = bt_remove v (sh_greens st)"
    "sh_pins s = filter (\<lambda>(_, pin). fst pin \<noteq> v) (sh_pins st)"
  shows "shard_inv ev H s"
proof -
  have ok: "bt_ok (sh_pins st)" "bt_ok (sh_works st)" using assms(1) by (simp_all add: shard_inv_def)
  have p: "bt_get (sh_pins s) a = Some x \<Longrightarrow> bt_get (sh_pins st) a = Some x" for a x
    using bt_get_filter [OF ok(1), of "\<lambda>_ pin. fst pin \<noteq> v" a] by (simp add: assms(4) split: option.splits if_splits)
  have okp: "bt_ok (sh_pins s)" using ok(1) unfolding assms(4) bt_ok_def by (simp add: sorted_wrt_map sorted_wrt_filter)
  have "shard_inv ev H (s\<lparr>sh_greens := sh_greens st\<rparr>)"
    by (rule fewer_inv [OF assms(1)]) (use ok okp p assms(2) in simp_all)
  moreover have "reader (s\<lparr>sh_greens := sh_greens st\<rparr>) = reader s" by (rule same_readers) simp_all
  ultimately show ?thesis
    by (auto simp: shard_inv_def readers_ok_def greens_sound_def assms(3) split: if_splits)
qed

lemma retire_inv:
  assumes "shard_inv ev H st"
  shows "shard_inv ev H (retire_volume ev v st)"
proof -
  define s where "s = (case bt_get (sh_works st) v of None \<Rightarrow> st
      | Some w \<Rightarrow> snd (settle_green_retention ev (ws_green w)
          (charge_release (ws_charged w) (st\<lparr>sh_works := bt_remove v (sh_works st)\<rparr>))))"
  have "shard_inv ev H (charge_release n (st\<lparr>sh_works := bt_remove v (sh_works st)\<rparr>))" for n
    by (rule fewer_inv [OF assms]) (use assms in \<open>auto simp: shard_inv_def charge_release_def split: if_splits\<close>)
  then have s: "shard_inv ev H s" using assms by (auto simp: s_def intro: settle_inv split: option.split)
  have r: "sh_works (release_green_retention v x) = sh_works x" "sh_greens (release_green_retention v x) = sh_greens x"
    "sh_pins (release_green_retention v x) = sh_pins x" for x
    by (simp_all add: release_green_retention_def split: option.split)
  show ?thesis
    using s retire_green_inv [OF s] unfolding retire_volume_def Let_def s_def [symmetric]
    by (auto simp: r split: option.split)
qed

lemma destroy_inv:
  assumes inv: "shard_inv ev H st"
  shows "shard_inv ev H (snd (destroy_merge_volume ev who v st))"
proof -
  let ?s = "st\<lparr>sh_pins := filter (\<lambda>(_, pin). fst pin \<noteq> v) (sh_pins st)\<rparr>"
  have ok: "bt_ok (sh_pins st)" using inv by (simp add: shard_inv_def)
  have s: "shard_inv ev H ?s"
  proof (rule fewer_inv [OF inv])
    show "bt_ok (sh_pins ?s)" using ok unfolding bt_ok_def by (simp add: sorted_wrt_map sorted_wrt_filter)
    show "bt_get (sh_pins ?s) a = Some x \<Longrightarrow> bt_get (sh_pins st) a = Some x" for a x
      using bt_get_filter [OF ok, of "\<lambda>_ pin. fst pin \<noteq> v" a] by (simp split: option.splits if_splits)
  qed (use inv in \<open>simp_all add: shard_inv_def\<close>)
  have m: "shard_inv ev H y" if "db_mutate p x = Inr y" "shard_inv ev H x" for p x y
    using db_mutate_frame [OF that(1)] that(2) by (intro inv_same [OF that(2)]) simp_all
  show ?thesis
    using inv s retire_inv m unfolding destroy_merge_volume_def Let_def
    by (auto split: option.split sum.split)
qed

lemma run_inv:
  assumes "service_run ev H st" "inj_on (ev_blake3 ev) H"
  shows "shard_inv ev H st"
  using assms(1)
proof (induction rule: service_run.induct)
  case (started st)
  then show ?case by (simp add: shard_inv_def readers_ok_def greens_sound_def)
next
  case (served st rq)
  have "heads_fit st" using served.hyps(2) by (simp add: fits_def)
  then show ?case by (intro moves_inv [OF served.IH dispatch_moves [OF served.IH _ assms(2) served.hyps(3)]])
next
  case (elsewhere st pt b)
  then show ?case by (elim inv_same) simp_all
next
  case (attached st a k)
  then have "shard_inv ev H st" by simp
  then show ?case using pin_inv [of ev H st k _ _ a]
    by (auto simp: pin_head_def shard_inv_def greens_sound_def green_sound_def split: option.split)
qed (simp_all add: forget_inv advance_inv create_green_inv create_work_inv destroy_inv)

section \<open>What a reader sees\<close>

lemma keeps_base_file:
  assumes "keeps ev H R st st'" "R k w"
    and "\<And>g. bt_get (sh_greens st) k = Some g \<Longrightarrow> g_folded_below g \<le> w \<and> w \<le> head g"
  shows "base_file \<lparr>wb_green = bt_get (sh_greens st') k, wb_version = w\<rparr> p
    = base_file \<lparr>wb_green = bt_get (sh_greens st) k, wb_version = w\<rparr> p"
proof -
  have "rel_option (later_green ev H (R k)) (bt_get (sh_greens st) k) (bt_get (sh_greens st') k)"
    using assms(1) by (simp add: keeps_def)
  then show ?thesis
    using assms(2,3) by (cases "bt_get (sh_greens st) k"; cases "bt_get (sh_greens st') k")
      (auto simp: base_file_def later_green_def)
qed

lemma dispatch_others:
  assumes run: "service_run ev H st" and fit: "heads_fit st" and inj: "inj_on (ev_blake3 ev) H" and h: "hashed ev rq st \<subseteq> H"
    and st'_def: "st' = snd (dispatch ev rq st)"
  shows "v \<noteq> acts_on rq \<Longrightarrow> core st' v = core st v" "sh_pins st' = sh_pins st"
    "keeps ev H (others_read (acts_on rq) st) st st'"
    "\<And>k g w. bt_get (sh_greens st) k = Some g \<Longrightarrow> others_read (acts_on rq) st k w \<Longrightarrow> g_folded_below g \<le> w \<and> w \<le> head g"
proof -
  note inv = run_inv [OF run inj]
  have m: "moves ev H (acts_on rq) st st'" using dispatch_moves [OF inv fit inj h] by (simp add: st'_def)
  then show "v \<noteq> acts_on rq \<Longrightarrow> core st' v = core st v" "sh_pins st' = sh_pins st"
    "keeps ev H (others_read (acts_on rq) st) st st'" by (simp_all add: moves_def)
  have ok: "bt_ok (sh_works st)" "bt_ok (sh_pins st)" "readers_ok st" using inv by (simp_all add: shard_inv_def)
  show "g_folded_below g \<le> w \<and> w \<le> head g" if "bt_get (sh_greens st) k = Some g" "others_read (acts_on rq) st k w" for k g w
    using ok(3) that(1) others_readers [OF ok(1,2) that(2)] by (auto simp: readers_ok_def)
qed

text \<open>A request on one work leaves what every other work reads.\<close>

lemma work_unmoved:
  assumes run: "service_run ev H st" and fit: "heads_fit st" and inj: "inj_on (ev_blake3 ev) H" and h: "hashed ev rq st \<subseteq> H" and v: "v \<noteq> acts_on rq"
  shows "read_work (snd (dispatch ev rq st)) v p answer = read_work st v p answer"
proof (cases "bt_get (sh_works st) v")
  let ?s = "snd (dispatch ev rq st)"
  note o = dispatch_others [OF run fit inj h refl]
  {
    case None
    then have "bt_get (sh_works ?s) v = None" using o(1) [OF v] by (simp add: core_def)
    then show ?thesis using None by (simp add: read_work_def)
  next
    case (Some w)
    then have "core ?s v = Some (w\<lparr>ws_charged := 0\<rparr>)" using o(1) [OF v] by (simp add: core_def)
    then obtain x where x: "bt_get (sh_works ?s) v = Some x" "x\<lparr>ws_charged := 0\<rparr> = w\<lparr>ws_charged := 0\<rparr>"
      by (auto simp: core_def)
    note e = arg_cong [OF x(2)]
    have f: "ws_files x = ws_files w" "ws_green x = ws_green w" "ws_base x = ws_base w" "ws_revision x = ws_revision w"
      using e [of ws_files] e [of ws_green] e [of ws_base] e [of ws_revision] by simp_all
    have "others_read (acts_on rq) st (ws_green w) (ws_base w)" using v Some by (auto simp: others_read_def based_def)
    from keeps_base_file [OF o(3) this o(4) [OF _ this]]
    have "base_file (base_of_work ?s x) q = base_file (base_of_work st w) q" for q by (simp add: base_of_work_def f)
    then show ?thesis by (simp add: read_work_def Some x(1) f wf_get_def split: option.split sum.split)
  }
qed

lemma pin_unmoved:
  assumes run: "service_run ev H st" and fit: "heads_fit st" and inj: "inj_on (ev_blake3 ev) H" and h: "hashed ev rq st \<subseteq> H"
  shows "read_green (snd (dispatch ev rq st)) k p (AtAttachment a) = read_green st k p (AtAttachment a)"
proof -
  let ?s = "snd (dispatch ev rq st)"
  note o = dispatch_others [OF run fit inj h refl]
  have r: "rel_option (later_green ev H (others_read (acts_on rq) st k)) (bt_get (sh_greens st) k) (bt_get (sh_greens ?s) k)"
    using o(3) by (simp add: keeps_def)
  show ?thesis
  proof (cases "bt_get (sh_greens st) k")
    case None
    then show ?thesis using r by (cases "bt_get (sh_greens ?s) k") (simp_all add: read_green_def)
  next
    case (Some g)
    then obtain h where h: "bt_get (sh_greens ?s) k = Some h" "later_green ev H (others_read (acts_on rq) st k) g h"
      using r by (cases "bt_get (sh_greens ?s) k") auto
    have "g_folded_below g \<le> w \<and> w \<le> head g \<and> w \<le> head h \<and> content_at h p w = content_at g p w"
      if "bt_get (sh_pins st) a = Some (k, w)" for w
    proof -
      have "others_read (acts_on rq) st k w" using that by (auto simp: others_read_def)
      then show ?thesis using o(4) [OF Some] h(2) by (force simp: later_green_def)
    qed
    then show ?thesis
      using Some h(1) o(2) by (auto simp: read_green_def green_version_def split: option.split sum.split)
  qed
qed

end
