(* ===== verification/Service_Edits.thy ===== *)
theory Service_Edits
  imports Service_Run
begin

text \<open>
  What a work's own requests do to what it reads: an acknowledged edit is the splice it names, an
  acknowledged unlink or rename removes and moves the file, and nothing else changes.
\<close>

section \<open>The delta, path by path\<close>

lemma wf_splice_get:
  assumes "wf_splice b p (at, del) bytes w = Inr w'"
  shows "wf_get w' b q = (if q = p then Inr (Some (splice_bytes at del bytes (unwrap_or (view w b p) []))) else wf_get w b q)"
proof -
  have q: "bt_get w' q = bt_get w q" if "q \<noteq> p" using assms that
    by (auto simp: wf_splice_def rbind_Inr_iff Let_def split: if_splits)
  obtain y where y: "bt_get w' p = Some (Some y)" using assms by (auto simp: wf_splice_def rbind_Inr_iff Let_def)
  then have "view w' b p = Some y" by simp
  then have "y = splice_bytes at del bytes (unwrap_or (view w b p) [])" using wf_splice_view [OF assms, of p] by simp
  then show ?thesis using y q by (simp add: wf_get_def)
qed

lemma removal_get:
  assumes "wf_removal w b p = Inr r"
  shows "wf_get (remove_as p r w) b q = (if q = p then Inr None else wf_get w b q)"
proof (cases "q = p")
  case False
  then show ?thesis by (auto simp: wf_get_def remove_as_def split: option.split bool.split)
next
  case True
  obtain x where x: "wf_get w b p = Inr x" using assms by (auto simp: wf_removal_def rbind_Inr_iff)
  show ?thesis
  proof (cases x)
    case None
    then show ?thesis using assms x True by (simp add: wf_removal_def remove_as_def)
  next
    case (Some bytes)
    then show ?thesis using assms x True
      by (cases "base_file b p") (auto simp: wf_removal_def remove_as_def wf_get_def split: option.splits bool.splits)
  qed
qed

lemma wf_unlink_get: "wf_declare b (VUnlink p) w = Inr w' \<Longrightarrow> wf_get w' b q = (if q = p then Inr None else wf_get w b q)"
  using removal_get by (auto simp: rbind_Inr_iff)

lemma wf_rename_get:
  assumes "wf_declare b (VRename p q) w = Inr w'" "p \<noteq> q"
  shows "wf_get w' b s = (if view w b p = None then wf_get w b s
     else if s = q then Inr (view w b p) else if s = p then Inr None else wf_get w b s)"
proof -
  obtain x where x: "wf_get w b p = Inr x" using assms by (auto simp: rbind_Inr_iff)
  then have v: "view w b p = x" by (simp add: view_def)
  show ?thesis
  proof (cases x)
    case None
    then show ?thesis using assms x v by simp
  next
    case (Some bytes)
    then obtain r where r: "wf_removal w b p = Inr r" "w' = bt_insert q (Some bytes) (remove_as p r w)"
      using assms x by (auto simp: rbind_Inr_iff)
    have "wf_get w' b s = (if s = q then Inr (Some bytes) else wf_get (remove_as p r w) b s)"
      by (simp add: r(2) wf_get_def)
    then show ?thesis using v Some removal_get [OF r(1)] by simp
  qed
qed

section \<open>The verbs\<close>

text \<open>A change made by \<open>finish_change\<close> is the change of the work's files, over the same base.\<close>

lemma finish_change_answer:
  assumes "finish_change work amounts change answer st = (r, st')" "\<And>e. r \<noteq> Refused e"
  obtains w fs js x where "bt_get (sh_works st) work = Some w" "r = answer"
    "change (ws_files w, ws_journal w) (base_of_work st w) = Inr (fs, js)"
    "bt_get (sh_works st') work = Some x" "ws_files x = fs" "ws_journal x = js" "base_of_work st' x = base_of_work st w"
    "ws_green x = ws_green w" "ws_base x = ws_base w" "ws_revision x = wrapping_succ (ws_revision w)"
proof -
  obtain added removed where a: "amounts = (added, removed)" by (cases amounts)
  obtain w fs js where w: "bt_get (sh_works st) work = Some w" "r = answer"
    "change (ws_files w, ws_journal w) (base_of_work st w) = Inr (fs, js)"
    "st' = charge_shrink work removed (st\<lparr>sh_works := bt_insert work
        (w\<lparr>ws_files := fs, ws_journal := js, ws_revision := wrapping_succ (ws_revision w)\<rparr>) (sh_works st)\<rparr>)"
    using assms by (auto simp: finish_change_def a split: option.splits sum.splits)
  define x where "x = w\<lparr>ws_files := fs, ws_journal := js, ws_revision := wrapping_succ (ws_revision w),
      ws_charged := ws_charged w - min removed (ws_charged w)\<rparr>"
  show thesis
    by (rule that [OF w(1-3), of x]) (simp_all add: w(4) x_def charge_shrink_def Let_def base_of_work_def)
qed

lemma recorded_work:
  assumes "record_work_change ev work added entry st = (Inr u, st1)" "bt_get (sh_works st1) work = Some w1"
  obtains w where "bt_get (sh_works st) work = Some w" "w1\<lparr>ws_charged := 0\<rparr> = w\<lparr>ws_charged := 0\<rparr>"
    "base_of_work st1 w1 = base_of_work st w" "ws_files w1 = ws_files w" "ws_journal w1 = ws_journal w"
    "ws_green w1 = ws_green w" "ws_base w1 = ws_base w" "ws_revision w1 = ws_revision w"
proof -
  note f = record_work_change_frame [OF assms(1)]
  have "core st work = Some (w1\<lparr>ws_charged := 0\<rparr>)" using fun_cong [OF f(3), of work] assms(2) by (simp add: core_def)
  then obtain w where w: "bt_get (sh_works st) work = Some w" "w1\<lparr>ws_charged := 0\<rparr> = w\<lparr>ws_charged := 0\<rparr>"
    by (auto simp: core_def)
  note e = arg_cong [OF w(2)]
  show thesis
    by (rule that [OF w]) (use e [of ws_files] e [of ws_journal] e [of ws_green] e [of ws_base] e [of ws_revision] f(1)
        in \<open>simp_all add: base_of_work_def\<close>)
qed

lemma edit_applies:
  assumes "edit_verb ev who work p at del bytes st = (Edited, st')"
  obtains w x where "bt_get (sh_works st) work = Some w" "bt_get (sh_works st') work = Some x"
    "wf_splice (base_of_work st w) (canonical_path p) (at, del) bytes (ws_files w) = Inr (ws_files x)"
    "base_of_work st' x = base_of_work st w" "ws_green x = ws_green w" "ws_base x = ws_base w"
proof -
  let ?p = "canonical_path p"
  obtain w old amounts entry st1 u where s: "record_work_change ev work (fst amounts) entry st = (Inr u, st1)"
    "finish_change work amounts (\<lambda>wj b. apply_edit wj b (?p, at, del, bytes) (edit_ops ?p old (at, del, length bytes))) Edited st1 = (Edited, st')"
    using assms unfolding edit_verb_def Let_def by (auto split: sum.splits option.splits prod.splits)
  obtain w1 fs js x where c: "bt_get (sh_works st1) work = Some w1"
    "apply_edit (ws_files w1, ws_journal w1) (base_of_work st1 w1) (?p, at, del, bytes) (edit_ops ?p old (at, del, length bytes)) = Inr (fs, js)"
    "bt_get (sh_works st') work = Some x" "ws_files x = fs" "base_of_work st' x = base_of_work st1 w1"
    "ws_green x = ws_green w1" "ws_base x = ws_base w1"
    by (rule finish_change_answer [OF s(2)]) auto
  obtain w where w: "bt_get (sh_works st) work = Some w" "base_of_work st1 w1 = base_of_work st w" "ws_files w1 = ws_files w"
    "ws_green w1 = ws_green w" "ws_base w1 = ws_base w" by (rule recorded_work [OF s(1) c(1)])
  show thesis
    by (rule that [OF w(1) c(3)]) (use c w in \<open>auto simp: apply_edit_def rbind_Inr_iff\<close>)
qed

lemma declare_applies:
  assumes "declare_verb ev who work op st = (Declared, st')"
  obtains w x where "bt_get (sh_works st) work = Some w" "bt_get (sh_works st') work = Some x"
    "wf_declare (base_of_work st w) (declared_op op) (ws_files w) = Inr (ws_files x)"
    "base_of_work st' x = base_of_work st w" "ws_green x = ws_green w" "ws_base x = ws_base w"
proof -
  obtain amounts entry st1 u where s: "record_work_change ev work (fst amounts) entry st = (Inr u, st1)"
    "finish_change work amounts (\<lambda>wj b. apply_declare wj b (declared_op op)) Declared st1 = (Declared, st')"
    using assms unfolding declare_verb_def Let_def by (auto split: sum.splits option.splits prod.splits)
  obtain w1 fs js x where c: "bt_get (sh_works st1) work = Some w1"
    "apply_declare (ws_files w1, ws_journal w1) (base_of_work st1 w1) (declared_op op) = Inr (fs, js)"
    "bt_get (sh_works st') work = Some x" "ws_files x = fs" "base_of_work st' x = base_of_work st1 w1"
    "ws_green x = ws_green w1" "ws_base x = ws_base w1"
    by (rule finish_change_answer [OF s(2)]) auto
  obtain w where w: "bt_get (sh_works st) work = Some w" "base_of_work st1 w1 = base_of_work st w" "ws_files w1 = ws_files w"
    "ws_green w1 = ws_green w" "ws_base w1 = ws_base w" by (rule recorded_work [OF s(1) c(1)])
  show thesis
    by (rule that [OF w(1) c(3)]) (use c w in \<open>auto simp: apply_declare_def rbind_Inr_iff\<close>)
qed

end
