(* ===== verification/Service_Props.thy ===== *)
theory Service_Props
  imports Service_Edits
begin

text \<open>
  The properties of the merge plane: versions kept for their readers, readers undisturbed by the
  requests of others, and a work's edits and renames read back as they were acknowledged.
\<close>

section \<open>A shard to try them on\<close>

definition demo_env :: env where
  "demo_env = \<lparr>ev_op_size = 8, ev_blake3 = (\<lambda>bs. bs), ev_xof = flat_xof, ev_claim = (\<lambda>_. 0), ev_claimable = 0\<rparr>"

definition green_id :: vid where "green_id = 7 # replicate 15 0"
definition first_work :: vid where "first_work = 8 # replicate 15 0"
definition second_work :: vid where "second_work = 9 # replicate 15 0"

lemmas demo_ids = green_id_def first_work_def second_work_def

definition demo_start :: shard where
  "demo_start = \<lparr>sh_partition = \<lparr>pt_volumes = [], pt_chains = [], pt_origins = [], pt_logs = [], pt_merge_bytes = 0,
      pt_merge_cap = 1000, pt_tombstones = [], pt_volume_cap = 8\<rparr>,
    sh_greens = [], sh_works = [], sh_retention = [], sh_pins = [], sh_placed = [], sh_budget = budget_new 1000 0\<rparr>"

definition with_green :: shard where
  "with_green = snd (create_green demo_env (Uid 1) ''g'' False (Some plain_origin) (Some green_id) demo_start)"

definition with_work :: shard where
  "with_work = snd (create_work (Uid 1) green_id ''v'' (Some first_work) with_green)"

definition demo_shard :: shard where
  "demo_shard = pin_head 1 green_id (snd (create_work (Uid 1) green_id ''w'' (Some second_work) with_work))"

definition demo_catalog :: "(vid, volume_record) btmap" where
  "demo_catalog = [(green_id, new_record ''g'' (RGreen False 0) (Uid 1)),
     (first_work, new_record ''v'' (RWork green_id 0 False) (Uid 1)), (second_work, new_record ''w'' (RWork green_id 0 False) (Uid 1))]"

definition demo_holds :: "nat \<Rightarrow> shard" where
  "demo_holds n = demo_start\<lparr>sh_partition := (sh_partition demo_start)\<lparr>pt_volumes := take n demo_catalog,
       pt_origins := [(green_id, plain_origin)]\<rparr>,
     sh_greens := [(green_id, set_rejected_budget 1000 demo_green)],
     sh_works := take (n - 1) [(first_work, fresh_work green_id 0), (second_work, fresh_work green_id 0)], sh_placed := [(green_id, 0)]\<rparr>"

lemma head_budget [simp]: "head (set_rejected_budget n g) = head g"
  by (rule chain_accounting(4) [OF budget_chain])

lemmas create_eval = db_mutate_def volume_by_name_def volume_slots_used_def log_of_def new_record_def sat_add_def u64_max_def
  demo_start_def demo_holds_def demo_catalog_def demo_ids demo_head

lemma with_green_is: "with_green = demo_holds 1"
  by (simp add: with_green_def create_green_def install_green_def enqueue_record_def rejected_cache_budget_def
      demo_env_def demo_green_def create_eval)

lemma with_work_is: "with_work = demo_holds 2"
  by (simp add: with_work_def with_green_is create_work_def require_green_def find_record_def rights_of_def create_eval)

lemma demo_shard_is: "demo_shard = (demo_holds 3)\<lparr>sh_pins := [(1, green_id, 0)]\<rparr>"
  by (simp add: demo_shard_def with_work_is create_work_def require_green_def find_record_def rights_of_def pin_head_def create_eval)

lemma demo_run: "service_run demo_env H demo_shard" "heads_fit demo_shard"
proof -
  have r: "reader st k w \<longleftrightarrow> (\<exists>x \<in> snd ` set (sh_works st). ws_green x = k \<and> ws_base x = w)" if "sh_pins st = []" for st k w
    using that by (auto simp: reader_def reader_versions_def bt_values_def)
  have "service_run demo_env H demo_start"
    by (rule started) (simp_all add: demo_start_def budget_new_def ledger_new_def budget_committed_def budget_capacity_def u64_max_def)
  then have "service_run demo_env H with_green" unfolding with_green_def
    by (rule green_made) (simp add: fresh_id_def r create_eval)
  then have "service_run demo_env H with_work" unfolding with_work_def
    by (rule work_made) (simp add: fresh_id_def r with_green_is create_eval)
  then have "service_run demo_env H (snd (create_work (Uid 1) green_id ''w'' (Some second_work) with_work))"
    by (rule work_made) (simp add: fresh_id_def r with_work_is create_eval fresh_work_def)
  then show "service_run demo_env H demo_shard" unfolding demo_shard_def
    by (rule attached) (simp add: with_work_is create_work_def require_green_def find_record_def rights_of_def create_eval)
  show "heads_fit demo_shard" by (simp add: heads_fit_def demo_shard_is demo_holds_def demo_head u64_max_def)
qed

lemma demo_inj: "inj_on (ev_blake3 demo_env) H"
  by (simp add: demo_env_def inj_on_def)

lemma demo_content_budget: "content_at (set_rejected_budget n demo_green) ''b'' 0 = Some [2, 3]"
  using later_green_chain [OF budget_chain [of n demo_green], of demo_env "{}" "\<lambda>_. True"] demo_content demo_head(1)
    with_origin_shape(17) [where s = plain_origin and xof = flat_xof]
  by (simp add: later_green_def demo_green_def)

section \<open>Versions and readers\<close>

text \<open>
  C27: Through any run of the merge plane whose hashed inputs do not collide, the version a work is
  based on and the version an attachment pins lie between the green's fold floor and its head, so
  they can be read.
\<close>

theorem readers_keep_versions:
  assumes "service_run ev H st" "inj_on (ev_blake3 ev) H" "bt_get (sh_greens st) k = Some g"
  shows "(\<forall>v w. bt_get (sh_works st) v = Some w \<and> ws_green w = k \<longrightarrow> g_folded_below g \<le> ws_base w \<and> ws_base w \<le> head g)
    \<and> (\<forall>a x. bt_get (sh_pins st) a = Some (k, x) \<longrightarrow> g_folded_below g \<le> x \<and> x \<le> head g)"
proof -
  have inv: "bt_ok (sh_works st)" "bt_ok (sh_pins st)" "readers_ok st"
    using run_inv [OF assms(1,2)] by (simp_all add: shard_inv_def)
  have "reader st k y \<Longrightarrow> g_folded_below g \<le> y \<and> y \<le> head g" for y using inv(3) assms(3) by (auto simp: readers_ok_def)
  then show ?thesis using reader_iff [OF inv(1,2)] by blast
qed

theorem readers_keep_versions_witness:
  "\<exists>g. bt_get (sh_greens demo_shard) green_id = Some g \<and> g_folded_below g \<le> 0 \<and> 0 \<le> head g"
proof -
  have g: "bt_get (sh_greens demo_shard) green_id = Some (set_rejected_budget 1000 demo_green)"
    and p: "bt_get (sh_pins demo_shard) 1 = Some (green_id, 0)"
    by (simp_all add: demo_shard_is demo_holds_def)
  show ?thesis using readers_keep_versions [OF demo_run(1) demo_inj [of "{}"] g] g p by blast
qed

text \<open>
  C28: A request on one work, whatever it is and however it is answered, changes neither what any
  other work reads nor what an attachment reads at the version it pins.
\<close>

theorem others_undisturbed:
  assumes "service_run ev H st" "heads_fit st" "inj_on (ev_blake3 ev) H" "hashed ev rq st \<subseteq> H"
  shows "(v = acts_on rq \<or> read_work (snd (dispatch ev rq st)) v p answer = read_work st v p answer)
    \<and> read_green (snd (dispatch ev rq st)) k p (AtAttachment a) = read_green st k p (AtAttachment a)"
  using work_unmoved [OF assms] pin_unmoved [OF assms] by blast

theorem others_undisturbed_witness:
  "read_work (snd (dispatch demo_env (ReqEdit (Uid 1) first_work ''b'' 0 1 [9]) demo_shard)) second_work ''b''
     (\<lambda>bytes _. ReadBytes bytes) = ReadBytes [2, 3]"
proof -
  let ?rq = "ReqEdit (Uid 1) first_work ''b'' 0 1 [9]"
  have "second_work \<noteq> acts_on ?rq" by (simp add: demo_ids)
  moreover have "read_work demo_shard second_work ''b'' (\<lambda>bytes _. ReadBytes bytes) = ReadBytes [2, 3]"
    by (simp add: demo_shard_is demo_holds_def fresh_work_def demo_ids Let_def read_work_def wf_get_def base_of_work_def base_file_def demo_content_budget)
  ultimately show ?thesis
    using others_undisturbed [OF demo_run demo_inj, of ?rq "{}" second_work "''b''" "\<lambda>bytes _. ReadBytes bytes"] by simp
qed

section \<open>A work's own changes\<close>

abbreviation reads_bytes :: "shard \<Rightarrow> vid \<Rightarrow> path \<Rightarrow> reply" where
  "reads_bytes st work p \<equiv> read_work st work p (\<lambda>bytes _. ReadBytes bytes)"

text \<open>
  C29: An edit answered \<open>Edited\<close> is the splice it names: the file at the canonical path reads the
  bytes it read before, or none, spliced at the clamped offsets, and every other path reads as it did.
\<close>

theorem edit_reads_back:
  assumes "edit_verb ev who work p at del bytes st = (Edited, st')"
  shows "reads_bytes st' work q = (if q = canonical_path p
     then ReadBytes (splice_bytes at del bytes (case reads_bytes st work q of ReadBytes old \<Rightarrow> old | _ \<Rightarrow> []))
     else reads_bytes st work q)"
proof -
  obtain w x where w: "bt_get (sh_works st) work = Some w" "bt_get (sh_works st') work = Some x"
    "wf_splice (base_of_work st w) (canonical_path p) (at, del) bytes (ws_files w) = Inr (ws_files x)"
    "base_of_work st' x = base_of_work st w" "ws_green x = ws_green w" "ws_base x = ws_base w"
    by (rule edit_applies [OF assms])
  note g = wf_splice_get [OF w(3), of q]
  show ?thesis
  proof (cases "q = canonical_path p")
    case True
    then show ?thesis using g by (simp add: read_work_def w view_def split: option.split sum.split)
  next
    case False
    then show ?thesis using g by (simp add: read_work_def w split: option.split sum.split)
  qed
qed

text \<open>The definitions a change on a concrete work unfolds.\<close>

lemmas change_eval = demo_shard_is demo_start_def demo_holds_def demo_catalog_def fresh_work_def new_record_def demo_ids demo_env_def
  demo_content_budget
  require_work_def find_record_def rights_of_def canonical_path_def base_of_work_def base_file_def wf_get_def
  record_work_change_def finish_change_def db_mutate_def merge_bytes_fit_def charge_grow_def make_room_def budget_deficit_def
  budget_grow_def ledger_take_def budget_new_def ledger_new_def ledger_admittable_def footprint_def file_footprint_def
  journal_footprint_def sat_add_def u64_max_def len_prefix_def uint_encode_def string_encode_def encode_bytes_def
  bt_contains_def Let_def

lemma demo_edited: "fst (edit_verb demo_env (Uid 1) first_work ''/b'' 1 1 [9, 9] demo_shard) = Edited"
  by (simp add: edit_verb_def edit_ops_def splice_delta_def apply_edit_def wf_splice_def change_eval)

lemma demo_reads: "reads_bytes demo_shard first_work ''b'' = ReadBytes [2, 3]"
  by (simp add: demo_shard_is demo_holds_def fresh_work_def demo_ids Let_def read_work_def wf_get_def base_of_work_def base_file_def demo_content_budget)

theorem edit_reads_back_witness:
  "reads_bytes (snd (edit_verb demo_env (Uid 1) first_work ''/b'' 1 1 [9, 9] demo_shard)) first_work ''b'' = ReadBytes [2, 9, 9]"
proof -
  obtain st' where e: "edit_verb demo_env (Uid 1) first_work ''/b'' 1 1 [9, 9] demo_shard = (Edited, st')"
    using demo_edited by (metis prod.collapse)
  show ?thesis unfolding e snd_conv using edit_reads_back [OF e, of "''b''"]
    by (simp add: demo_reads canonical_path_def splice_bytes_def sat_add_def u64_max_def)
qed

text \<open>
  C30: A rename answered \<open>Declared\<close> moves the file: what the source read is read at the target, the
  source is gone, every other path reads as it did, and a source that named no file changes nothing.
\<close>

theorem rename_reads_back:
  assumes "declare_verb ev who work (WRename p q) st = (Declared, st')" "canonical_path p \<noteq> canonical_path q"
  shows "reads_bytes st' work s = (case reads_bytes st work (canonical_path p) of
     ReadBytes bytes \<Rightarrow> if s = canonical_path q then ReadBytes bytes else if s = canonical_path p then Refused NotFound
       else reads_bytes st work s
   | _ \<Rightarrow> reads_bytes st work s)"
proof -
  obtain w x where w: "bt_get (sh_works st) work = Some w" "bt_get (sh_works st') work = Some x"
    "wf_declare (base_of_work st w) (declared_op (WRename p q)) (ws_files w) = Inr (ws_files x)"
    "base_of_work st' x = base_of_work st w" "ws_green x = ws_green w" "ws_base x = ws_base w"
    by (rule declare_applies [OF assms(1)])
  note g = wf_rename_get [OF w(3) [unfolded declared_op.simps] assms(2), of s]
  show ?thesis
    using g by (simp add: read_work_def w view_def split: option.split sum.split)
qed

lemma demo_renamed: "fst (declare_verb demo_env (Uid 1) first_work (WRename ''b'' ''c'') demo_shard) = Declared"
  by (simp add: declare_verb_def apply_declare_def wf_removal_def held_after_removal_def remove_as_def change_eval)

theorem rename_reads_back_witness:
  "reads_bytes (snd (declare_verb demo_env (Uid 1) first_work (WRename ''b'' ''c'') demo_shard)) first_work ''c'' = ReadBytes [2, 3]"
proof -
  obtain st' where e: "declare_verb demo_env (Uid 1) first_work (WRename ''b'' ''c'') demo_shard = (Declared, st')"
    using demo_renamed by (metis prod.collapse)
  show ?thesis unfolding e snd_conv using rename_reads_back [OF e, of "''c''"] by (simp add: demo_reads canonical_path_def)
qed

end
