(* ===== verification/Service_Findings.thy ===== *)
theory Service_Findings
  imports Merge_Reads Findings
begin

text \<open>
  Behaviours of the merge service that lose bytes or that its comments exclude, each on a concrete
  input of the model.
\<close>

section \<open>The post-state of a work edited twice\<close>

text \<open>
  The deriver names an added run by its place in the final file (\<open>src\<close>) and places it in the base
  (\<open>at\<close>); \<open>assemble_post_state\<close> reads the final file at the place in the base. A work over \<open>2, 3\<close>
  inserted five bytes in front, then \<open>99\<close> between the two base bytes: the increment carries a byte of
  the first insert in place of \<open>99\<close>, and the green it is applied to differs from what the work reads.
\<close>

definition twice_edited :: work_files where
  "twice_edited = [(''b'', Some [10, 11, 12, 13, 14, 2, 99, 3])]"

definition twice_doc :: ops_doc where
  "twice_doc = \<lparr>doc_paths = [''b''], doc_ops = compose_content 2 [CInsert 0 5, CInsert 6 1]\<rparr>"

lemma twice_composed: "compose_content 2 [CInsert 0 5, CInsert 6 1] = [op_of KInsert 0 5 0, op_of KInsert 1 1 6]"
  by (simp add: compose_content_def compose_content_sized_def insert_new_def split_at_def vec_insert_def read_out_def
      emit_def net_op_def op_of_def pieces_len_def sat_add_def u64_max_def Let_def)

theorem second_edit_miscopied:
  "assemble_post_state twice_doc twice_edited b [] = [10, 11, 12, 13, 14, 0, 11]
   \<and> apply_ops [2, 3] (doc_ops twice_doc) (assemble_post_state twice_doc twice_edited b []) = [10, 11, 12, 13, 14, 2, 11, 3]"
  unfolding twice_doc_def twice_composed
  by (simp add: assemble_post_state_def post_size_def copy_op_def op_source_def is_file_content_def twice_edited_def path_at_def
      list_get_def wf_get_def op_of_def small_ops)

section \<open>A read below the fold floor\<close>

text \<open>
  \<open>advance\<close> refuses a version below the fold floor as not reconstructible. A read at such a version
  is served: the file the version held is answered as missing.
\<close>

definition holding :: "green \<Rightarrow> shard" where
  "holding g = \<lparr>sh_partition = \<lparr>pt_volumes = [], pt_chains = [], pt_origins = [], pt_logs = [], pt_merge_bytes = 0, pt_merge_cap = 0,
       pt_tombstones = [], pt_volume_cap = 8\<rparr>,
     sh_greens = [([7], g)], sh_works = [], sh_retention = [], sh_pins = [], sh_placed = [], sh_budget = budget_new 0 0\<rparr>"

definition folded_green :: green where
  "folded_green = snd (fold_history_before flat_xof 1 demo_green')"

theorem folded_version_read:
  "read_green (holding demo_green') [7] ''b'' (AtVersion 0) = ReadBytes [2, 3]
   \<and> green_version (holding folded_green) folded_green [7] (AtVersion 0) = Inr 0
   \<and> read_green (holding folded_green) [7] ''b'' (AtVersion 0) = Refused NotFound"
proof -
  have d: "demo_green' = snd (submit demo_edit (one_file (g_identity demo_green)))"
    unfolding demo_green'_def by (subst demo_one_file) simp
  show ?thesis
    unfolding folded_green_def d [unfolded one_file_submit snd_conv]
    by (simp add: fold_identity_def list_get_def holding_def read_green_def green_version_def one_file_def head_def content_at_def value_at_def history_at_def
        fold_history_before_def fold_table_def fold_entries_def Let_def)
qed

section \<open>A submit refused after the chain moved\<close>

text \<open>
  \<open>submit\<close> checks the chain record and the restatement each against the partition as it is, so that
  the whole is refused before the verdict. Recorded after the chain record, the restatement of a work
  whose log is shorter than it no longer fits: the version is accepted and recorded, and the answer
  is a refusal.
\<close>

definition full_partition :: "byte list \<Rightarrow> partition" where
  "full_partition chain_record = \<lparr>pt_volumes = [([7], new_record ''g'' (RGreen False 0) (Uid 1)),
       ([8], new_record ''w'' (RWork [7] 0 False) (Uid 1))],
     pt_chains = [], pt_origins = [], pt_logs = [([8], [entry_encode (LogDeclared (LUnlink ''b''))])], pt_merge_bytes = 13,
     pt_merge_cap = 13 + length chain_record, pt_tombstones = [], pt_volume_cap = 8\<rparr>"

theorem accept_refused_after_record:
  "\<forall>bytes. 7 \<le> length bytes \<and> length bytes < 1000 \<longrightarrow>
     partition_check (full_partition bytes) (GreenAdvanced [7] bytes) = None
     \<and> partition_check (full_partition bytes) (restatement [8] (accepted_restatement 0)) = None
     \<and> (let (r, st') = finish_accept ev [8] [7] (GreenAdvanced [7] bytes) 1 ((holding g)\<lparr>sh_partition := full_partition bytes\<rparr>)
        in r = Refused (BadRequest ''green_chains at capacity'') \<and> log_of (pt_chains (sh_partition st')) [7] = [bytes])"
  by (auto simp: full_partition_def holding_def finish_accept_def restatement_def accepted_restatement_def db_mutate_def
      merge_bytes_fit_def work_log_bytes_def log_of_def refusal_of_db_def len_prefix_def uint_encode_def string_encode_def vec_encode_def
      sat_add_def u64_max_def)

end
