(* ===== verification/Reserve.thy ===== *)
theory Reserve
  imports Engine_Props
begin

text \<open>
  The reservation of an increment covers what accepting it adds to the histories: the service secures
  \<open>history_reservation\<close> before it submits, and the commit charges no more.
\<close>

section \<open>What a commit charges\<close>

definition path_bytes :: "green \<Rightarrow> path \<Rightarrow> nat" where
  "path_bytes g p = (case bt_get (g_content g) p of None \<Rightarrow> 0 | Some bs \<Rightarrow> length bs)"

definition node_bytes :: "green \<Rightarrow> path \<Rightarrow> nat" where
  "node_bytes g p = (if bt_contains (g_specials g) p then special_node_bytes else 0)"

fun touched_node :: "effect \<Rightarrow> path list" where
  "touched_node (Special p node) = [p]"
| "touched_node (RemoveSpecial p) = [p]"
| "touched_node _ = []"

definition nodes_of :: "effect list \<Rightarrow> path list" where
  "nodes_of es = concat (map touched_node es)"

definition sets_of :: "effect list \<Rightarrow> path list" where
  "sets_of es = map fst (concat (map staged_set es))"

definition removes_of :: "effect list \<Rightarrow> path list" where
  "removes_of es = concat (map staged_remove es)"

lemma of_append [simp]:
  "nodes_of (a @ b) = nodes_of a @ nodes_of b" "sets_of (a @ b) = sets_of a @ sets_of b"
  "removes_of (a @ b) = removes_of a @ removes_of b" "nodes_of [] = []" "sets_of [] = []" "removes_of [] = []"
  by (simp_all add: nodes_of_def sets_of_def removes_of_def)

lemma sat_add_bound: "sat_add a b \<le> a + b"
  by (simp add: sat_add_def)

lemma drop_mode_bytes [simp]: "g_history_bytes (drop_mode p v g) = g_history_bytes g" "g_content (drop_mode p v g) = g_content g"
    "g_specials (drop_mode p v g) = g_specials g"
  by (simp_all add: drop_mode_def mark_def)

lemma drop_xattrs_bytes [simp]: "g_history_bytes (fold (drop_xattr v) ks g) = g_history_bytes g"
    "g_content (fold (drop_xattr v) ks g) = g_content g" "g_specials (fold (drop_xattr v) ks g) = g_specials g"
  by (induction ks arbitrary: g) (simp_all add: drop_xattr_def mark_def)

lemma charge_fields [simp]: "g_content (charge n g) = g_content g" "g_specials (charge n g) = g_specials g"
    "g_xattrs (charge n g) = g_xattrs g" "g_history_bytes (charge n g) = sat_add (g_history_bytes g) n"
  by (simp_all add: charge_def)

lemma mark_fields [simp]: "g_content (mark k g) = g_content g" "g_specials (mark k g) = g_specials g" "g_history_bytes (mark k g) = g_history_bytes g"
  by (simp_all add: mark_def)

lemma node_bytes_mark [simp]: "node_bytes (mark k g) = node_bytes g"
  by (simp add: node_bytes_def fun_eq_iff)

lemma commit_special_bytes:
  "g_history_bytes (commit_special p node v g) \<le> g_history_bytes g + node_bytes g p"
  "g_content (commit_special p node v g) = g_content g"
  "g_specials (commit_special p node v g) = bt_insert p node (g_specials g)"
  by (simp_all add: commit_special_def node_bytes_def sat_add_bound Let_def)

lemma remove_special_bytes:
  "g_history_bytes (remove_special p v g) \<le> g_history_bytes g + node_bytes g p"
  "g_content (remove_special p v g) = g_content g"
  "g_specials (remove_special p v g) = bt_remove p (g_specials g)"
  by (simp_all add: remove_special_def node_bytes_def sat_add_bound Let_def)

lemma commit_now_bytes:
  "g_history_bytes (commit_now v e g) \<le> g_history_bytes g + (\<Sum>p\<leftarrow>touched_node e. node_bytes g p)"
  "g_content (commit_now v e g) = g_content g"
  "q \<notin> set (touched_node e) \<Longrightarrow> node_bytes (commit_now v e g) q = node_bytes g q"
  subgoal by (cases e) (simp_all add: commit_special_bytes remove_special_bytes)
  subgoal by (cases e) (simp_all add: commit_special_bytes remove_special_bytes)
  subgoal by (cases e) (simp_all add: node_bytes_def bt_contains_def commit_special_bytes(3) remove_special_bytes(3))
  done

lemma effects_bytes:
  assumes "distinct (nodes_of es)" "fold (commit_effect v) es (g, rs, ss) = (g', rs', ss')"
  shows "g_history_bytes g' \<le> g_history_bytes g + (\<Sum>p\<leftarrow>nodes_of es. node_bytes g p) \<and> g_content g' = g_content g
    \<and> rs' = rs @ removes_of es \<and> ss' = ss @ concat (map staged_set es)"
  using assms
proof (induction es arbitrary: g rs ss)
  case Nil
  then show ?case by simp
next
  case (Cons e es)
  let ?h = "commit_now v e (mark (effect_key e) g)"
  have n: "nodes_of (e # es) = touched_node e @ nodes_of es" by (simp add: nodes_of_def)
  then have "map (node_bytes ?h) (nodes_of es) = map (node_bytes g) (nodes_of es)"
    using Cons.prems(1) commit_now_bytes(3) [of _ e v "mark (effect_key e) g"] unfolding node_bytes_mark by (auto simp: disjoint_iff)
  moreover have "fold (commit_effect v) es (?h, rs @ staged_remove e, ss @ staged_set e) = (g', rs', ss')"
    using Cons.prems(2) commit_effect_def [of v e "(g, rs, ss)"] by simp
  then have "g_history_bytes g' \<le> g_history_bytes ?h + (\<Sum>p\<leftarrow>nodes_of es. node_bytes ?h p) \<and> g_content g' = g_content ?h
    \<and> rs' = (rs @ staged_remove e) @ removes_of es \<and> ss' = (ss @ staged_set e) @ concat (map staged_set es)"
    using Cons.prems(1) n by (intro Cons.IH) simp_all
  ultimately show ?case
    using commit_now_bytes(1,2) [of v e "mark (effect_key e) g"] by (simp add: n removes_of_def del: map_eq_conv)
qed

lemma removals_bytes:
  "g_history_bytes (fold (remove_content v) ps g) \<le> g_history_bytes g + (\<Sum>p\<in>set ps. path_bytes g p)
   \<and> (\<forall>q. path_bytes (fold (remove_content v) ps g) q = (if q \<in> set ps then 0 else path_bytes g q))"
proof (induction ps arbitrary: g)
  case (Cons p ps)
  let ?h = "remove_content v p g"
  have h: "g_history_bytes ?h \<le> g_history_bytes g + path_bytes g p" "path_bytes ?h q = (if q = p then 0 else path_bytes g q)" for q
    by (auto simp: remove_content_def charge_def path_bytes_def sat_add_bound Let_def split: option.split)
  have "(\<Sum>q\<in>set ps. path_bytes ?h q) + path_bytes g p = (\<Sum>q\<in>set (p # ps). path_bytes g q)"
  proof (cases "p \<in> set ps")
    case True
    have "(\<Sum>q\<in>set ps. path_bytes ?h q) = (\<Sum>q\<in>set ps - {p}. path_bytes g q)"
      by (rule sum.mono_neutral_cong_right) (use True in \<open>auto simp: h(2)\<close>)
    then show ?thesis using True by (simp add: insert_absorb sum.remove)
  next
    case False
    then have "(\<Sum>q\<in>set ps. path_bytes ?h q) = (\<Sum>q\<in>set ps. path_bytes g q)" by (intro sum.cong) (auto simp: h)
    then show ?thesis using False by simp
  qed
  then show ?case using Cons.IH [of ?h] h by (auto simp: add.assoc)
qed simp

lemma sets_bytes:
  assumes "distinct (map fst ss)"
  shows "g_history_bytes (fold (set_content v) ss g) \<le> g_history_bytes g + (\<Sum>p\<leftarrow>map fst ss. path_bytes g p)"
  using assms
proof (induction ss arbitrary: g)
  case (Cons s ss)
  let ?h = "set_content v s g"
  have h: "g_history_bytes ?h \<le> g_history_bytes g + path_bytes g (fst s)" "q \<noteq> fst s \<Longrightarrow> path_bytes ?h q = path_bytes g q" for q
    by (cases s; auto simp: set_content_def charge_def path_bytes_def sat_add_bound Let_def split: option.split)+
  have "map (path_bytes ?h) (map fst ss) = map (path_bytes g) (map fst ss)"
    using Cons.prems by (intro map_cong refl h(2)) force
  then show ?case using Cons.IH [of ?h] Cons.prems h(1) by (simp del: map_eq_conv map_map)
qed simp

theorem commit_bytes:
  assumes "distinct (nodes_of es)" "distinct (sets_of es)"
  shows "g_history_bytes (commit es v g)
    \<le> g_history_bytes g + (\<Sum>p\<in>set (removes_of es) \<union> set (sets_of es). path_bytes g p) + (\<Sum>p\<in>set (nodes_of es). node_bytes g p)"
proof -
  obtain g1 rs ss where f: "fold (commit_effect v) es (g, [], []) = (g1, rs, ss)" by (rule prod_cases3)
  note e = effects_bytes [OF assms(1) f]
  let ?R = "set (removes_of es)" and ?S = "set (sets_of es)" and ?g2 = "fold (remove_content v) rs g1"
  have ss: "map fst ss = sets_of es" "rs = removes_of es" using e by (simp_all add: sets_of_def)
  have pb: "path_bytes g1 = path_bytes g" using e by (simp add: fun_eq_iff path_bytes_def)
  note r = removals_bytes [where v = v and ps = rs and g = g1]
  have "(\<Sum>p\<leftarrow>sets_of es. path_bytes ?g2 p) = (\<Sum>p\<in>?S. path_bytes ?g2 p)" using assms(2) by (simp add: sum_list_distinct_conv_sum_set)
  also have "\<dots> = (\<Sum>p\<in>?S - ?R. path_bytes g p)"
    using r ss(2) pb by (intro sum.mono_neutral_cong_right) auto
  finally have s: "g_history_bytes (fold (set_content v) ss ?g2) \<le> g_history_bytes ?g2 + (\<Sum>p\<in>?S - ?R. path_bytes g p)"
    using sets_bytes [of ss v ?g2] assms(2) ss(1) by simp
  have "(\<Sum>p\<in>?R \<union> ?S. path_bytes g p) = (\<Sum>p\<in>?R. path_bytes g p) + (\<Sum>p\<in>?S - ?R. path_bytes g p)"
    using sum.union_disjoint [of ?R "?S - ?R" "path_bytes g"] by (simp add: Un_Diff_cancel)
  moreover have "g_history_bytes ?g2 \<le> g_history_bytes g1 + (\<Sum>p\<in>?R. path_bytes g p)" using r ss(2) pb by simp
  moreover have "g_history_bytes g1 \<le> g_history_bytes g + (\<Sum>p\<in>set (nodes_of es). node_bytes g p)"
    using e assms(1) by (simp add: sum_list_distinct_conv_sum_set)
  ultimately show ?thesis using s by (simp add: commit_def f Let_def)
qed

section \<open>What a verdict stages\<close>

text \<open>A pass of the verdict appends, for each of its entries, effects of the entry's shape.\<close>

definition passes :: "('a \<Rightarrow> effect list \<Rightarrow> bool) \<Rightarrow> 'a list \<Rightarrow> findings \<Rightarrow> findings \<Rightarrow> bool" where
  "passes P xs acc acc' \<longleftrightarrow> (\<exists>ess ws. acc' = (fst acc @ concat ess, snd acc @ ws) \<and> list_all2 P xs ess)"

lemma passes_fold:
  assumes "\<And>x acc. x \<in> set xs \<Longrightarrow> passes P [x] acc (f x acc)"
  shows "passes P xs acc (fold f xs acc)"
  using assms
proof (induction xs arbitrary: acc)
  case (Cons x xs)
  obtain es ws where 1: "f x acc = (fst acc @ es, snd acc @ ws)" "P x es"
    using Cons.prems [of x acc] by (auto simp: passes_def list_all2_Cons1)
  obtain ess ws' where "fold f xs (f x acc) = (fst (f x acc) @ concat ess, snd (f x acc) @ ws')" "list_all2 P xs ess"
    using Cons.IH [of "f x acc"] Cons.prems by (auto simp: passes_def)
  then show ?case using 1 by (auto simp: passes_def intro!: exI [of _ "es # ess"])
qed (auto simp: passes_def prod_eq_iff)

lemma passesI: "P x es \<Longrightarrow> acc' = (fst acc @ es, snd acc @ ws) \<Longrightarrow> passes P [x] acc acc'"
  unfolding passes_def by (rule exI [of _ "[es]"]) auto

lemma passes_result:
  assumes "\<And>e. r = Inr (Some e) \<Longrightarrow> P x [e]" "P x []"
  shows "passes P [x] acc (record_result r acc)"
proof (cases r)
  case (Inl w)
  then show ?thesis using assms(2) by (intro passesI [where es = "[]" and ws = "[w]"]) (simp_all add: record_result_def case_prod_unfold)
next
  case (Inr d)
  then show ?thesis using assms by (cases d)
    (auto simp: record_result_def case_prod_unfold intro: passesI [where es = "[]" and ws = "[]"] passesI [where ws = "[]"])
qed

lemma passes_rename:
  assumes "\<And>es. r = Inr es \<Longrightarrow> P x es" "P x []"
  shows "passes P [x] acc (record_rename r acc)"
proof (cases r)
  case (Inl w)
  then show ?thesis using assms(2) by (intro passesI [where es = "[]" and ws = "[w]"]) (simp_all add: record_rename_def case_prod_unfold)
next
  case (Inr es)
  then show ?thesis using assms(1) by (intro passesI [where es = es and ws = "[]"]) (simp_all add: record_rename_def case_prod_unfold)
qed

text \<open>At most the one path of its entry.\<close>

definition at_most :: "path \<Rightarrow> path list \<Rightarrow> bool" where
  "at_most p ps \<longleftrightarrow> ps = [] \<or> ps = [p]"

lemma keyed_concat:
  assumes "list_all2 (\<lambda>x es. at_most (k x) (f es)) xs ess" "distinct (map k xs)"
  shows "distinct (concat (map f ess))" "set (concat (map f ess)) \<subseteq> k ` set xs"
proof -
  have "distinct (concat (map f ess)) \<and> set (concat (map f ess)) \<subseteq> k ` set xs"
    using assms
  proof (induction xs ess rule: list_all2_induct)
    case (Cons x xs es ess)
    then show ?case by (auto simp: at_most_def) blast
  qed simp
  then show "distinct (concat (map f ess))" "set (concat (map f ess)) \<subseteq> k ` set xs" by simp_all
qed

lemma concat_of: "nodes_of (concat ess) = concat (map nodes_of ess)" "sets_of (concat ess) = concat (map sets_of ess)"
    "removes_of (concat ess) = concat (map removes_of ess)"
  by (induction ess) simp_all

lemma one_of [simp]: "nodes_of [e] = touched_node e" "sets_of [e] = map fst (staged_set e)" "removes_of [e] = staged_remove e"
  by (simp_all add: nodes_of_def sets_of_def removes_of_def)

definition shape :: "path list \<Rightarrow> path list \<Rightarrow> path list \<Rightarrow> effect list \<Rightarrow> bool" where
  "shape n s r es \<longleftrightarrow> (nodes_of es = [] \<or> nodes_of es = n) \<and> (sets_of es = [] \<or> sets_of es = s) \<and> (removes_of es = [] \<or> removes_of es = r)"

lemma shape_Nil [simp]: "shape n s r []"
  by (simp add: shape_def)

lemma merge_shapes:
  "merge_special g p b node = Inr (Some e) \<Longrightarrow> shape [p] [] [] [e]"
  "merge_create g p bytes = Inr (Some e) \<Longrightarrow> shape [] [p] [] [e]"
  "merge_unlink g p b = Inr (Some e) \<Longrightarrow> shape [p] [] [p] [e]"
  "merge_mkdir g p = Inr (Some e) \<Longrightarrow> shape [] [] [] [e]"
  "merge_rmdir g p gone = Inr (Some e) \<Longrightarrow> shape [] [] [] [e]"
  "merge_setmode g p b md est = Inr (Some e) \<Longrightarrow> shape [] [] [] [e]"
  "merge_symlink g p b t = Inr (Some e) \<Longrightarrow> shape [] [] [] [e]"
  "merge_hardlink g p b t = Inr (Some e) \<Longrightarrow> shape [] [] [] [e]"
  "merge_set_xattr g p n b v est = Inr (Some e) \<Longrightarrow> shape [] [] [] [e]"
  "merge_remove_xattr g p n b = Inr (Some e) \<Longrightarrow> shape [] [] [] [e]"
  by (auto simp: shape_def merge_special_def merge_create_def merge_unlink_def merge_mkdir_def merge_rmdir_def merge_setmode_def
    merge_symlink_def merge_hardlink_def merge_set_xattr_def merge_remove_xattr_def Let_def split: if_splits option.splits)

lemma rename_shape: "merge_rename g dst b from = Inr es \<Longrightarrow> shape [] [dst] [from] es"
  by (auto simp: shape_def merge_rename_def nodes_of_def sets_of_def removes_of_def split: if_splits option.splits)

lemma content_shape: "fst (merge_content inc p ops g) = Inr (Some e) \<Longrightarrow> shape [] [p] [] [e]"
  by (auto simp: shape_def merge_content_def judge_content_def Let_def case_prod_unfold split: if_splits option.splits)

definition edit_shape :: "resolved \<Rightarrow> path \<times> op list \<Rightarrow> effect list \<Rightarrow> bool" where
  "edit_shape r e es \<longleftrightarrow> shape [] [fst e] [] es \<and> (es \<noteq> [] \<longrightarrow> \<not> bs_mem (rs_creates r) (fst e) \<and> \<not> bt_contains (rs_renames r) (fst e))"

lemma edit_passes: "passes (edit_shape r) [e] (fst st) (fst (decide_edit inc r e st))"
proof -
  obtain p ops effects windows g where st: "e = (p, ops)" "st = ((effects, windows), g)" by (metis surj_pair)
  obtain d g' where m: "merge_content inc p ops g = (d, g')" by fastforce
  show ?thesis
  proof (cases "bs_mem (rs_creates r) p \<or> bt_contains (rs_renames r) p")
    case True
    then show ?thesis by (intro passesI [where es = "[]" and ws = "[]"]) (auto simp: decide_edit_def st edit_shape_def)
  next
    case False
    have "shape [] [p] [] [f]" if "d = Inr (Some f)" for f using content_shape [of inc p ops g f] m that by simp
    then show ?thesis
    proof (cases d)
      case (Inl found)
      then show ?thesis using False
        by (intro passesI [where es = "[]" and ws = found]) (auto simp: decide_edit_def st m edit_shape_def)
    next
      case (Inr f)
      then show ?thesis using False \<open>\<And>f. _ \<Longrightarrow> shape [] [p] [] [f]\<close>
        by (intro passesI [where es = "case f of None \<Rightarrow> [] | Some f \<Rightarrow> [f]" and ws = "[]"])
          (auto simp: decide_edit_def st m edit_shape_def split: option.split)
    qed
  qed
qed

lemma edits_pass: "passes (edit_shape r) es (fst st) (fst (fold (decide_edit inc r) es st))"
proof (induction es arbitrary: st)
  case (Cons e es)
  obtain x ws where 1: "fst (decide_edit inc r e st) = (fst (fst st) @ x, snd (fst st) @ ws)" "edit_shape r e x"
    using edit_passes [of r e st inc] by (auto simp: passes_def list_all2_Cons1)
  obtain ess ws' where "fst (fold (decide_edit inc r) es (decide_edit inc r e st)) = (fst (fst st) @ x @ concat ess, snd (fst st) @ ws @ ws')"
    "list_all2 (edit_shape r) es ess" using Cons.IH [of "decide_edit inc r e st"] by (auto simp: passes_def 1(1))
  then show ?case using 1(2) by (auto simp: passes_def intro!: exI [of _ "x # ess"])
qed (auto simp: passes_def prod_eq_iff)

text \<open>The directory and metadata passes stage nothing.\<close>

definition plain :: "findings \<Rightarrow> findings \<Rightarrow> bool" where
  "plain acc acc' \<longleftrightarrow> (\<exists>es ws. acc' = (fst acc @ es, snd acc @ ws) \<and> shape [] [] [] es)"

lemma plain_trans: "plain a b \<Longrightarrow> plain b c \<Longrightarrow> plain a c"
  by (auto simp: plain_def shape_def)

lemma plain_fold:
  assumes "\<And>x e. f x = Inr (Some e) \<Longrightarrow> shape [] [] [] [e]"
  shows "plain acc (fold (\<lambda>x. record_result (f x)) xs acc)"
proof -
  have "passes (\<lambda>_. shape [] [] []) xs acc (fold (\<lambda>x. record_result (f x)) xs acc)"
    by (rule passes_fold, rule passes_result) (simp_all add: assms)
  then obtain ess ws where e: "fold (\<lambda>x. record_result (f x)) xs acc = (fst acc @ concat ess, snd acc @ ws)"
    "list_all2 (\<lambda>_. shape [] [] []) xs ess" by (auto simp: passes_def)
  from e(2) have "shape [] [] [] (concat ess)" by (induction rule: list_all2_induct) (auto simp: shape_def)
  then show ?thesis using e(1) by (auto simp: plain_def)
qed

lemma plain_directories: "plain acc (decide_directories g r acc)"
  unfolding decide_directories_def Let_def by (rule plain_trans; rule plain_fold) (rule merge_shapes; assumption)+

lemma plain_metadata: "plain acc (decide_metadata g inc r acc)"
proof -
  have "plain a (fold (\<lambda>(p, md). record_result (merge_setmode g p (inc_base inc) md (establishes r p))) xs a)"
    "plain a (fold (\<lambda>(p, t). record_result (merge_symlink g p (inc_base inc) t)) ys a)"
    "plain a (fold (\<lambda>(p, t). record_result (merge_hardlink g p (inc_base inc) t)) ys a)"
    "plain a (fold (\<lambda>(p, n, v). record_result (merge_set_xattr g p n (inc_base inc) v (establishes r p))) zs a)"
    "plain a (fold (\<lambda>(p, n). record_result (merge_remove_xattr g p n (inc_base inc))) us a)" for a xs ys zs us
    using plain_fold [of "\<lambda>(p, md). merge_setmode g p (inc_base inc) md (establishes r p)"]
      plain_fold [of "\<lambda>(p, t). merge_symlink g p (inc_base inc) t"] plain_fold [of "\<lambda>(p, t). merge_hardlink g p (inc_base inc) t"]
      plain_fold [of "\<lambda>(p, n, v). merge_set_xattr g p n (inc_base inc) v (establishes r p)"]
      plain_fold [of "\<lambda>(p, n). merge_remove_xattr g p n (inc_base inc)"] merge_shapes(6-10)
    by (simp_all add: case_prod_unfold)
  note p = this
  show ?thesis unfolding decide_metadata_def Let_def
    by (rule plain_trans [OF plain_trans [OF plain_trans [OF plain_trans [OF p(1) p(2)] p(3)] p(4)] p(5)])
qed

lemma decide_stages:
  assumes "decide inc r g = (Inr es, g')"
  obtains a b c d e f where "rs_invalid r = []" "es = concat a @ concat b @ concat c @ concat d @ concat e @ f"
    "list_all2 (\<lambda>x. shape [fst x] [] []) (rs_specials r) a" "list_all2 (\<lambda>x. shape [] [fst x] [snd x]) (rs_renames r) b"
    "list_all2 (\<lambda>p. shape [] [p] []) (rs_creates r) c" "list_all2 (\<lambda>p. shape [p] [] [p]) (rs_unlinks r) d"
    "list_all2 (edit_shape r) (rs_content r) e" "shape [] [] [] f"
proof -
  define acc0 :: findings where "acc0 = ([], map (\<lambda>p. window p TypeChanged) (rs_invalid r @ unfit_content g inc r))"
  define acc1 where "acc1 = fold (\<lambda>(p, node). record_result (merge_special g p (inc_base inc) node)) (rs_specials r) acc0"
  define acc2 where "acc2 = fold (\<lambda>(dst, from). record_rename (merge_rename g dst (inc_base inc) from)) (rs_renames r) acc1"
  define acc3 where "acc3 = fold (\<lambda>p. record_result (merge_create g p
    (apply_ops [] (unwrap_or (bt_get (rs_content r) p) []) (inc_post inc)))) (rs_creates r) acc2"
  define acc4 where "acc4 = fold (\<lambda>p. record_result (merge_unlink g p (inc_base inc))) (rs_unlinks r) acc3"
  obtain acc5 h where 5: "fold (decide_edit inc r) (rs_content r) (acc4, g) = (acc5, h)" by fastforce
  define acc6 where "acc6 = decide_metadata h inc r (decide_directories h r acc5)"
  have "decide_content inc r (acc1, g) = (acc5, h)"
    unfolding decide_content_def Let_def prod.case acc2_def [symmetric] acc3_def [symmetric] acc4_def [symmetric] by (rule 5)
  then have "decide inc r g = (if snd acc6 = [] then Inr (fst acc6) else Inl (snd acc6), h)"
    unfolding decide_def Let_def acc0_def [symmetric] acc1_def [symmetric] by (simp add: acc6_def case_prod_unfold)
  then have fin: "snd acc6 = []" "es = fst acc6" using assms by (simp_all split: if_splits)
  have "passes (\<lambda>x. shape [fst x] [] []) (rs_specials r) acc0 acc1" unfolding acc1_def case_prod_unfold
    by (rule passes_fold, rule passes_result) (simp_all add: merge_shapes)
  moreover have "passes (\<lambda>x. shape [] [fst x] [snd x]) (rs_renames r) acc1 acc2" unfolding acc2_def case_prod_unfold
    by (rule passes_fold, rule passes_rename) (simp_all add: rename_shape)
  moreover have "passes (\<lambda>p. shape [] [p] []) (rs_creates r) acc2 acc3" unfolding acc3_def
    by (rule passes_fold, rule passes_result) (simp_all add: merge_shapes)
  moreover have "passes (\<lambda>p. shape [p] [] [p]) (rs_unlinks r) acc3 acc4" unfolding acc4_def
    by (rule passes_fold, rule passes_result) (simp_all add: merge_shapes)
  moreover have "passes (edit_shape r) (rs_content r) acc4 acc5" using edits_pass [of r "rs_content r" "(acc4, g)" inc] by (simp add: 5)
  moreover have "plain acc5 acc6" unfolding acc6_def by (rule plain_trans [OF plain_directories plain_metadata])
  ultimately show ?thesis using that fin unfolding passes_def plain_def acc0_def
    by (elim exE conjE) (simp add: acc0_def)
qed

section \<open>The paths an increment names\<close>

text \<open>
  A document as the deriver seals it: every index in its table, and no path both created and
  renamed onto.
\<close>

definition sealed_doc :: "ops_doc \<Rightarrow> bool" where
  "sealed_doc d \<longleftrightarrow> doc_indexed d \<and> (\<forall>p\<in>set (doc_ops d). \<forall>q\<in>set (doc_ops d).
     op_kind p = KCreate \<and> op_kind q = KRename \<longrightarrow> op_path p \<noteq> op_path q)"

definition reserved_set :: "ops_doc \<Rightarrow> path set" where
  "reserved_set d = set (concat (map (reserved_paths d) (doc_ops d)))"

definition named_by :: "ops_doc \<Rightarrow> opkind \<Rightarrow> path set" where
  "named_by d k = {doc_paths d ! op_path p | p. p \<in> set (doc_ops d) \<and> op_kind p = k}"

definition resolved_within :: "ops_doc \<Rightarrow> resolved \<Rightarrow> bool" where
  "resolved_within d r \<longleftrightarrow> bt_ok (rs_specials r) \<and> bt_ok (rs_renames r) \<and> bs_ok (rs_creates r) \<and> bs_ok (rs_unlinks r) \<and> bt_ok (rs_content r)
     \<and> fst ` set (rs_specials r) \<subseteq> reserved_set d \<and> fst ` set (rs_content r) \<subseteq> reserved_set d
     \<and> set (rs_creates r) \<subseteq> reserved_set d \<inter> named_by d KCreate \<and> set (rs_unlinks r) \<subseteq> reserved_set d
     \<and> fst ` set (rs_renames r) \<subseteq> reserved_set d \<inter> named_by d KRename \<and> snd ` set (rs_renames r) \<subseteq> reserved_set d"

lemma set_bt_insert_within: "set (bt_insert k v m) \<subseteq> insert (k, v) (set m)"
  by (induction m) (auto split: if_splits)

lemma bt_insert_within:
  "k \<in> S \<Longrightarrow> fst ` set m \<subseteq> S \<Longrightarrow> fst ` set (bt_insert k v m) \<subseteq> S"
  "v \<in> T \<Longrightarrow> snd ` set m \<subseteq> T \<Longrightarrow> snd ` set (bt_insert k v m) \<subseteq> T"
  using set_bt_insert_within [of k v m] by fastforce+

lemma name_at_indexed: "doc_indexed d \<Longrightarrow> i < length (doc_paths d) \<Longrightarrow>
    name_at d i = doc_paths d ! i \<and> path_at (doc_paths d) i = Some (doc_paths d ! i) \<and> i \<le> u16_max"
  by (simp add: name_at_def doc_indexed_def to_u16_def path_at_def list_get_def)

lemma reserved_named:
  assumes "doc_indexed d" "p \<in> set (doc_ops d)"
  shows "counts_path (op_kind p) \<Longrightarrow> name_at d (op_path p) \<in> reserved_set d"
    "op_kind p = KRename \<Longrightarrow> name_at d (op_src p) \<in> reserved_set d" "name_at d (op_path p) = doc_paths d ! op_path p"
proof -
  have i: "op_path p < length (doc_paths d)" "op_kind p = KRename \<Longrightarrow> op_src p < length (doc_paths d)"
    using assms by (auto simp: doc_indexed_def list_all_iff indexed_def)
  have m: "set (reserved_paths d p) \<subseteq> reserved_set d" using assms(2) by (auto simp: reserved_set_def)
  note n = name_at_indexed [OF assms(1) i(1)]
  show "name_at d (op_path p) = doc_paths d ! op_path p" using n by simp
  show "name_at d (op_path p) \<in> reserved_set d" if "counts_path (op_kind p)"
    using m n that by (auto simp: reserved_paths_def opt_list_def)
  show "name_at d (op_src p) \<in> reserved_set d" if "op_kind p = KRename"
    using m name_at_indexed [OF assms(1) i(2) [OF that]] that by (auto simp: reserved_paths_def opt_list_def)
qed

lemma resolve_op_within:
  assumes "doc_indexed (inc_doc inc)" "p \<in> set (doc_ops (inc_doc inc))" "resolved_within (inc_doc inc) r"
  shows "resolved_within (inc_doc inc) (resolve_op inc p r)"
proof -
  let ?d = "inc_doc inc" and ?n = "name_at (inc_doc inc) (op_path p)"
  note rn = reserved_named [OF assms(1,2)]
  have by_kind: "?n \<in> named_by ?d (op_kind p)" using rn(3) assms(2) by (auto simp: named_by_def)
  show ?thesis
  proof (cases "is_content (op_kind p)")
    case True
    then have "?n \<in> reserved_set ?d" using rn(1) by (simp add: counts_path_def)
    then show ?thesis using assms(3) True
      by (simp add: resolve_op_def resolved_within_def bt_push_def Let_def bt_insert_within)
  next
    case False
    have c: "op_kind p \<in> {KCreate, KUnlink, KRename, KMknod} \<Longrightarrow> ?n \<in> reserved_set ?d" using rn(1) by (simp add: counts_path_def)
    show ?thesis using assms(3) False c rn(2) by_kind
      by (cases "op_kind p") (simp_all add: resolve_op_def resolved_within_def Let_def bt_insert_within split: sum.split)
  qed
qed

lemma resolve_within:
  assumes "doc_indexed (inc_doc inc)"
  shows "resolved_within (inc_doc inc) (resolve inc)"
proof -
  have "resolved_within (inc_doc inc) (fold (resolve_op inc) ops r)" if "set ops \<subseteq> set (doc_ops (inc_doc inc))" "resolved_within (inc_doc inc) r" for ops r
    using that resolve_op_within [OF assms] by (induction ops arbitrary: r) auto
  moreover have "resolved_within (inc_doc inc) resolved_default" by (simp add: resolved_within_def resolved_default_def)
  ultimately have "resolved_within (inc_doc inc) (fold (resolve_op inc) (doc_ops (inc_doc inc)) resolved_default)" by simp
  then show ?thesis by (simp add: resolve_def resolved_within_def Let_def)
qed

section \<open>The bound\<close>

lemma foldl_sat:
  assumes "t \<le> u64_max"
  shows "foldl (\<lambda>t p. sat_add (sat_add t (a p)) (b p)) t ps = min u64_max (t + (\<Sum>p\<leftarrow>ps. a p + b p))"
  using assms by (induction ps arbitrary: t) (simp_all add: sat_add_def add.assoc)

lemma reservation_sum:
  assumes "bt_get (g_accepted g) (inc_id inc) = None"
  shows "history_reservation g inc = min u64_max (\<Sum>p\<in>reserved_set (inc_doc inc). path_bytes g p + node_bytes g p)"
proof -
  let ?ps = "bs_extend (concat (map (reserved_paths (inc_doc inc)) (doc_ops (inc_doc inc)))) []"
  have "distinct ?ps" using bs_ok_extend [OF bs_ok_Nil] unfolding bs_ok_def strict_sorted_iff by blast
  then have "(\<Sum>p\<leftarrow>?ps. path_bytes g p + node_bytes g p) = (\<Sum>p\<in>reserved_set (inc_doc inc). path_bytes g p + node_bytes g p)"
    by (simp add: sum_list_distinct_conv_sum_set reserved_set_def)
  then show ?thesis using assms foldl_sat [of 0 "path_bytes g" "node_bytes g" ?ps]
    by (simp add: history_reservation_def bt_contains_def path_bytes_def node_bytes_def Let_def)
qed

lemma none_concat: "list_all2 (\<lambda>x es. f es = []) xs ess \<Longrightarrow> concat (map f ess) = []"
  by (induction rule: list_all2_induct) simp_all

lemma concat_within: "list_all2 P xs ess \<Longrightarrow> (\<And>x es p. x \<in> set xs \<Longrightarrow> P x es \<Longrightarrow> p \<in> set (f es) \<Longrightarrow> Q p) \<Longrightarrow> p \<in> set (concat (map f ess)) \<Longrightarrow> Q p"
  by (induction arbitrary: p rule: list_all2_induct) fastforce+

lemma special_unlinked:
  assumes "rs_invalid (resolve inc) = []"
  shows "fst ` set (rs_specials (resolve inc)) \<inter> set (rs_unlinks (resolve inc)) = {}"
proof -
  define r where "r = fold (resolve_op inc) (doc_ops (inc_doc inc)) resolved_default"
  have "set (bs_extend (filter (clashing_special r) (bt_keys (rs_specials r))) (rs_invalid r)) = {}"
    using assms by (simp add: resolve_def r_def Let_def)
  then have "\<not> clashing_special r p" if "p \<in> fst ` set (rs_specials r)" for p using that by (auto simp: bt_keys_def)
  then show ?thesis by (auto simp: clashing_special_def bs_mem_def resolve_def r_def [symmetric] Let_def)
qed

lemma block:
  assumes "list_all2 P xs ess" "\<And>x es. P x es \<Longrightarrow> at_most (k x) (f es)" "distinct (map k xs)"
  shows "distinct (concat (map f ess))" "set (concat (map f ess)) \<subseteq> k ` set xs"
  using keyed_concat [of k f xs ess, OF list_all2_mono [OF assms(1)] assms(3)] assms(2) by blast+

lemma block_none:
  assumes "list_all2 P xs ess" "\<And>x es. P x es \<Longrightarrow> f es = []"
  shows "concat (map f ess) = []"
  using none_concat [of f xs ess, OF list_all2_mono [OF assms(1)]] assms(2) by blast

lemma staged_nodes:
  assumes d: "doc_indexed (inc_doc inc)" and es: "decide inc (resolve inc) g = (Inr es, h)"
  shows "distinct (nodes_of es)" "set (nodes_of es) \<subseteq> reserved_set (inc_doc inc)"
proof -
  let ?r = "resolve inc"
  note w = resolve_within [OF d, unfolded resolved_within_def]
  obtain a b c u e f where st: "rs_invalid ?r = []" "es = concat a @ concat b @ concat c @ concat u @ concat e @ f"
    and sh: "list_all2 (\<lambda>x. shape [fst x] [] []) (rs_specials ?r) a" "list_all2 (\<lambda>x. shape [] [fst x] [snd x]) (rs_renames ?r) b"
      "list_all2 (\<lambda>p. shape [] [p] []) (rs_creates ?r) c" "list_all2 (\<lambda>p. shape [p] [] [p]) (rs_unlinks ?r) u"
      "list_all2 (edit_shape ?r) (rs_content ?r) e" "shape [] [] [] f" by (rule decide_stages [OF es])
  have a: "distinct (nodes_of (concat a))" "set (nodes_of (concat a)) \<subseteq> fst ` set (rs_specials ?r)" unfolding concat_of
    using block [OF sh(1), of fst nodes_of] w bt_ok_distinct by (auto simp: shape_def at_most_def)
  have u: "distinct (nodes_of (concat u))" "set (nodes_of (concat u)) \<subseteq> set (rs_unlinks ?r)" unfolding concat_of
    using block [OF sh(4), of "\<lambda>p. p" nodes_of] w by (auto simp: shape_def at_most_def bs_ok_def strict_sorted_iff)
  have n: "nodes_of (concat b) = []" "nodes_of (concat c) = []" "nodes_of (concat e) = []" "nodes_of f = []" unfolding concat_of
    by (rule block_none [OF sh(2)] block_none [OF sh(3)] block_none [OF sh(5)], simp add: shape_def edit_shape_def)+
      (use sh(6) in \<open>simp add: shape_def\<close>)
  show "distinct (nodes_of es)" using a u special_unlinked [OF st(1)] by (auto simp: st(2) n)
  show "set (nodes_of es) \<subseteq> reserved_set (inc_doc inc)" using a(2) u(2) w by (auto simp: st(2) n)
qed

lemma staged_content:
  assumes d: "sealed_doc (inc_doc inc)" and es: "decide inc (resolve inc) g = (Inr es, h)"
  shows "distinct (sets_of es)" "set (removes_of es) \<union> set (sets_of es) \<subseteq> reserved_set (inc_doc inc)"
proof -
  let ?r = "resolve inc" and ?d = "inc_doc inc"
  have ix: "doc_indexed ?d" using d by (simp add: sealed_doc_def)
  note w = resolve_within [OF ix, unfolded resolved_within_def]
  obtain a b c u e f where st: "es = concat a @ concat b @ concat c @ concat u @ concat e @ f"
    and sh: "list_all2 (\<lambda>x. shape [fst x] [] []) (rs_specials ?r) a" "list_all2 (\<lambda>x. shape [] [fst x] [snd x]) (rs_renames ?r) b"
      "list_all2 (\<lambda>p. shape [] [p] []) (rs_creates ?r) c" "list_all2 (\<lambda>p. shape [p] [] [p]) (rs_unlinks ?r) u"
      "list_all2 (edit_shape ?r) (rs_content ?r) e" "shape [] [] [] f" by (rule decide_stages [OF es])
  have b: "distinct (sets_of (concat b))" "set (sets_of (concat b)) \<subseteq> fst ` set (rs_renames ?r)" unfolding concat_of
    using block [OF sh(2), of fst sets_of] w bt_ok_distinct by (auto simp: shape_def at_most_def)
  have c: "distinct (sets_of (concat c))" "set (sets_of (concat c)) \<subseteq> set (rs_creates ?r)" unfolding concat_of
    using block [OF sh(3), of "\<lambda>p. p" sets_of] w by (auto simp: shape_def at_most_def bs_ok_def strict_sorted_iff)
  have e: "distinct (sets_of (concat e))" "set (sets_of (concat e)) \<subseteq> fst ` set (rs_content ?r)" unfolding concat_of
    using block [OF sh(5), of fst sets_of] w bt_ok_distinct by (auto simp: edit_shape_def shape_def at_most_def)
  have e': "\<not> bs_mem (rs_creates ?r) p \<and> \<not> bt_contains (rs_renames ?r) p" if "p \<in> set (sets_of (concat e))" for p
    using concat_within [OF sh(5), of sets_of "\<lambda>p. \<not> bs_mem (rs_creates ?r) p \<and> \<not> bt_contains (rs_renames ?r) p" p] that
    by (fastforce simp: concat_of edit_shape_def shape_def)
  have n: "sets_of (concat a) = []" "sets_of (concat u) = []"
    "removes_of (concat a) = []" "removes_of (concat c) = []" "removes_of (concat e) = []" unfolding concat_of
    by (rule block_none [OF sh(1)] block_none [OF sh(4)] block_none [OF sh(3)] block_none [OF sh(5)]; simp add: shape_def edit_shape_def)+
  have nf: "sets_of f = []" "removes_of f = []" using sh(6) by (simp_all add: shape_def)
  have rm1: "p \<in> snd ` set (rs_renames ?r)" if "p \<in> set (removes_of (concat b))" for p
    by (rule concat_within [OF sh(2), where f = removes_of]) (use that in \<open>auto simp: concat_of shape_def image_iff\<close>, force+)
  have rm2: "p \<in> set (rs_unlinks ?r)" if "p \<in> set (removes_of (concat u))" for p
    by (rule concat_within [OF sh(4), where f = removes_of]) (use that in \<open>auto simp: concat_of shape_def\<close>)
  have bc: "named_by ?d KRename \<inter> named_by ?d KCreate = {}"
    using d by (auto simp: sealed_doc_def named_by_def doc_indexed_def list_all_iff indexed_def nth_eq_iff_index_eq) metis
  have "fst ` set (rs_renames ?r) \<subseteq> named_by ?d KRename" "set (rs_creates ?r) \<subseteq> named_by ?d KCreate" using w by simp_all
  then have "set (sets_of (concat b)) \<inter> set (sets_of (concat c)) = {}" using b(2) c(2) bc by (meson disjoint_iff subsetD)
  moreover have "set (sets_of (concat b)) \<inter> set (sets_of (concat e)) = {}" "set (sets_of (concat c)) \<inter> set (sets_of (concat e)) = {}"
    using b(2) c(2) e' unfolding bs_mem_def bt_contains_fst by (meson disjoint_iff subsetD)+
  ultimately show "distinct (sets_of es)" using b(1) c(1) e(1) by (simp add: st n nf Int_Un_distrib)
  show "set (removes_of es) \<union> set (sets_of es) \<subseteq> reserved_set ?d" using b(2) c(2) e(2) w by (auto simp: st n nf dest!: rm1 rm2)
qed

lemma accept_bytes:
  assumes g: "green_inv xof g" and hd: "head g < u64_max" and d: "sealed_doc (inc_doc inc)"
    and s: "submit inc g = (Accepted v, g')" "bt_get (g_accepted g) (inc_id inc) = None"
  shows "g_history_bytes g' \<le> sat_add (g_history_bytes g) (history_reservation g inc)" "tallied g'"
proof -
  let ?S = "reserved_set (inc_doc inc)"
  obtain es h where a: "bt_get (g_rejected g) (inc_id inc) = None" "decide inc (resolve inc) g = (Inr es, h)"
    using s by (auto simp: submit_def Let_def split: option.splits sum.splits prod.splits)
  obtain c where c: "submit inc g = (Accepted (Suc (head g)), c\<lparr>g_accepted := bt_insert (inc_id inc) (Suc (head g)) (g_accepted g)\<rparr>)"
    "c = commit es (Suc (head g)) h" "green_ok xof h" "no_hits h = no_hits g" "head h = head g"
    using accept_commit [OF g hd a(2) s(2) a(1)] by metis
  note ch = chain_accounting [OF no_hits_chain [OF c(4)]]
  note f = arg_cong [OF no_hits_chain [OF c(4)]]
  have "g_content h = g_content g" "g_specials h = g_specials g" and hb: "g_history_bytes h = g_history_bytes g"
    using f [of g_content] f [of g_specials] f [of g_history_bytes] by (simp_all add: chain_state_def)
  then have same: "path_bytes h = path_bytes g" "node_bytes h = node_bytes g" by (simp_all add: fun_eq_iff path_bytes_def node_bytes_def)
  have "tallied h" using g ch tallied_accounted [of h] by (simp add: green_inv_def)
  then have t: "tallied c" using green_ok_commit(13) [OF c(3), of es] by (simp add: c(2,5))
  have e: "g_history_bytes g' = g_history_bytes c" "tallied g' = tallied c"
    using s(1) c(1) by (auto simp: tallied_def retained_exact_def dim_defs)
  then show "tallied g'" using t by simp
  have i: "doc_indexed (inc_doc inc)" using d by (simp add: sealed_doc_def)
  note n = staged_nodes [OF i a(2)] and w = staged_content [OF d a(2)]
  have "(\<Sum>p\<in>set (removes_of es) \<union> set (sets_of es). path_bytes g p) \<le> (\<Sum>p\<in>?S. path_bytes g p)"
    "(\<Sum>p\<in>set (nodes_of es). node_bytes g p) \<le> (\<Sum>p\<in>?S. node_bytes g p)"
    using n(2) w(2) by (auto intro!: sum_mono2 simp: reserved_set_def)
  then have "g_history_bytes c \<le> g_history_bytes g + (\<Sum>p\<in>?S. path_bytes g p + node_bytes g p)"
    using commit_bytes [OF n(1) w(1), of "Suc (head g)" h] by (simp add: c(2) same hb sum.distrib)
  moreover have "g_history_bytes c \<le> u64_max" using t by (simp add: tallied_def)
  ultimately show "g_history_bytes g' \<le> sat_add (g_history_bytes g) (history_reservation g inc)"
    by (simp add: e reservation_sum [OF s(2)] sat_add_def)
qed

end
