(* ===== verification/Seal_Laws.thy ===== *)
theory Seal_Laws
  imports Reserve Seal
begin

text \<open>
  What the deriver seals (\<open>crates/merge/src/increment.rs\<close>): one live entity per path through every
  replay, so the document creates or renames onto a path once, with every index in its table.
\<close>

section \<open>One live entity per path\<close>

definition live_once :: "entity list \<Rightarrow> bool" where
  "live_once es \<longleftrightarrow> (\<forall>i<length es. \<forall>j<length es.
     en_live (es ! i) \<and> en_live (es ! j) \<and> en_final (es ! i) = en_final (es ! j) \<longrightarrow> i = j)"

definition live_at :: "entity list \<Rightarrow> path \<Rightarrow> nat \<Rightarrow> bool" where
  "live_at es p i \<longleftrightarrow> i < length es \<and> en_live (es ! i) \<and> en_final (es ! i) = p"

lemma live_once_at: "live_once es \<longleftrightarrow> (\<forall>p i j. live_at es p i \<longrightarrow> live_at es p j \<longrightarrow> i = j)"
  by (auto simp: live_once_def live_at_def)

lemma live_at_update: "i < length es \<Longrightarrow> live_at (es[i := x]) p j \<longleftrightarrow> (if j = i then en_live x \<and> en_final x = p else live_at es p j)"
  by (auto simp: live_at_def nth_list_update)

lemma live_at_same:
  "i < length es \<Longrightarrow> en_live x = en_live (es ! i) \<Longrightarrow> en_final x = en_final (es ! i) \<Longrightarrow> live_at (es[i := x]) p j \<longleftrightarrow> live_at es p j"
  by (auto simp: live_at_update) (auto simp: live_at_def)

lemma live_at_snoc: "live_at (es @ [x]) p j \<longleftrightarrow> (if j = length es then en_live x \<and> en_final x = p else live_at es p j)"
  by (auto simp: live_at_def nth_append)

lemma live_index_at: "live_index es p = None \<Longrightarrow> \<not> live_at es p i" "live_index es p = Some i \<Longrightarrow> live_at es p i"
  using position_None [of "\<lambda>e. en_live e \<and> en_final e = p" es] position_Some [of "\<lambda>e. en_live e \<and> en_final e = p" es i]
  by (auto simp: live_index_def live_at_def)

lemma materialized:
  assumes "live_once es" "live_index es p = None" "materialize_base es b p = Some (i, es')"
  shows "live_once es'" "live_at es' p i" "live_at es q j \<Longrightarrow> live_at es' q j" "length es \<le> length es'" "\<And>j. j < length es \<Longrightarrow> es' ! j = es ! j"
  using assms live_index_at(1) [OF assms(2)]
  by (auto simp: materialize_base_def live_once_at live_at_snoc nth_append split: if_splits option.splits) (auto simp: live_at_def)

lemma live_or_base_at:
  assumes "live_once es" "live_or_base es b p err = Inr (i, es')"
  shows "live_once es'" "live_at es' p i" "live_at es q j \<Longrightarrow> live_at es' q j"
  using assms materialized [of es p b i es'] live_index_at(2) [of es p i]
  by (auto simp: live_or_base_def ok_or_def split: option.splits)

lemma list_get_Some: "i < length xs \<Longrightarrow> list_get xs i = Some (xs ! i)"
  by (simp add: list_get_def)

lemma create_once:
  assumes "live_once es" "apply_create b p es = Inr es'"
  shows "live_once es'"
proof -
  have n: "live_index es p = None" using assms(2) by (auto simp: apply_create_def split: if_splits)
  note none = live_index_at(1) [OF n]
  show ?thesis
  proof (cases "position (\<lambda>e. \<not> en_live e \<and> \<not> en_clobbered e \<and> en_final e = p \<and> en_origin e = Some p) es")
    case None
    then show ?thesis using assms none by (auto simp: apply_create_def n live_once_at live_at_snoc split: if_splits)
  next
    case (Some i)
    then have i: "i < length es" "\<not> en_live (es ! i)" using position_Some [OF Some] by auto
    then show ?thesis using assms none by (auto simp: apply_create_def n Some live_once_at live_at_snoc live_at_update split: if_splits)
  qed
qed

lemma unlink_once:
  assumes "live_once es" "apply_unlink b p es = Inr es'"
  shows "live_once es'"
proof -
  obtain i x where x: "live_or_base es b p (UnlinkMissing p) = Inr (i, x)"
    using assms(2) by (auto simp: apply_unlink_def rbind_Inr_iff)
  note l = live_or_base_at [OF assms(1) x]
  have i: "i < length x" using l(2) by (simp add: live_at_def)
  then have "es' = x[i := (x ! i)\<lparr>en_live := False, en_content := []\<rparr>]"
    using assms(2) by (simp add: apply_unlink_def x list_get_Some ok_or_def)
  then show ?thesis using l(1) i by (auto simp: live_once_at live_at_update)
qed

lemma content_once:
  assumes "live_once es" "live_or_base es b q err = Inr (i, x)" "es' = x[i := (x ! i)\<lparr>en_content := c\<rparr>]"
  shows "live_once es'"
proof -
  note l = live_or_base_at [OF assms(1,2)]
  have i: "i < length x" using l(2) by (simp add: live_at_def)
  have "live_at es' p j = live_at x p j" for p j unfolding assms(3) by (rule live_at_same [OF i]) simp_all
  then show ?thesis using l(1) by (simp add: live_once_at)
qed

lemma target_at:
  assumes "live_once es" "resolve_rename_target b to es = Inr (d, es')"
  shows "live_once es'" "live_at es q j \<Longrightarrow> live_at es' q j" "d = Some i \<Longrightarrow> live_at es' to i" "d = None \<Longrightarrow> \<not> live_at es' to j"
proof -
  have "live_once es' \<and> (\<forall>q j. live_at es q j \<longrightarrow> live_at es' q j) \<and> (\<forall>i. d = Some i \<longrightarrow> live_at es' to i) \<and> (d = None \<longrightarrow> (\<forall>j. \<not> live_at es' to j))"
  proof (cases "live_index es to")
    case None
    note n = live_index_at(1) [OF None]
    show ?thesis
    proof (cases "materialize_base es b to")
      case (Some m)
      obtain k x where m: "m = (k, x)" by (cases m)
      note mt = materialized [OF assms(1) None Some [unfolded m]]
      have "base_len_of b to \<noteq> None" "\<not> consumed es to" using Some by (auto simp: materialize_base_def split: if_splits option.splits)
      then have "d = Some k" "es' = x" using assms(2) by (simp_all add: resolve_rename_target_def None Some m)
      then show ?thesis using mt by auto
    qed (use assms n None in \<open>auto simp: resolve_rename_target_def split: if_splits\<close>)
  next
    case (Some i)
    then show ?thesis using assms live_index_at(2) [OF Some] by (auto simp: resolve_rename_target_def)
  qed
  then show "live_once es'" "live_at es q j \<Longrightarrow> live_at es' q j" "d = Some i \<Longrightarrow> live_at es' to i" "d = None \<Longrightarrow> \<not> live_at es' to j" by auto
qed

lemma moved_once:
  assumes "live_once es" "i < length es" "\<And>j. live_at es to j \<Longrightarrow> j = i" "moved = es ! i"
  shows "live_once (es[i := moved\<lparr>en_final := to\<rparr>])"
  using assms by (auto simp: live_once_at live_at_update)

lemma clobber_at:
  assumes "live_once es" "live_at es from source" "live_at es to dst" "from \<noteq> to" "clobber from to source dst es = Inr es'"
  shows "live_once es'" "source < length es'" "\<not> live_at es' to j"
proof -
  have d: "dst < length es" "source < length es" "dst \<noteq> source" using assms(2-4) by (auto simp: live_at_def)
  let ?d = "es[dst := (es ! dst)\<lparr>en_live := False, en_clobbered := True\<rparr>]"
  have q: "live_at ?d p j \<longleftrightarrow> j \<noteq> dst \<and> live_at es p j" for p j using live_at_update [OF d(1)] by auto
  obtain m where m: "es' = ?d \<or> es' = ?d[source := m]" "en_live m = en_live (?d ! source)" "en_final m = en_final (?d ! source)"
  proof
    let ?m = "(?d ! source)\<lparr>en_origin := Some to, en_base_len := en_base_len (es ! dst), en_content := CTruncate 0 # en_content (?d ! source)\<rparr>"
    show "es' = ?d \<or> es' = ?d[source := ?m]" using assms(5) d by (auto simp: clobber_def list_get_Some ok_or_def Let_def split: if_splits)
  qed simp_all
  have "live_at es' p j \<longleftrightarrow> live_at ?d p j" for p j
    using m(1) live_at_same [OF _ m(2,3), of p j] d(2) by auto
  moreover have "live_at es to j \<Longrightarrow> j = dst" for j using assms(1,3) by (auto simp: live_once_at)
  ultimately show "live_once es'" "\<not> live_at es' to j" using assms(1) by (auto simp: live_once_at q)
  show "source < length es'" using m(1) d(2) by auto
qed

lemma rename_once:
  assumes "live_once es" "apply_rename b from to es = Inr es'"
  shows "live_once es'"
proof (cases "from = to")
  case False
  obtain source x where x: "live_or_base es b from (RenameMissingSource from) = Inr (source, x)"
    using assms(2) False by (auto simp: apply_rename_def rbind_Inr_iff)
  note l = live_or_base_at [OF assms(1) x]
  obtain d y where y: "resolve_rename_target b to x = Inr (d, y)" using assms(2) False by (auto simp: apply_rename_def x rbind_Inr_iff)
  note t = target_at [OF l(1) y]
  have s: "live_at y from source" by (rule t(2) [OF l(2)])
  show ?thesis
  proof (cases d)
    case None
    have "es' = y[source := (y ! source)\<lparr>en_final := to\<rparr>]"
      using assms(2) False s by (simp add: apply_rename_def x y None live_at_def list_get_Some ok_or_def)
    then show ?thesis using moved_once [OF t(1), of source to] s t(4) [OF None] by (auto simp: live_at_def)
  next
    case (Some dst)
    obtain z where z: "clobber from to source dst y = Inr z" using assms(2) False by (auto simp: apply_rename_def x y Some rbind_Inr_iff)
    note c = clobber_at [OF t(1) s t(3) [OF Some] False z]
    have "es' = z[source := (z ! source)\<lparr>en_final := to\<rparr>]"
      using assms(2) False c(2) by (simp add: apply_rename_def x y Some z list_get_Some ok_or_def)
    then show ?thesis using moved_once [OF c(1,2)] c(3) by auto
  qed
qed (use assms in \<open>simp add: apply_rename_def\<close>)

lemma volume_op_once:
  assumes "live_once es" "apply_volume_op b p es = Inr es'"
  shows "live_once es'"
proof (cases "vop_content p")
  case (Some c)
  define q where "q = unwrap_or (single_path p) []"
  obtain i x where x: "live_or_base es b q (ContentOnMissing q) = Inr (i, x)"
    using assms(2) by (auto simp: apply_volume_op_def Some rbind_Inr_iff Let_def q_def)
  have "i < length x" using live_or_base_at(2) [OF assms(1) x] by (simp add: live_at_def)
  then have "es' = x[i := (x ! i)\<lparr>en_content := en_content (x ! i) @ [c]\<rparr>]"
    using assms(2) by (simp add: apply_volume_op_def Some x [unfolded q_def] list_get_Some ok_or_def)
  then show ?thesis by (rule content_once [OF assms(1) x])
next
  case None
  then show ?thesis using assms(2) create_once [OF assms(1), of b _ es'] unlink_once [OF assms(1), of b _ es']
      rename_once [OF assms(1), of b _ _ es'] assms(1)
    by (cases p) (simp_all add: apply_volume_op_def)
qed

lemma replay_once:
  assumes "try_fold (apply_volume_op b) ops es = Inr es'" "live_once es"
  shows "live_once es'"
  using assms
proof (induction ops arbitrary: es)
  case (Cons p ops)
  obtain x where "apply_volume_op b p es = Inr x" "try_fold (apply_volume_op b) ops x = Inr es'" using Cons.prems(1) by (auto simp: rbind_Inr_iff)
  then show ?case using Cons.IH volume_op_once [OF Cons.prems(2)] by blast
qed simp

lemma live_once_distinct: "live_once es \<Longrightarrow> distinct (map en_final (filter en_live es))"
proof (induction es rule: rev_induct)
  case (snoc x es)
  have "i = j" if "live_at es p i" "live_at es p j" for p i j
    using snoc.prems live_at_snoc [of es x p i] live_at_snoc [of es x p j] that by (auto simp: live_once_at live_at_def)
  then have once: "distinct (map en_final (filter en_live es))" by (intro snoc.IH) (simp add: live_once_at)
  have "en_final e \<noteq> en_final x" if e: "e \<in> set es" "en_live e" and x: "en_live x" for e
  proof
    assume same: "en_final e = en_final x"
    obtain i where "i < length es" "es ! i = e" using e(1) by (auto simp: in_set_conv_nth)
    then have "live_at (es @ [x]) (en_final x) i" "live_at (es @ [x]) (en_final x) (length es)" "i \<noteq> length es"
      using e(2) x same by (auto simp: live_at_def nth_append)
    then show False using snoc.prems by (auto simp: live_once_at)
  qed
  then have "en_live x \<Longrightarrow> en_final x \<notin> en_final ` set (filter en_live es)" by fastforce
  then show ?case using once by (cases "en_live x") auto
qed simp

section \<open>The sealed operations\<close>

lemma emit_content: "p \<in> set (emit at n gone run src at_end) \<Longrightarrow> is_content (op_kind p)"
  by (auto simp: emit_def net_op_def is_content_def split: if_splits)

lemma read_loop_content: "p \<in> set (fst (read_loop n ps c off)) \<Longrightarrow> is_content (op_kind p)"
proof (induction n ps c off rule: read_loop.induct)
  case (2 base_len q ps cursor off)
  obtain run rest where g: "gather 0 (q # ps) = (run, rest)" by fastforce
  show ?case
  proof (cases rest)
    case Nil
    then show ?thesis using 2(2) by (auto simp: g emit_content Let_def simp del: gather.simps)
  next
    case (Cons s later)
    then show ?thesis using 2(1) [OF g [symmetric] refl refl refl refl refl Cons] 2(2)
      by (auto simp: g emit_content Let_def case_prod_unfold simp del: gather.simps)
  qed
qed simp

lemma composed_content: "p \<in> set (fst (compose_content_sized n js)) \<Longrightarrow> is_content (op_kind p)"
  using read_loop_content [of p n _ 0 0]
  by (auto simp: compose_content_sized_def read_out_def Let_def case_prod_unfold net_op_def is_content_def split: if_splits)

lemma emission_shape:
  assumes "emission_of e = Some m"
  shows "em_final m = en_final e" "p \<in> set (em_ops m) \<Longrightarrow> is_content (op_kind p)"
  using assms composed_content [of p "en_base_len e" "en_content e"]
  by (auto simp: emission_of_def Let_def case_prod_unfold split: if_splits)

lemma map_filter_distinct:
  assumes "\<And>x y. x \<in> set xs \<Longrightarrow> f x = Some y \<Longrightarrow> k y = h x" "distinct (map h xs)"
  shows "distinct (map k (List.map_filter f xs))"
  using assms
proof (induction xs)
  case (Cons x xs)
  have "k y \<in> h ` set xs" if "y \<in> set (List.map_filter f xs)" for y using that Cons.prems(1) by (fastforce simp: map_filter_def)
  then have "k ` set (List.map_filter f xs) \<subseteq> h ` set xs" by auto
  moreover have "k y = h x" if "f x = Some y" for y using Cons.prems(1) that by simp
  ultimately have "f x = Some y \<Longrightarrow> k y \<notin> k ` set (List.map_filter f xs)" for y using Cons.prems(2) by auto
  then show ?case using Cons by (simp add: List.map_filter_simps split: option.split)
qed (simp add: List.map_filter_simps)

lemma classified:
  assumes "live_once es" "classify es = (ms, removed)"
  shows "distinct (map em_final ms)" "m \<in> set ms \<Longrightarrow> p \<in> set (em_ops m) \<Longrightarrow> is_content (op_kind p)"
proof -
  have ms: "ms = List.map_filter emission_of (filter en_live es)" using assms(2) by (simp add: classify_def Let_def)
  show "distinct (map em_final ms)" unfolding ms
    by (rule map_filter_distinct [OF emission_shape(1) live_once_distinct [OF assms(1)]])
  show "is_content (op_kind p)" if "m \<in> set ms" "p \<in> set (em_ops m)"
    using that emission_shape(2) unfolding ms by (auto simp: map_filter_def)
qed

section \<open>The document\<close>

definition table_ok :: "path list \<Rightarrow> bool" where
  "table_ok names \<longleftrightarrow> distinct names \<and> length names \<le> Suc u16_max"

lemma index_named:
  assumes "table_ok names" "p \<in> set names"
  shows "index_of names p < length names" "names ! index_of names p = p"
  using position_mem [OF assms(2)] assms(1) by (auto simp: index_of_def table_ok_def to_u16_def)

text \<open>An operation in the table, a creation or a rename being that of its emission.\<close>

definition placed :: "path list \<Rightarrow> emission list \<Rightarrow> op \<Rightarrow> bool" where
  "placed names ms p \<longleftrightarrow> indexed names p
     \<and> (op_kind p = KCreate \<longrightarrow> (\<exists>m\<in>set ms. em_source m = None \<and> op_path p = index_of names (em_final m)))
     \<and> (op_kind p = KRename \<longrightarrow> (\<exists>m\<in>set ms. em_source m \<noteq> None \<and> op_path p = index_of names (em_final m)))"

lemma sealed_file_placed:
  assumes t: "table_ok names" and m: "m \<in> set ms" "em_final m \<in> set names" "\<And>s. em_source m = Some s \<Longrightarrow> s \<in> set names"
    and c: "\<And>p. p \<in> set (em_ops m) \<Longrightarrow> is_content (op_kind p)"
    and st: "\<forall>p\<in>set (fst st). placed names ms p"
  shows "\<forall>p\<in>set (fst (seal_file names m st)). placed names ms p"
proof -
  let ?i = "index_of names (em_final m)"
  note i = index_named [OF t m(2)]
  have "placed names ms q" if "q \<in> set (push_content ?i region (em_ops m))" for q region
  proof -
    from that obtain p where p: "p \<in> set (em_ops m)" "op_kind q = op_kind p" "op_path q = ?i"
      by (auto simp: push_content_def Let_def split: if_splits)
    then show ?thesis using c [OF p(1)] i by (auto simp: placed_def indexed_def is_content_def)
  qed
  moreover have "placed names ms (rename_op ?i (index_of names s))" if "em_source m = Some s" for s
    using that m(1) i index_named [OF t m(3) [OF that]] by (auto simp: placed_def indexed_def rename_op_def)
  moreover have "placed names ms (namespace_op KCreate ?i)" if "em_source m = None"
    using that m(1) i by (auto simp: placed_def indexed_def namespace_op_def)
  ultimately show ?thesis using st by (auto simp: seal_file_def Let_def case_prod_unfold split: option.split)
qed

lemma sealed_files_placed:
  assumes "table_ok names" "\<And>m. m \<in> set xs \<Longrightarrow> m \<in> set ms \<and> em_final m \<in> set names \<and> (\<forall>s. em_source m = Some s \<longrightarrow> s \<in> set names)
      \<and> (\<forall>p\<in>set (em_ops m). is_content (op_kind p))"
    and "\<forall>p\<in>set (fst st). placed names ms p"
  shows "\<forall>p\<in>set (fst (fold (seal_file names) xs st)). placed names ms p"
  using assms(2,3)
proof (induction xs arbitrary: st)
  case (Cons m xs)
  have "\<forall>p\<in>set (fst (seal_file names m st)). placed names ms p"
    using Cons.prems by (intro sealed_file_placed [OF assms(1)]) auto
  then show ?case using Cons.IH [of "seal_file names m st"] Cons.prems(1) by auto
qed simp

lemma sealed_xattrs_placed:
  assumes "table_ok names" "\<And>x. x \<in> set xs \<Longrightarrow> set (xattr_names x) \<subseteq> set names" "\<forall>p\<in>set (fst st). placed names ms p"
  shows "\<forall>p\<in>set (fst (fold (seal_xattr names) xs st)). placed names ms p"
  using assms(2,3)
proof (induction xs arbitrary: st)
  case (Cons x xs)
  have "\<forall>p\<in>set (fst (seal_xattr names x st)). placed names ms p"
    using Cons.prems(1) [of x] Cons.prems(2) index_named(1) [OF assms(1)]
    by (cases x) (simp_all add: placed_def indexed_def set_xattr_op_def remove_xattr_op_def)
  then show ?case using Cons.IH [of "seal_xattr names x st"] Cons.prems(1) by auto
qed simp

lemma namespace_placed:
  assumes "table_ok names" "set removed \<subseteq> set names" "\<And>x. x \<in> set directories \<Longrightarrow> set (directory_names x) \<subseteq> set names"
    "fst ` set modes \<subseteq> set names" "\<And>x. x \<in> set symlinks \<Longrightarrow> set (symlink_names x) \<subseteq> set names"
    "\<And>x. x \<in> set hardlinks \<Longrightarrow> set (link_names x) \<subseteq> set names"
  shows "\<forall>p\<in>set (emit_namespace names removed directories modes symlinks hardlinks). placed names ms p"
proof -
  note ix = index_named(1) [OF assms(1)]
  have "placed names ms (emit_directory names x)" if "x \<in> set directories" for x
    using assms(3) [OF that] by (cases x) (auto simp: placed_def indexed_def namespace_op_def ix)
  moreover have "placed names ms (emit_symlink names x)" if "x \<in> set symlinks" for x
    using assms(5) [OF that] by (cases x) (auto simp: placed_def indexed_def namespace_op_def symlink_op_def ix)
  moreover have "placed names ms (emit_link names x)" if "x \<in> set hardlinks" for x
    using assms(6) [OF that] by (cases x) (auto simp: placed_def indexed_def namespace_op_def link_op_def ix)
  moreover have "placed names ms (namespace_op KUnlink (index_of names x))" if "x \<in> set removed" for x
    using assms(2) that ix by (auto simp: placed_def indexed_def namespace_op_def)
  moreover have "placed names ms (set_mode_op (index_of names x) md)" if "(x, md) \<in> set modes" for x md
    using assms(4) that ix by (force simp: placed_def indexed_def set_mode_op_def)
  ultimately show ?thesis by (auto simp: emit_namespace_def)
qed

lemma placed_sealed:
  assumes t: "table_ok names" and ops: "\<forall>p\<in>set ops. placed names ms p" and ms: "distinct (map em_final ms)" "em_final ` set ms \<subseteq> set names"
  shows "sealed_doc \<lparr>doc_paths = names, doc_ops = ops\<rparr>"
proof -
  have "op_path p \<noteq> op_path q" if pq: "p \<in> set ops" "q \<in> set ops" "op_kind p = KCreate" "op_kind q = KRename" for p q
  proof
    assume same: "op_path p = op_path q"
    obtain m n where mn: "m \<in> set ms" "em_source m = None" "op_path p = index_of names (em_final m)"
      "n \<in> set ms" "em_source n \<noteq> None" "op_path q = index_of names (em_final n)"
      using ops pq by (metis placed_def)
    then have "em_final m = em_final n" using same index_named(2) [OF t] ms(2) by (metis image_subset_iff)
    then have "m = n" using ms(1) mn(1,4) by (simp add: distinct_map inj_on_def)
    then show False using mn(2,5) by simp
  qed
  then show ?thesis using t ops by (auto simp: sealed_doc_def doc_indexed_def table_ok_def list_all_iff placed_def)
qed

text \<open>What is created or renamed onto, by name: the canonical form keeps it.\<close>

definition clashes :: "named_op set \<Rightarrow> bool" where
  "clashes N \<longleftrightarrow> (\<exists>p\<in>N. \<exists>q\<in>N. fst p = KCreate \<and> fst q = KRename \<and> fst (snd (snd p)) = fst (snd (snd q)))"

lemma sealed_named: "sealed_doc d \<longleftrightarrow> doc_indexed d \<and> \<not> clashes (named (doc_paths d) ` set (doc_ops d))"
proof (cases "doc_indexed d")
  case True
  have "path_at (doc_paths d) (op_path p) = path_at (doc_paths d) (op_path q) \<longleftrightarrow> op_path p = op_path q"
    if "p \<in> set (doc_ops d)" "q \<in> set (doc_ops d)" for p q
    using True that path_at_inj [of "doc_paths d" "op_path p" "op_path q"] by (auto simp: doc_indexed_def list_all_iff indexed_def)
  then show ?thesis using True by (auto simp: sealed_doc_def clashes_def named_def)
qed (simp add: sealed_doc_def)

lemma canonicalize_paths: "length (doc_paths (canonicalize d)) = length (doc_paths d)"
  by (simp add: canonicalize_def sort_and_remap_def Let_def)

lemma canonicalize_sealed:
  assumes "sealed_doc d"
  shows "sealed_doc (canonicalize d)"
proof -
  have d: "doc_indexed d" using assms by (simp add: sealed_doc_def)
  then have t: "length (doc_paths d) \<le> Suc u16_max" by (simp add: doc_indexed_def)
  have "doc_indexed (canonicalize d)"
    using canonicalize_indexed [OF d] d canonicalize_ops [OF t] by (auto simp: doc_indexed_def list_all_iff)
  moreover have "named (doc_paths (canonicalize d)) ` set (doc_ops (canonicalize d)) = named (doc_paths d) ` set (doc_ops d)"
    using arg_cong [OF canonicalize_named [OF d], of set_mset] by simp
  ultimately show ?thesis using assms by (simp add: sealed_named)
qed

lemma emit_special_sealed:
  assumes "sealed_doc d" "fst (emit_special e (d, off)) = d'" "length (doc_paths d') \<le> Suc u16_max"
  shows "sealed_doc d'"
proof -
  obtain i t where i: "intern (fst e) (doc_paths d) = (i, t)" by fastforce
  let ?q = "\<lambda>k l s. \<lparr>op_kind = k, op_flags = 0, op_path = i, op_at = 0, op_len = l, op_src = s\<rparr>"
  obtain k l s where d': "d' = \<lparr>doc_paths = t, doc_ops = doc_ops d @ [?q k l s]\<rparr>" "k \<in> {KMknod, KUnlink}"
    using assms(2) by (auto simp: emit_special_def i Let_def split: if_splits)
  have ix: "doc_indexed d" using assms(1) by (simp add: sealed_doc_def)
  then have t: "(t = doc_paths d \<or> t = doc_paths d @ [fst e]) \<and> i < length t \<and> distinct t"
    using i assms(3) d'(1) position_Some [of "\<lambda>q. q = fst e" "doc_paths d"] position_None [of "\<lambda>q. q = fst e" "doc_paths d"]
    by (auto simp: intern_def to_u16_def doc_indexed_def split: option.splits if_splits)
  have "indexed t p" if "indexed (doc_paths d) p" for p using that t by (auto simp: indexed_def)
  then show ?thesis using assms(1,3) t d' ix by (auto simp: sealed_doc_def doc_indexed_def list_all_iff indexed_def [of _ "?q _ _ _"])
qed

lemma emit_special_paths: "length (doc_paths (fst st)) \<le> length (doc_paths (fst (emit_special e st)))"
  by (auto simp: emit_special_def intern_def Let_def case_prod_unfold split: option.split)

lemma emit_fold_paths: "length (doc_paths (fst st)) \<le> length (doc_paths (fst (fold emit_special es st)))"
proof (induction es arbitrary: st)
  case (Cons e es)
  show ?case using Cons.IH [of "emit_special e st"] emit_special_paths [of st e] by simp
qed simp

lemma emit_specials_sealed:
  assumes "sealed_doc d" "length (doc_paths (emit_specials c d)) \<le> Suc u16_max"
  shows "sealed_doc (emit_specials c d)"
proof -
  have "sealed_doc (fst (fold emit_special es st))" if "sealed_doc (fst st)" "length (doc_paths (fst (fold emit_special es st))) \<le> Suc u16_max" for es st
    using that
  proof (induction es arbitrary: st)
    case (Cons e es)
    have "sealed_doc (fst (emit_special e st))"
      by (rule emit_special_sealed [where d = "fst st" and e = e and off = "snd st"])
        (use Cons.prems emit_fold_paths [of "emit_special e st" es] in simp_all)
    then show ?case using Cons by simp
  qed simp
  then show ?thesis using assms by (simp add: emit_specials_def Let_def case_prod_unfold canonicalize_paths canonicalize_sealed)
qed

lemma sorted_distinct_adj: "sorted xs \<Longrightarrow> distinct (remdups_adj xs)"
proof (induction xs rule: remdups_adj.induct)
  case (3 x y xs)
  then show ?case by (cases "x = y") force+
qed simp_all

lemma names_distinct: "distinct (document_names a b c d e f g)"
  unfolding document_names_def by (rule sorted_distinct_adj) simp

lemma seal_sealed:
  assumes "live_once es" "length (doc_paths (seal es directories modes symlinks xattrs hardlinks)) \<le> Suc u16_max"
  shows "sealed_doc (seal es directories modes symlinks xattrs hardlinks)"
proof -
  obtain ms removed where c: "classify es = (ms, removed)" by fastforce
  define names where "names = document_names ms removed directories modes symlinks xattrs hardlinks"
  define ops1 where "ops1 = fold (seal_file names) (sort_key em_final ms) ([], 0)"
  define ops2 where "ops2 = fold (seal_xattr names) xattrs ops1"
  have int: "intern_all names (doc_paths doc_new) = names"
    using intern_all_distinct [of "[]" names] names_distinct by (simp add: doc_new_def names_def)
  have s: "seal es directories modes symlinks xattrs hardlinks = canonicalize \<lparr>doc_paths = names,
      doc_ops = fst ops2 @ emit_namespace names removed directories modes symlinks hardlinks\<rparr>"
    by (simp add: seal_def c Let_def names_def [symmetric] int ops1_def ops2_def case_prod_unfold)
  have t: "table_ok names" using assms(2) names_distinct by (simp add: table_ok_def s canonicalize_paths names_def)
  have n: "set names = set (concat (map (\<lambda>m. em_final m # (case em_source m of None \<Rightarrow> [] | Some s \<Rightarrow> [s])) ms)
       @ removed @ concat (map directory_names directories) @ map fst modes
       @ concat (map symlink_names symlinks) @ concat (map xattr_names xattrs) @ concat (map link_names hardlinks))"
    by (simp add: names_def document_names_def)
  have ms: "em_final m \<in> set names" "em_source m = Some s \<Longrightarrow> s \<in> set names" if "m \<in> set ms" for m s
    using that by (auto simp: n split: option.split) force
  note k = classified [OF assms(1) c]
  have "\<forall>p\<in>set (fst ops1). placed names ms p" unfolding ops1_def
    by (rule sealed_files_placed [OF t]) (use ms k(2) in auto)
  then have "\<forall>p\<in>set (fst ops2). placed names ms p" unfolding ops2_def
    by (rule sealed_xattrs_placed [OF t, rotated]) (use n in auto)
  moreover have "\<forall>p\<in>set (emit_namespace names removed directories modes symlinks hardlinks). placed names ms p"
    by (rule namespace_placed [OF t]) (use n in auto)
  ultimately have "sealed_doc \<lparr>doc_paths = names, doc_ops = fst ops2 @ emit_namespace names removed directories modes symlinks hardlinks\<rparr>"
    by (intro placed_sealed [OF t _ k(1)]) (use ms in auto)
  then show ?thesis unfolding s by (rule canonicalize_sealed)
qed

lemma emit_specials_paths: "length (doc_paths d) \<le> length (doc_paths (emit_specials c d))"
  using emit_fold_paths [of "(d, _)"] by (simp add: emit_specials_def Let_def case_prod_unfold canonicalize_paths)

theorem composed_sealed:
  assumes "compose_volume b journal = Inr d" "length (doc_paths d) \<le> Suc u16_max"
  shows "sealed_doc d"
proof -
  obtain specials es directories modes symlinks xattrs hardlinks sel where
    f: "try_fold (apply_volume_op b) sel [] = Inr es" and d: "d = emit_specials specials (seal es directories modes symlinks xattrs hardlinks)"
    using assms(1) by (auto simp: compose_volume_def rbind_Inr_iff Let_def)
  have "live_once es" by (rule replay_once [OF f]) (simp add: live_once_def)
  then show ?thesis using emit_specials_sealed seal_sealed emit_specials_paths assms(2) unfolding d by (meson le_trans)
qed

end
