(* ===== verification/Recovery.thy ===== *)
theory Recovery
  imports Merge_Verbs
begin

text \<open>
  The restart of a shard's merge plane (\<open>rebuild_recovered\<close> of \<open>crates/server/src/verbs.rs\<close>): the
  catalog, the chains, the origins and the logs come back from the database; each green is replayed
  from its origin and its chain, folded back to its budget and charged, then each work from its log
  over its green. What a plain volume's rebuild does is outside the merge plane.
\<close>

datatype green_fence =
    OriginCorrupt
  | EntryCorrupt ver
  | NotAccepted ver
  | WrongVersion ver ver
  | OriginUnavailable
  | RetentionShort nat

text \<open>
  The shard as it is rebuilt, the greens fenced, and the count of works left unbuilt
  (\<open>WORK_REBUILD_REFUSED\<close>).
\<close>

record recovery =
  rc_shard :: shard
  rc_fenced :: "(vid, green_fence) btmap"
  rc_refused :: nat

section \<open>Greens\<close>

fun replay_chain :: "nat \<Rightarrow> byte list list \<Rightarrow> green \<Rightarrow> green_fence + green" where
  "replay_chain index [] g = Inr g"
| "replay_chain index (bytes # entries) g =
     (let version = sat_add index 1
      in case inc_decode bytes of
           Inl _ \<Rightarrow> Inl (EntryCorrupt version)
         | Inr increment \<Rightarrow>
             (case submit increment g of
                (Accepted accepted, g) \<Rightarrow>
                  if accepted = version then replay_chain (Suc index) entries g else Inl (WrongVersion version accepted)
              | (OutConflict _, g) \<Rightarrow> Inl (NotAccepted version)))"

text \<open>
  The walk of a held origin's snapshot (\<open>walk_held_origin\<close>) is an argument: it gives the origin, or
  refuses because the origin has another identity (\<open>True\<close>) or for another reason.
\<close>

type_synonym origin_walk = "origin \<Rightarrow> bool + origin"

definition replay_green :: "env \<Rightarrow> origin_walk \<Rightarrow> vid \<Rightarrow> shard \<Rightarrow> green_fence + green" where
  "replay_green ev walk v st =
     rbind (case bt_get (pt_origins (sh_partition st)) v of
              Some snapshot \<Rightarrow>
                (case walk snapshot of
                   Inr origin \<Rightarrow> Inr (with_origin (ev_xof ev) origin)
                 | Inl corrupt \<Rightarrow> Inl (if corrupt then OriginCorrupt else OriginUnavailable))
            | None \<Rightarrow> Inr green_new) (\<lambda>g.
     rbind (replay_chain 0 (log_of (pt_chains (sh_partition st)) v) g) (\<lambda>g.
     Inr (set_rejected_budget (rejected_cache_budget st) g)))"

definition fence_green :: "vid \<Rightarrow> green_fence \<Rightarrow> recovery \<Rightarrow> recovery" where
  "fence_green v fence rc =
     (let st = rc_shard rc;
          st = release_green_retention v (st\<lparr>sh_greens := bt_remove v (sh_greens st)\<rparr>)
      in rc\<lparr>rc_shard := st, rc_fenced := bt_insert v fence (rc_fenced rc)\<rparr>)"

definition rebuild_green :: "env \<Rightarrow> origin_walk \<Rightarrow> vid \<Rightarrow> recovery \<Rightarrow> recovery" where
  "rebuild_green ev walk v rc =
     (case replay_green ev walk v (rc_shard rc) of
        Inl fence \<Rightarrow> fence_green v fence rc
      | Inr g \<Rightarrow>
          let st = rc_shard rc;
              st = st\<lparr>sh_greens := bt_insert v g (sh_greens st)\<rparr>
          in case settle_green_retention ev v st of
               (Inr _, st) \<Rightarrow> rc\<lparr>rc_shard := st\<rparr>
             | (Inl short, st) \<Rightarrow> fence_green v (RetentionShort short) (rc\<lparr>rc_shard := st\<rparr>))"

section \<open>Works\<close>

definition refuse_work :: "recovery \<Rightarrow> recovery" where
  "refuse_work rc = rc\<lparr>rc_refused := rc_refused rc + 1\<rparr>"

definition rebuild_work :: "env \<Rightarrow> vid \<Rightarrow> volume_record \<Rightarrow> vid \<Rightarrow> recovery \<Rightarrow> recovery" where
  "rebuild_work ev v r green rc =
     (let st = rc_shard rc
      in case bt_get (sh_greens st) green of
           None \<Rightarrow> rc
         | Some engine \<Rightarrow>
             let created_at = (case vr_role r of RWork _ base_version _ \<Rightarrow> base_version | _ \<Rightarrow> head engine)
             in case replay (Some engine) created_at (log_of (pt_logs (sh_partition st)) v) of
                  Inl _ \<Rightarrow> refuse_work rc
                | Inr (base_version, fs, journal) \<Rightarrow>
                    let charged = work_footprint (ev_op_size ev) fs journal;
                        b = snd (make_room (ev_claim ev) charged (sh_budget st))
                    in case budget_grow charged b of
                         Inl _ \<Rightarrow> refuse_work (rc\<lparr>rc_shard := st\<lparr>sh_budget := b\<rparr>\<rparr>)
                       | Inr (_, b) \<Rightarrow>
                           rc\<lparr>rc_shard := st\<lparr>sh_budget := b,
                             sh_works := bt_insert v
                               \<lparr>ws_green = green, ws_base = base_version, ws_journal = journal, ws_files = fs,
                                ws_revision = 0, ws_charged = charged\<rparr> (sh_works st)\<rparr>\<rparr>)"

section \<open>The shard\<close>

text \<open>
  The records in their rebuild order: plain volumes, greens, works. The order among greens or among
  works is their lineage depth, which no merge volume has, so it is the catalog's.
\<close>

fun rebuild_pass :: "role \<Rightarrow> nat" where
  "rebuild_pass RPlain = 0"
| "rebuild_pass (RGreen _ _) = 1"
| "rebuild_pass (RWork _ _ _) = 2"

definition rebuild_record :: "env \<Rightarrow> origin_walk \<Rightarrow> vid \<times> volume_record \<Rightarrow> recovery \<Rightarrow> recovery" where
  "rebuild_record ev walk e rc =
     (let (v, r) = e
      in case vr_role r of
           RGreen _ _ \<Rightarrow> rebuild_green ev walk v rc
         | RWork green _ _ \<Rightarrow> rebuild_work ev v r green rc
         | RPlain \<Rightarrow> rc)"

definition rebuild_recovered :: "env \<Rightarrow> origin_walk \<Rightarrow> shard \<Rightarrow> recovery" where
  "rebuild_recovered ev walk st =
     (let records = filter (\<lambda>(_, r). vr_state r \<noteq> Destroying \<and> vr_state r \<noteq> Destroyed) (pt_volumes (sh_partition st));
          records = sort_key (\<lambda>(_, r). rebuild_pass (vr_role r)) records
      in fold (rebuild_record ev walk) records \<lparr>rc_shard = st, rc_fenced = [], rc_refused = 0\<rparr>)"

text \<open>The shard a restart begins with: the tables the database recovered, a budget, and nothing in memory.\<close>

definition restarted :: "partition \<Rightarrow> shard_budget \<Rightarrow> shard" where
  "restarted pt b = \<lparr>sh_partition = pt, sh_greens = [], sh_works = [], sh_retention = [], sh_pins = [], sh_placed = [],
     sh_budget = b\<rparr>"

end
