(* ===== verification/Shadow.thy ===== *)
theory Shadow
  imports Engine_Props
begin

text \<open>
  A green whose histories were folded, against the same green kept whole. A recovery replays the chain
  of a green from its origin, so it rebuilds every history in full; the green that was running had
  folded some of them. Both give the same verdicts at every base that was not folded, and stay alike.
\<close>

section \<open>Folding one history\<close>

text \<open>How many entries a fold drops.\<close>

definition below_floor :: "'a history \<Rightarrow> ver \<Rightarrow> nat" where
  "below_floor h f = length (takeWhile (\<lambda>e. fst e < f) h)"

definition fold_drops :: "'a history \<Rightarrow> ver \<Rightarrow> nat" where
  "fold_drops h f =
     (if below_floor h f < length h \<and> fst (h ! below_floor h f) = f then below_floor h f else below_floor h f - 1)"

lemma below_floor_le [simp]: "below_floor h f \<le> length h"
  by (simp add: below_floor_def length_takeWhile_le)

lemma fold_drops_le: "fold_drops h f \<le> length h" "fold_drops h f \<le> below_floor h f"
  using below_floor_le [of h f] by (auto simp: fold_drops_def intro: le_trans [OF diff_le_self] simp del: below_floor_le)

lemma fold_entries_drop: "fst (fold_entries h f cost) = drop (fold_drops h f) h"
proof -
  let ?b = "length (takeWhile (\<lambda>e. fst e < f) h)"
  have "?b \<le> length h" by (rule length_takeWhile_le)
  then have "?b - 1 \<le> length h" by (rule le_trans [OF diff_le_self])
  with \<open>?b \<le> length h\<close> show ?thesis
    by (auto simp: fold_entries_def fold_drops_def below_floor_def list_get_def Let_def min_def)
qed

lemma fold_entries_Nil [simp]: "fst (fold_entries [] f cost) = []"
  by (simp add: fold_entries_drop)

lemma below_floor_snoc: "f < v \<Longrightarrow> below_floor (h @ [(v, x)]) f = below_floor h f"
  by (induction h) (simp_all add: below_floor_def)

lemma fold_drops_snoc: "f < v \<Longrightarrow> fold_drops (h @ [(v, x)]) f = fold_drops h f"
  using below_floor_le [of h f] by (auto simp: fold_drops_def below_floor_snoc nth_append)

lemma fold_entries_snoc: "f < v \<Longrightarrow> fst (fold_entries (h @ [(v, x)]) f cost) = fst (fold_entries h f cost) @ [(v, x)]"
  using fold_drops_le(1) [of h f] by (simp add: fold_entries_drop fold_drops_snoc)

lemma takeWhile_drop: "n \<le> length (takeWhile P xs) \<Longrightarrow> takeWhile P (drop n xs) = drop n (takeWhile P xs)"
proof (induction xs arbitrary: n)
  case (Cons x xs)
  then show ?case by (cases n) (auto split: if_splits)
qed simp

lemma below_floor_mono: "f \<le> f' \<Longrightarrow> below_floor h f \<le> below_floor h f'"
  by (induction h) (simp_all add: below_floor_def)

lemma below_floor_stop: "below_floor h f < length h \<Longrightarrow> f \<le> fst (h ! below_floor h f)"
  using nth_length_takeWhile [of "\<lambda>e. fst e < f" h] by (simp add: below_floor_def)

lemma fold_drops_twice:
  assumes "f \<le> f'"
  shows "fold_drops h f + fold_drops (drop (fold_drops h f) h) f' = fold_drops h f'"
proof -
  let ?n = "fold_drops h f"
  have n: "?n \<le> below_floor h f'" using fold_drops_le(2) below_floor_mono [OF assms] by (rule le_trans)
  then have b: "below_floor (drop ?n h) f' = below_floor h f' - ?n" by (simp add: below_floor_def takeWhile_drop)
  have i: "drop ?n h ! (below_floor h f' - ?n) = h ! below_floor h f'" using n fold_drops_le(1) [of h f] by (simp add: nth_drop)
  have l: "below_floor h f' - ?n < length h - ?n \<longleftrightarrow> below_floor h f' < length h" using n by auto
  have e: "?n < below_floor h f' \<or> ?n = 0 \<or> below_floor h f' < length h \<and> fst (h ! below_floor h f') = f'"
  proof (rule ccontr)
    assume a: "\<not> ?thesis"
    then have m: "?n = below_floor h f'" "?n \<noteq> 0" using n by auto
    then have "?n = below_floor h f" using fold_drops_le(2) [of h f] below_floor_mono [OF assms, of h] by simp
    then have "below_floor h f < length h \<and> fst (h ! below_floor h f) = f" using m(2) by (auto simp: fold_drops_def split: if_splits)
    then show False using a m \<open>?n = below_floor h f\<close> below_floor_stop [of h f'] assms by auto
  qed
  show ?thesis using n e by (auto simp: fold_drops_def [of "drop ?n h"] fold_drops_def [of h f'] b i l)
qed

lemma fold_entries_twice: "f \<le> f' \<Longrightarrow> fst (fold_entries (fst (fold_entries h f c)) f' d) = fst (fold_entries h f' d)"
  using fold_drops_twice [of f f' h] by (simp add: fold_entries_drop add.commute)

lemma fold_table_twice: "f \<le> f' \<Longrightarrow> fold_table (fold_table hs f) f' = fold_table hs f'"
  by (simp add: fold_table_def fold_entries_twice)

lemma fold_drops_zero [simp]: "fold_drops h 0 = 0"
  by (cases h) (simp_all add: fold_drops_def below_floor_def)

lemma fold_table_zero [simp]: "fold_table hs 0 = hs"
  by (simp add: fold_table_def fold_entries_drop)

lemma bt_insert_map_snd:
  "bt_insert k (f x) (map (\<lambda>e. (fst e, f (snd e))) m) = map (\<lambda>e. (fst e, f (snd e))) (bt_insert k x m)"
  by (induction m) auto

lemma fold_table_push:
  assumes "f < v"
  shows "fold_table (bt_push k (v, x) hs) f = bt_push k (v, x) (fold_table hs f)"
proof -
  let ?g = "\<lambda>h. fst (fold_entries h f (\<lambda>_. 0))"
  have "unwrap_or (bt_get (fold_table hs f) k) [] = ?g (unwrap_or (bt_get hs k) [])"
    by (cases "bt_get hs k") (simp_all add: bt_get_fold_table)
  then show ?thesis
    using bt_insert_map_snd [of k ?g "unwrap_or (bt_get hs k) [] @ [(v, x)]" hs, symmetric]
    by (simp add: bt_push_def fold_table_def fold_entries_snoc [OF assms])
qed

section \<open>A folded green and its whole twin\<close>

text \<open>
  The same tables, indexes, deltas and accepted set, with the histories folded to where the first was
  folded; nothing is said of the identity, the rejected results and the counters.
\<close>

definition twin :: "green \<Rightarrow> green \<Rightarrow> bool" where
  "twin g h \<longleftrightarrow>
     g_content g = g_content h \<and> g_specials g = g_specials h \<and> g_dirs g = g_dirs h \<and> g_modes g = g_modes h
     \<and> g_symlinks g = g_symlinks h \<and> g_hardlinks g = g_hardlinks h \<and> g_xattrs g = g_xattrs h
     \<and> g_last_changed g = g_last_changed h \<and> g_special_changed g = g_special_changed h
     \<and> g_mode_changed g = g_mode_changed h \<and> g_symlink_changed g = g_symlink_changed h
     \<and> g_hardlink_changed g = g_hardlink_changed h \<and> g_xattr_changed g = g_xattr_changed h
     \<and> g_deltas g = g_deltas h \<and> g_accepted g = g_accepted h
     \<and> g_content_history g = fold_table (g_content_history h) (g_folded_below g)
     \<and> g_special_history g = fold_table (g_special_history h) (g_folded_below g)
     \<and> g_mode_history g = fold_table (g_mode_history h) (g_folded_below g)
     \<and> g_symlink_history g = fold_table (g_symlink_history h) (g_folded_below g)
     \<and> g_hardlink_history g = fold_table (g_hardlink_history h) (g_folded_below g)
     \<and> g_xattr_history g = fold_table (g_xattr_history h) (g_folded_below g)
     \<and> g_dir_history g = fold_table (g_dir_history h) (g_folded_below g)"

lemma twin_refl: "g_folded_below g = 0 \<Longrightarrow> twin g g"
  by (simp add: twin_def)

lemma twin_head: "twin g h \<Longrightarrow> head g = head h"
  by (simp add: twin_def head_def)

lemma twin_content_at: "twin g h \<Longrightarrow> g_folded_below g \<le> w \<Longrightarrow> content_at g p w = content_at h p w"
  by (simp add: twin_def content_at_def fold_table_reads)

lemma twin_hits: "twin (g\<lparr>g_fast_path_hits := n\<rparr>) h = twin g h" "twin g (h\<lparr>g_fast_path_hits := n\<rparr>) = twin g h"
  by (simp_all add: twin_def)

text \<open>What only the cache and the counters differ in keeps its twin.\<close>

lemma twin_chain:
  assumes "chain_state g' = chain_state g" "twin g h"
  shows "twin g' h"
proof -
  note c = arg_cong [OF assms(1)]
  show ?thesis using assms(2)
    c [of g_content] c [of g_specials] c [of g_dirs] c [of g_modes] c [of g_symlinks] c [of g_hardlinks] c [of g_xattrs]
    c [of g_last_changed] c [of g_special_changed] c [of g_mode_changed] c [of g_symlink_changed]
    c [of g_hardlink_changed] c [of g_xattr_changed] c [of g_deltas] c [of g_accepted] c [of g_content_history]
    c [of g_special_history] c [of g_mode_history] c [of g_symlink_history] c [of g_hardlink_history]
    c [of g_xattr_history] c [of g_dir_history] c [of g_folded_below]
    by (simp add: twin_def chain_state_def)
qed

lemma twin_fold:
  assumes "twin g h"
  shows "twin (snd (fold_history_before xof f g)) h"
  using assms by (simp add: twin_def fold_history_before_def fold_identity_def Let_def fold_table_twice)

subsection \<open>Verdicts\<close>

lemma twin_names:
  assumes "twin g h"
  shows "occupied_by_nonfile g = occupied_by_nonfile h" "merge_rename g = merge_rename h"
    "merge_create g = merge_create h" "merge_unlink g = merge_unlink h" "merge_mkdir g = merge_mkdir h"
    "has_live_child g = has_live_child h" "merge_rmdir g = merge_rmdir h" "merge_symlink g = merge_symlink h"
    "merge_hardlink g = merge_hardlink h" "merge_special g = merge_special h" "intervening g = intervening h"
  using assms
  by (simp_all add: twin_def fun_eq_iff Let_def cong: option.case_cong if_cong add: occupied_by_nonfile_def merge_rename_def merge_create_def merge_unlink_def
    merge_mkdir_def has_live_child_def merge_rmdir_def merge_symlink_def merge_hardlink_def merge_special_def
    intervening_def)

lemma twin_kinds:
  assumes "twin g h" "g_folded_below g \<le> b"
  shows "special_kind_changed g p b = special_kind_changed h p b"
  using assms by (simp add: twin_def special_kind_changed_def fold_table_reads)

lemma twin_metadata:
  assumes "twin g h" "g_folded_below g \<le> inc_base inc"
  shows "decide_metadata g inc r acc = decide_metadata h inc r acc"
proof -
  have "merge_setmode g p (inc_base inc) = merge_setmode h p (inc_base inc)"
    "merge_set_xattr g p n (inc_base inc) = merge_set_xattr h p n (inc_base inc)"
    "merge_remove_xattr g p n (inc_base inc) = merge_remove_xattr h p n (inc_base inc)" for p n
    using assms twin_kinds [OF assms]
    by (simp_all add: twin_def fun_eq_iff merge_setmode_def merge_set_xattr_def merge_remove_xattr_def)
  then show ?thesis by (simp add: decide_metadata_def twin_names [OF assms(1)])
qed

lemma twin_content:
  assumes "twin g h" "g_folded_below g \<le> inc_base inc"
  shows "fst (merge_content inc p ops g) = fst (merge_content inc p ops h)"
    "twin (snd (merge_content inc p ops g)) (snd (merge_content inc p ops h))"
    "g_folded_below (snd (merge_content inc p ops g)) = g_folded_below g"
proof -
  have "judge_content g inc q os = judge_content h inc q os" for q os
    using assms twin_content_at [OF assms] by (simp add: fun_eq_iff judge_content_def twin_def)
  then show "fst (merge_content inc p ops g) = fst (merge_content inc p ops h)"
    using assms(1) twin_names(1,11) [OF assms(1)] by (simp add: merge_content_def twin_def Let_def)
  show "twin (snd (merge_content inc p ops g)) (snd (merge_content inc p ops h))"
    using assms(1) by (simp add: merge_content_def twin_hits Let_def)
qed (simp add: merge_content_def Let_def)

lemma twin_edits:
  assumes "twin g h" "g_folded_below g \<le> inc_base inc"
  shows "fst (fold (decide_edit inc r) es (acc, g)) = fst (fold (decide_edit inc r) es (acc, h))
    \<and> twin (snd (fold (decide_edit inc r) es (acc, g))) (snd (fold (decide_edit inc r) es (acc, h)))
    \<and> g_folded_below (snd (fold (decide_edit inc r) es (acc, g))) = g_folded_below g"
  using assms
proof (induction es arbitrary: acc g h)
  case (Cons e es)
  obtain effects windows where acc: "acc = (effects, windows)" by (cases acc)
  obtain p ops where e: "e = (p, ops)" by (cases e)
  note m = twin_content [OF Cons.prems, of p ops]
  obtain x g' where g': "merge_content inc p ops g = (x, g')" by fastforce
  then obtain h' where h': "merge_content inc p ops h = (x, h')" using m(1) by (cases "merge_content inc p ops h") simp
  have t: "twin g' h'" "g_folded_below g' = g_folded_below g" using m(2,3) g' h' by simp_all
  define acc' where "acc' = (case x of Inr (Some f) \<Rightarrow> (effects @ [f], windows) | Inr None \<Rightarrow> (effects, windows)
    | Inl found \<Rightarrow> (effects, windows @ found))"
  have s: "decide_edit inc r e (acc, y) = (if bs_mem (rs_creates r) p \<or> bt_contains (rs_renames r) p then (acc, y) else (acc', y'))"
    if "merge_content inc p ops y = (x, y')" for y y'
    using that by (simp add: decide_edit_def e acc acc'_def split: sum.split option.split)
  show ?case using Cons.IH [of g h acc] Cons.IH [of g' h' acc'] Cons.prems t s [OF g'] s [OF h'] by simp
qed simp_all

lemma twin_decide:
  assumes "twin g h" "g_folded_below g \<le> inc_base inc"
  shows "fst (decide inc r g) = fst (decide inc r h)"
proof -
  have u: "unfit_content g inc r = unfit_content h inc r"
    unfolding unfit_content_def Let_def twin_content_at [OF assms] by (rule refl)
  define acc where "acc = fold (\<lambda>(p, node). record_result (merge_special h p (inc_base inc) node)) (rs_specials r)
    ([], map (\<lambda>p. window p TypeChanged) (rs_invalid r @ unfit_content h inc r))"
  have c: "fst (decide_content inc r (acc, g)) = fst (decide_content inc r (acc, h))"
    "twin (snd (decide_content inc r (acc, g))) (snd (decide_content inc r (acc, h)))"
    "g_folded_below (snd (decide_content inc r (acc, g))) = g_folded_below g"
    using twin_edits [OF assms] by (simp_all add: decide_content_def Let_def twin_names [OF assms(1)])
  obtain a g' where g': "decide_content inc r (acc, g) = (a, g')" by fastforce
  obtain h' where h': "decide_content inc r (acc, h) = (a, h')" using c(1) g' by (cases "decide_content inc r (acc, h)") simp
  have t: "twin g' h'" "g_folded_below g' \<le> inc_base inc" using c(2,3) g' h' assms(2) by simp_all
  have d: "decide_directories g' r a = decide_directories h' r a"
    by (simp add: decide_directories_def twin_names [OF t(1)])
  show ?thesis
    unfolding decide_def u twin_names(10) [OF assms(1)] Let_def acc_def [symmetric] g' h' prod.case d twin_metadata [OF t]
    by (simp split: prod.split)
qed

subsection \<open>Commits\<close>

lemma twin_mark: "twin g h \<Longrightarrow> twin (mark k g) (mark k h)"
  by (simp add: twin_def mark_def)

lemma twin_drop_xattrs:
  assumes "twin g h" "g_folded_below g < v"
  shows "twin (fold (drop_xattr v) ks g) (fold (drop_xattr v) ks h)"
  using assms by (induction ks arbitrary: g h) (simp_all add: twin_def drop_xattr_def mark_def fold_table_push)

lemma twin_drop_mode:
  assumes "twin g h" "g_folded_below g < v"
  shows "twin (drop_mode p v g) (drop_mode p v h)"
  using assms by (simp add: twin_def drop_mode_def mark_def fold_table_push)

lemma twin_special_history:
  assumes "twin g h" "g_folded_below g < v"
  shows "twin (g\<lparr>g_special_history := bt_push p (v, x) (g_special_history g)\<rparr>)
    (h\<lparr>g_special_history := bt_push p (v, x) (g_special_history h)\<rparr>)"
  using assms by (simp add: twin_def fold_table_push)

lemma drop_folded [simp]: "g_folded_below (drop_mode p v g) = g_folded_below g"
    "g_folded_below (drop_xattr v k g) = g_folded_below g"
  by (simp_all add: drop_mode_def drop_xattr_def mark_def)

lemma drop_xattrs_folded [simp]: "g_folded_below (fold (drop_xattr v) ks g) = g_folded_below g"
  by (induction ks arbitrary: g) simp_all

lemma twin_remove_special:
  assumes "twin g h" "g_folded_below g < v"
  shows "twin (remove_special p v g) (remove_special p v h)"
proof -
  let ?start = "\<lambda>x. (if bt_contains (g_specials x) p then charge special_node_bytes x else x)
    \<lparr>g_specials := bt_remove p (g_specials x), g_special_changed := bt_insert p v (g_special_changed x)\<rparr>"
  have f: "g_folded_below (?start g) = g_folded_below g" by (simp add: charge_def)
  have "twin (?start g) (?start h)" using assms(1) by (simp add: twin_def charge_def)
  then have d: "twin (drop_mode p v (?start g)) (drop_mode p v (?start h))"
    using assms(2) by (intro twin_drop_mode) (simp_all add: charge_def)
  have x: "g_xattrs (drop_mode p v (?start g)) = g_xattrs (drop_mode p v (?start h))" using d by (simp add: twin_def)
  have g: "g_specials (if b then charge n y else y) = g_specials y"
    "g_special_changed (if b then charge n y else y) = g_special_changed y" for b n y
    by (simp_all add: charge_def)
  show ?thesis
    unfolding remove_special_def Let_def g x
    by (intro twin_special_history twin_drop_xattrs d) (use assms(2) in \<open>simp_all add: charge_def\<close>)
qed

lemma twin_commit_now:
  assumes "twin g h" "g_folded_below g < v"
  shows "twin (commit_now v e g) (commit_now v e h)"
proof (cases e)
  case (RemoveSpecial p)
  then show ?thesis using twin_remove_special [OF assms] by simp
qed (use assms in \<open>simp_all add: twin_def fold_table_push commit_special_def charge_def Let_def\<close>)

lemma commit_now_folded [simp]: "g_folded_below (commit_now v e g) = g_folded_below g"
  by (cases e) (simp_all add: commit_special_def remove_special_def charge_def Let_def)

lemma twin_effects:
  assumes "twin g h" "g_folded_below g < v"
  shows "snd (fold (commit_effect v) es (g, st)) = snd (fold (commit_effect v) es (h, st))
    \<and> twin (fst (fold (commit_effect v) es (g, st))) (fst (fold (commit_effect v) es (h, st)))
    \<and> g_folded_below (fst (fold (commit_effect v) es (g, st))) = g_folded_below g"
  using assms
proof (induction es arbitrary: g h st)
  case (Cons e es)
  have "g_folded_below (mark (effect_key e) g) = g_folded_below g" by (simp add: mark_def)
  then have "twin (commit_now v e (mark (effect_key e) g)) (commit_now v e (mark (effect_key e) h))"
    "g_folded_below (commit_now v e (mark (effect_key e) g)) = g_folded_below g"
    using twin_commit_now [OF twin_mark [OF Cons.prems(1)], of _ v e] Cons.prems(2) by simp_all
  then show ?case using Cons.IH Cons.prems(2) by (cases st) (simp add: commit_effect_def)
qed simp

lemma twin_removals:
  assumes "twin g h" "g_folded_below g < v"
  shows "twin (fold (remove_content v) ps g) (fold (remove_content v) ps h)
    \<and> g_folded_below (fold (remove_content v) ps g) = g_folded_below g"
  using assms
proof (induction ps arbitrary: g h)
  case (Cons p ps)
  have "twin (remove_content v p g) (remove_content v p h)"
    using Cons.prems by (cases "bt_get (g_content h) p") (simp_all add: twin_def remove_content_def charge_def fold_table_push)
  moreover have "g_folded_below (remove_content v p g) = g_folded_below g"
    by (simp add: remove_content_def charge_def split: option.split)
  ultimately show ?case using Cons.IH Cons.prems(2) by simp
qed simp

lemma twin_sets:
  assumes "twin g h" "g_folded_below g < v"
  shows "twin (fold (set_content v) ss g) (fold (set_content v) ss h)
    \<and> g_folded_below (fold (set_content v) ss g) = g_folded_below g"
  using assms
proof (induction ss arbitrary: g h)
  case (Cons s ss)
  obtain p bytes ops where s: "s = (p, bytes, ops)" by (cases s)
  have "twin (set_content v s g) (set_content v s h)"
    using Cons.prems by (cases "bt_get (g_content h) p") (simp_all add: twin_def set_content_def charge_def fold_table_push s)
  moreover have "g_folded_below (set_content v s g) = g_folded_below g"
    by (simp add: set_content_def charge_def s split: option.split)
  ultimately show ?case using Cons.IH Cons.prems(2) by simp
qed simp

lemma twin_commit:
  assumes "twin g h" "g_folded_below g < v"
  shows "twin (commit es v g) (commit es v h)" "g_folded_below (commit es v g) = g_folded_below g"
proof -
  note e = twin_effects [OF assms, of es "([], [])"]
  obtain g1 rs ss where g1: "fold (commit_effect v) es (g, [], []) = (g1, rs, ss)" by (rule prod_cases3)
  obtain h1 where h1: "fold (commit_effect v) es (h, [], []) = (h1, rs, ss)"
    using e g1 by (cases "fold (commit_effect v) es (h, [], [])") simp
  have 1: "twin g1 h1" "g_folded_below g1 < v" "g_folded_below g1 = g_folded_below g" using e g1 h1 assms(2) by simp_all
  note 2 = twin_removals [OF 1(1,2), of rs]
  then have 3: "twin (fold (set_content v) ss (fold (remove_content v) rs g1)) (fold (set_content v) ss (fold (remove_content v) rs h1))
    \<and> g_folded_below (fold (set_content v) ss (fold (remove_content v) rs g1)) = g_folded_below g1"
    using twin_sets 1(2) by metis
  then show "twin (commit es v g) (commit es v h)" by (simp add: commit_def g1 h1 Let_def twin_def)
  show "g_folded_below (commit es v g) = g_folded_below g" using 3 1(3) by (simp add: commit_def g1 Let_def)
qed

subsection \<open>Submits\<close>

text \<open>What a replay of a chain rebuilds: no history folded, no result rejected.\<close>

definition whole :: "xof \<Rightarrow> green \<Rightarrow> bool" where
  "whole xof h \<longleftrightarrow> green_ok xof h \<and> g_rejected h = [] \<and> g_rejected_bytes h = 0 \<and> g_folded_below h = 0 \<and> tallied h"

lemma tallied_chain:
  assumes "chain_state a = chain_state b"
  shows "tallied a \<longleftrightarrow> tallied b"
  using chain_accounting(1) [OF assms] arg_cong [OF assms, of g_history_bytes] by (simp add: tallied_def chain_state_def)

lemma whole_origin: "whole xof (with_origin xof s)"
  using with_origin_ok [of xof s] by (simp add: whole_def with_origin_shape tallied_def retained_exact_def vd_retained_seed)

lemma no_hits_twin:
  assumes "no_hits g' = no_hits g" "no_hits h' = no_hits h" "twin g h"
  shows "twin g' h'"
proof -
  note e = no_hits_set [OF assms(1), of 0] no_hits_set [OF assms(2), of 0]
  have "twin g' h' = twin (g'\<lparr>g_fast_path_hits := 0\<rparr>) (h'\<lparr>g_fast_path_hits := 0\<rparr>)" by (simp only: twin_hits)
  also have "\<dots> = twin g h" by (simp only: e twin_hits)
  finally show ?thesis using assms(3) by simp
qed

lemma twin_submit:
  assumes t: "twin g h" and base: "g_folded_below g \<le> inc_base inc" "g_folded_below g \<le> head g"
    and h: "whole xof h" and fit: "head g < u64_max"
    and s: "submit inc g = (Accepted v, g')" "bt_get (g_accepted g) (inc_id inc) = None"
  obtains h' where "submit inc h = (Accepted v, h')" "twin g' h'" "whole xof h'" "v = Suc (head g)"
    "head h' = Suc (head g)"
proof -
  have hd: "head h = head g" "bt_get (g_accepted h) (inc_id inc) = None" "bt_get (g_rejected h) (inc_id inc) = None"
    using twin_head [OF t] t s(2) h by (simp_all add: twin_def whole_def)
  have v: "sat_add (head g) 1 = Suc (head g)" using fit by (simp add: sat_add_small)
  obtain es a where a: "decide inc (resolve inc) g = (Inr es, a)" "no_hits a = no_hits g"
    "submit inc g = (Accepted (sat_add (head g) 1), (commit es (sat_add (head g) 1) a)\<lparr>g_accepted :=
       bt_insert (inc_id inc) (sat_add (head g) 1) (g_accepted (commit es (sat_add (head g) 1) a))\<rparr>)"
  proof (cases rule: submit_cases [of g inc])
    case (accept es x)
    then show ?thesis by (intro that [of es x])
  qed (use s in simp_all)
  obtain b where b: "decide inc (resolve inc) h = (Inr es, b)"
    using twin_decide [OF t base(1), of "resolve inc"] a(1) by (cases "decide inc (resolve inc) h") simp
  have nb: "no_hits b = no_hits h" using decide_green [of inc "resolve inc" h] by (simp add: b)
  note na = no_hits_chain [OF a(2)] and ca = no_hits_chain [OF nb]
  have fa: "g_folded_below a < Suc (head g)" using arg_cong [OF na, of g_folded_below] base(2) by simp
  have hb: "head b = head g" "green_ok xof b" "g_rejected b = []" "g_folded_below b = 0" "g_rejected_bytes b = 0" "tallied b"
    using arg_cong [OF ca, of head] arg_cong [OF ca, of g_folded_below] green_ok_chain [OF ca, of xof] h hd(1)
      no_hits_cache [OF nb] tallied_chain [OF ca] by (simp_all add: whole_def cache_view_def)
  define h' where "h' = (commit es (Suc (head g)) b)\<lparr>g_accepted := bt_insert (inc_id inc) (Suc (head g))
      (g_accepted (commit es (Suc (head g)) b))\<rparr>"
  have sh: "submit inc h = (Accepted (Suc (head g)), h')"
    using hd b v by (simp add: submit_def Let_def h'_def hb(1))
  have "twin (commit es (Suc (head g)) a) (commit es (Suc (head g)) b)"
    by (rule twin_commit(1) [OF no_hits_twin [OF a(2) nb t] fa])
  then have tw: "twin g' h'" using a(3) s(1) v by (auto simp: h'_def twin_def)
  note k = green_ok_commit [OF hb(2), of es, unfolded hb(1)]
  have "green_ok xof (x\<lparr>g_accepted := m\<rparr>) = green_ok xof x" for x m
    using entries_dims [of "x\<lparr>g_accepted := m\<rparr>" x] by (simp add: green_ok_def identity_ok_def dim_defs head_def)
  then have "whole xof h'" using k(1,7,9,11,13) hb(3-6)
    by (simp add: whole_def h'_def tallied_def retained_exact_def dim_defs)
  moreover have "head h' = Suc (head g)" using k(2) by (simp add: h'_def head_def)
  ultimately show thesis using that sh tw a(3) s(1) v by auto
qed

lemma twin_fold_budget:
  assumes "twin g h"
  shows "twin (snd (fold_budget_loop xof floor budget released g)) h"
  using assms
proof (induction xof floor budget released g rule: fold_budget_loop.induct)
  case (1 xof floor budget released g)
  let ?f = "fold_history_before xof (sat_add (g_folded_below g) 1) g"
  show ?case
  proof (cases "g_history_bytes g > budget \<and> g_folded_below g < min floor u64_max")
    case True
    have "twin (snd ?f) h" by (rule twin_fold [OF "1.prems"])
    then have "twin (snd (fold_budget_loop xof floor budget (sat_add released (fst ?f)) (snd ?f))) h"
      by (rule "1.IH" [OF True refl refl prod.collapse])
    then show ?thesis using True by (subst fold_budget_loop.simps) (simp add: Let_def case_prod_unfold)
  next
    case False
    then have "fold_budget_loop xof floor budget released g = (released, g)" by (subst fold_budget_loop.simps) auto
    then show ?thesis using "1.prems" by simp
  qed
qed

end
