(* ===== verification/Service_Chains.thy ===== *)
theory Service_Chains
  imports Service_Edits Shadow Recovery Seal_Laws
begin

text \<open>
  The durable chain of a green against the engine: through every run, the origin and the chain the
  partition holds for a green replay to the engine as it would be had it never folded.
\<close>

section \<open>One green\<close>

definition chain_of :: "shard \<Rightarrow> vid \<Rightarrow> byte list list" where
  "chain_of st k = log_of (pt_chains (sh_partition st)) k"

definition origin_of :: "shard \<Rightarrow> vid \<Rightarrow> origin option" where
  "origin_of st k = bt_get (pt_origins (sh_partition st)) k"

definition seeded :: "env \<Rightarrow> origin option \<Rightarrow> green" where
  "seeded ev seed = (case seed of None \<Rightarrow> green_new | Some s \<Rightarrow> with_origin (ev_xof ev) s)"

definition green_logged :: "env \<Rightarrow> byte list list \<Rightarrow> origin option \<Rightarrow> green \<Rightarrow> bool" where
  "green_logged ev entries seed g \<longleftrightarrow>
     (\<exists>h. replay_chain 0 entries (seeded ev seed) = Inr h \<and> whole (ev_xof ev) h \<and> twin g h \<and> length entries = head g)"

lemma replay_chain_append:
  "replay_chain i (xs @ ys) g = rbind (replay_chain i xs g) (replay_chain (i + length xs) ys)"
  by (induction i xs g rule: replay_chain.induct) (auto simp: Let_def split: sum.split prod.split outcome.split)

lemma whole_seeded: "whole (ev_xof ev) (seeded ev seed)"
  using whole_origin by (simp add: seeded_def green_new_origin [of "ev_xof ev"] split: option.split)

lemma seeded_logged: "green_logged ev [] seed (set_rejected_budget n (seeded ev seed))"
proof -
  have "twin (seeded ev seed) (seeded ev seed)" using whole_seeded [of ev seed] by (intro twin_refl) (simp add: whole_def)
  then have "twin (set_rejected_budget n (seeded ev seed)) (seeded ev seed)" by (rule twin_chain [OF budget_chain])
  moreover have "head (seeded ev seed) = 0"
    using with_origin_ok(2) by (simp add: seeded_def green_new_origin [of "ev_xof ev"] split: option.split)
  ultimately show ?thesis using whole_seeded twin_head by (auto simp: green_logged_def)
qed

lemma accept_logged:
  assumes "green_logged ev entries seed g" "submit inc g = (Accepted v, g')" "bt_get (g_accepted g) (inc_id inc) = None"
    and "g_folded_below g \<le> inc_base inc" "g_folded_below g \<le> head g" "head g < u64_max"
    and "inc_ok inc" "length (inc_encode inc) \<le> u64_max"
  shows "green_logged ev (entries @ [inc_encode inc]) seed g'" "v = Suc (length entries)"
proof -
  obtain h where h: "replay_chain 0 entries (seeded ev seed) = Inr h" "whole (ev_xof ev) h" "twin g h" "length entries = head g"
    using assms(1) by (auto simp: green_logged_def)
  obtain h' where h': "submit inc h = (Accepted v, h')" "twin g' h'" "whole (ev_xof ev) h'" "v = Suc (head g)" "head h' = Suc (head g)"
    by (rule twin_submit [OF h(3) assms(4,5) h(2) assms(6,2,3)])
  show "v = Suc (length entries)" by (simp add: h'(4) h(4))
  have d: "inc_decode (inc_encode inc) = Inr inc" by (rule inc_decode_encode [OF assms(7,8)])
  have r: "replay_chain 0 (entries @ [inc_encode inc]) (seeded ev seed) = Inr h'"
    using h(4) h'(1,4) assms(6) by (simp add: replay_chain_append h(1) d sat_add_small)
  show "green_logged ev (entries @ [inc_encode inc]) seed g'"
    using r h h' twin_head [OF h'(2)] by (auto simp: green_logged_def)
qed

section \<open>The chains of a shard\<close>

definition chained :: "env \<Rightarrow> shard \<Rightarrow> bool" where
  "chained ev st \<longleftrightarrow> (\<forall>k g. bt_get (sh_greens st) k = Some g \<longrightarrow> green_logged ev (chain_of st k) (origin_of st k) g)"

text \<open>
  The engines stay reachable with their histories within the budget of a green; a step that commits
  nothing keeps the twins of an engine and lets its histories shrink only.
\<close>

definition kept :: "env \<Rightarrow> shard \<Rightarrow> bool" where
  "kept ev st \<longleftrightarrow> rejected_cache_budget st < u64_max \<and> (\<forall>k g. bt_get (sh_greens st) k = Some g \<longrightarrow>
     reachable (ev_xof ev) g \<and> g_history_bytes g \<le> rejected_cache_budget st)"

definition standing :: "env \<Rightarrow> shard \<Rightarrow> bool" where
  "standing ev st \<longleftrightarrow> chained ev st \<and> kept ev st"

definition quiet :: "env \<Rightarrow> green \<Rightarrow> green \<Rightarrow> bool" where
  "quiet ev g g' \<longleftrightarrow> (\<forall>h. twin g h \<longrightarrow> twin g' h)
     \<and> (reachable (ev_xof ev) g \<longrightarrow> reachable (ev_xof ev) g' \<and> g_history_bytes g' \<le> g_history_bytes g)"

lemma quiet_refl [simp]: "quiet ev g g"
  by (simp add: quiet_def)

lemma quiet_trans: "quiet ev a b \<Longrightarrow> quiet ev b c \<Longrightarrow> quiet ev a c"
  by (auto simp: quiet_def)

lemma quiet_fold: "quiet ev g (snd (fold_history_to_budget (ev_xof ev) floor n g))"
proof -
  have "g_history_bytes (snd (fold_budget_loop (ev_xof ev) floor n 0 g)) \<le> g_history_bytes g" if "reachable (ev_xof ev) g"
  proof -
    have a: "accounted g" "retained_exact g \<le> u64_max" using reachable_inv [OF that] by (simp_all add: green_inv_def)
    note l = fold_budget_laws [OF a, where released = 0 and xof = "ev_xof ev" and reachable = floor and budget = n]
    show ?thesis using l(1,2) a by (simp add: accounted_def)
  qed
  then show ?thesis
    using reachable.folded_to_budget [of "ev_xof ev" g floor n] by (simp add: quiet_def fold_history_to_budget_def twin_fold_budget)
qed

lemma quiet_chain:
  assumes "chain_state g' = chain_state g" "reachable (ev_xof ev) g \<Longrightarrow> reachable (ev_xof ev) g'"
  shows "quiet ev g g'"
  using twin_chain [OF assms(1)] arg_cong [OF assms(1), of g_history_bytes] assms(2) by (simp add: quiet_def)

lemma quiet_conflict:
  assumes "submit inc g = (OutConflict ws, h)" "chain_state h = chain_state g" "head g < u64_max"
  shows "quiet ev g h"
proof (rule quiet_chain [OF assms(2)])
  assume g: "reachable (ev_xof ev) g"
  then have "retained_exact h \<le> u64_max" using chain_accounting(1) [OF assms(2)] reachable_inv [OF g] by (simp add: green_inv_def)
  then show "reachable (ev_xof ev) h" using reachable.submitted [OF g assms(3), of inc] assms(1) by simp
qed

text \<open>A step that records no version: each green left keeps its chain and its origin, and is quiet.\<close>

definition trails :: "env \<Rightarrow> shard \<Rightarrow> shard \<Rightarrow> bool" where
  "trails ev st st' \<longleftrightarrow> pt_merge_cap (sh_partition st') = pt_merge_cap (sh_partition st) \<and> (\<forall>k g'. bt_get (sh_greens st') k = Some g' \<longrightarrow>
     chain_of st' k = chain_of st k \<and> origin_of st' k = origin_of st k
     \<and> (\<exists>g. bt_get (sh_greens st) k = Some g \<and> quiet ev g g'))"

lemma trails_refl [simp]: "trails ev st st"
  by (simp add: trails_def)

lemma trails_trans: "trails ev a b \<Longrightarrow> trails ev b c \<Longrightarrow> trails ev a c"
  unfolding trails_def by (metis quiet_trans)

lemma trails_chained:
  assumes "trails ev st st'" "chained ev st"
  shows "chained ev st'"
  unfolding chained_def
proof (intro allI impI)
  fix k g' assume g': "bt_get (sh_greens st') k = Some g'"
  then obtain g where g: "bt_get (sh_greens st) k = Some g" "\<And>h. twin g h \<Longrightarrow> twin g' h"
    and same: "chain_of st' k = chain_of st k" "origin_of st' k = origin_of st k"
    using assms(1) unfolding trails_def quiet_def by blast
  have "green_logged ev (chain_of st k) (origin_of st k) g" using assms(2) g(1) by (simp add: chained_def)
  then obtain h where "replay_chain 0 (chain_of st k) (seeded ev (origin_of st k)) = Inr h" "whole (ev_xof ev) h" "twin g h"
    "length (chain_of st k) = head g" by (auto simp: green_logged_def)
  then show "green_logged ev (chain_of st' k) (origin_of st' k) g'"
    using g(2) twin_head [of g h] twin_head [of g' h] by (auto simp: green_logged_def same)
qed

lemma trails_standing:
  assumes "trails ev st st'" "standing ev st"
  shows "standing ev st'"
proof -
  have "kept ev st'"
    using assms unfolding standing_def kept_def trails_def quiet_def rejected_cache_budget_def by (metis le_trans)
  then show ?thesis using trails_chained [OF assms(1)] assms(2) by (simp add: standing_def)
qed

lemma trails_same:
  assumes "sh_greens st' = sh_greens st" "pt_chains (sh_partition st') = pt_chains (sh_partition st)"
    "pt_merge_cap (sh_partition st') = pt_merge_cap (sh_partition st)" "pt_origins (sh_partition st') = pt_origins (sh_partition st)"
  shows "trails ev st st'"
  using assms by (simp add: trails_def chain_of_def origin_of_def)

lemma trails_engine:
  assumes "bt_get (sh_greens st) k = Some g" "quiet ev g g'"
    "sh_greens st' = bt_insert k g' (sh_greens st)" "sh_partition st' = sh_partition st"
  shows "trails ev st st'"
  using assms by (auto simp: trails_def chain_of_def origin_of_def)

lemma trails_settle: "trails ev st (snd (settle_green_retention ev k st))"
proof (cases "bt_get (sh_greens st) k")
  case None
  then show ?thesis by (intro trails_same) (simp_all add: settle_greens)
next
  case (Some g)
  then show ?thesis
    by (intro trails_engine [OF Some, where g' = "snd (fold_history_to_budget (ev_xof ev) (reachable_floor st k) (rejected_cache_budget st) g)"])
      (simp_all add: settle_greens quiet_fold)
qed

text \<open>The operations that move neither a chain nor an origin.\<close>

fun unchained :: "db_op \<Rightarrow> bool" where
  "unchained (GreenAdvanced _ _) = False"
| "unchained (GreenOriginHeld _ _) = False"
| "unchained (VolumeDestroyed _) = False"
| "unchained _ = True"

lemma unchained_apply:
  "unchained p \<Longrightarrow> pt_chains (partition_apply p pt) = pt_chains pt \<and> pt_origins (partition_apply p pt) = pt_origins pt
    \<and> pt_merge_cap (partition_apply p pt) = pt_merge_cap pt"
  by (cases p) simp_all

lemma trails_db: "db_mutate p st = Inr st' \<Longrightarrow> unchained p \<Longrightarrow> trails ev st st'"
  using db_mutate_frame [of p st st'] unchained_apply [of p "sh_partition st"] by (intro trails_same) simp_all

lemma finish_change_frame:
  assumes "finish_change work amounts change answer st = (r, st')"
  shows "sh_greens st' = sh_greens st" "sh_partition st' = sh_partition st"
  using assms by (auto simp: finish_change_def Let_def case_prod_unfold split: option.splits sum.splits)

lemma record_partition:
  assumes "record_work_change ev work added entry st = (r, st')"
  shows "sh_partition st' = (if r = Inr () then partition_apply (WorkLogged work (entry_encode entry)) (sh_partition st)
    else sh_partition st)"
proof -
  obtain q st1 where q: "charge_grow ev work added st = (q, st1)" by fastforce
  have "sh_partition st1 = sh_partition st" using charge_grow_frame(3) [of ev work added st] by (simp add: q)
  then show ?thesis
    using assms unfolding record_work_change_def Let_def q
    by (auto split: option.splits sum.splits simp del: partition_apply.simps dest: db_mutate_frame(6))
qed

lemma trails_changes:
  assumes "changes ev work st st'"
  shows "trails ev st st'"
proof -
  have r: "trails ev st s" if "record_work_change ev work added entry st = (q, s)" for added entry q s
    using record_work_change_frame(1) [OF that] record_partition [OF that] by (intro trails_same) simp_all
  show ?thesis using assms unfolding changes_def
  proof (elim disjE exE conjE)
    fix added entry st1 amounts change answer q
    assume c: "record_work_change ev work added entry st = (Inr (), st1)" "finish_change work amounts change answer st1 = (q, st')"
    have "trails ev st1 st'" using finish_change_frame [OF c(2)] by (intro trails_same) simp_all
    then show ?thesis by (rule trails_trans [OF r [OF c(1)]])
  qed (simp_all add: r)
qed

lemma trails_insert_same: "bt_get (sh_greens st) k = Some g \<Longrightarrow> trails ev st (st\<lparr>sh_greens := bt_insert k g (sh_greens st)\<rparr>)"
  by (rule trails_engine [where g = g and g' = g]) simp_all

lemma trails_finish_rebase: "trails ev st (snd (finish_rebase ev work k v changed journal st))"
proof -
  let ?p = "restatement work (restated v changed journal)"
  obtain q st1 where q: "charge_set_to ev work (work_footprint (ev_op_size ev) changed journal) st = (q, st1)" by fastforce
  have st1: "trails ev st st1" using charge_set_to_frame(1,3) [of ev work "work_footprint (ev_op_size ev) changed journal" st]
    by (intro trails_same) (simp_all add: q)
  have c: "trails ev x (snd (charge_set_to ev work n x))" for n x by (intro trails_same) simp_all
  have m: "trails ev st x" if "db_mutate ?p st1 = Inr x" for x
    by (rule trails_trans [OF st1 trails_db [OF that]]) (simp add: restatement_def)
  have w: "trails ev x (x\<lparr>sh_works := ws\<rparr>)" for x ws by (intro trails_same) simp_all
  show ?thesis
    using st1 trails_trans [OF st1 c] trails_trans [OF trails_trans [OF m w] trails_settle] trails_trans [OF m trails_settle]
    unfolding finish_rebase_def Let_def q by (auto simp del: partition_check.simps split: option.split sum.split)
qed

lemma trails_rebase: "trails ev st (snd (rebase_verb ev who work st))"
proof -
  have "trails ev st (snd (finish_rebase ev work k v c j (st\<lparr>sh_greens := bt_insert k g (sh_greens st)\<rparr>)))"
    if "bt_get (sh_greens st) k = Some g" for k g v c j
    by (rule trails_trans [OF trails_insert_same [OF that] trails_finish_rebase])
  then show ?thesis
    using trails_insert_same rebase_result(1) unfolding rebase_verb_def Let_def
    by (auto split: sum.split option.split prod.split rebased.split dest!: rebase_result(1))
qed

section \<open>Submits\<close>

lemma trails_reset: "trails ev st (reset_accepted_work ev work v st)"
  by (intro trails_same) (simp_all add: reset_accepted_work_def Let_def split: option.split)

lemma trails_enqueue: "trails ev st (enqueue_record k v st)"
  by (intro trails_same) (simp_all add: enqueue_record_def)

lemma trails_after_conflict: "trails ev st (settle_after_conflict ev k i st)"
proof -
  obtain q st1 where q: "settle_green_retention ev k st = (q, st1)" by fastforce
  have st1: "trails ev st st1" using trails_settle [of ev st k] by (simp add: q)
  have f: "trails ev st1 (st1\<lparr>sh_greens := bt_insert k (snd (forget_rejected i g)) (sh_greens st1)\<rparr>)"
    if "bt_get (sh_greens st1) k = Some g" for g
    by (rule trails_engine [OF that quiet_chain]) (simp_all add: forget_rejected_chain reachable.forgotten)
  show ?thesis
    using st1 trails_trans [OF st1 trails_settle] trails_trans [OF trails_trans [OF st1 f] trails_settle]
    unfolding settle_after_conflict_def q Let_def by (auto split: sum.split option.split)
qed

text \<open>What follows an accept, once the record is in the chain.\<close>

lemma trails_finish_accept:
  assumes "finish_accept ev work k p v st = (r, st')"
    and "length (chain_of st k) < v \<Longrightarrow> db_mutate p st = Inr s" "\<not> length (chain_of st k) < v \<Longrightarrow> s = st"
  shows "trails ev s st'"
proof -
  have m: "trails ev s x" if "db_mutate (restatement work (accepted_restatement v)) s = Inr x" for x
    by (rule trails_db [OF that]) (simp add: restatement_def)
  note t = trails_trans [OF trails_trans [OF trails_trans [OF m trails_reset] trails_enqueue] trails_settle]
  have c: "(if length (log_of (pt_chains (sh_partition st)) k) < v then db_mutate p st else Inr st) = Inr s"
    using assms(2,3) by (simp add: chain_of_def)
  show ?thesis using assms(1) t unfolding finish_accept_def c by (auto split: sum.splits)
qed

lemma advanced_chain:
  assumes "db_mutate (GreenAdvanced k bytes) st = Inr s"
  shows "chain_of s j = (if j = k then chain_of st k @ [bytes] else chain_of st j)" "origin_of s = origin_of st"
    "sh_greens s = sh_greens st"
  using db_mutate_frame [OF assms] by (auto simp: chain_of_def origin_of_def log_of_def fun_eq_iff)

text \<open>An accept within what was secured stays within the budget.\<close>

lemma accept_kept:
  assumes g: "reachable xof g" "head g < u64_max" and d: "sealed_doc (inc_doc inc)"
    and s: "submit inc g = (Accepted v, h)" "bt_get (g_accepted g) (inc_id inc) = None"
    and n: "g_history_bytes g + history_reservation g inc \<le> n" "n < u64_max"
  shows "reachable xof h" "g_history_bytes h \<le> n"
proof -
  note b = accept_bytes [OF reachable_inv [OF g(1)] g(2) d s]
  show h: "g_history_bytes h \<le> n" using b(1) n(1) sat_add_bound [of "g_history_bytes g" "history_reservation g inc"] by linarith
  then have "retained_exact h \<le> u64_max" using b(2) n(2) by (auto simp: tallied_def)
  then show "reachable xof h" using reachable.submitted [OF g, of inc] s(1) by simp
qed

lemma settle_charged:
  assumes "fst (settle_green_retention ev k st) = Inr ()" "bt_get (sh_greens (snd (settle_green_retention ev k st))) k = Some g"
  shows "bt_get (sh_retention (snd (settle_green_retention ev k st))) k = Some (retention_charge g)"
  using assms by (auto simp: settle_green_retention_def Let_def split: option.splits sum.splits mem_error.splits if_splits)

lemma secured_room:
  assumes kp: "kept ev st" and g: "bt_get (sh_greens st) k = Some g" "bt_get (sh_retention st) k = Some (retention_charge g)"
    and s: "secure_green_retention k n st = Inr st2"
  shows "g_history_bytes g + n \<le> rejected_cache_budget st"
proof -
  have g': "g_history_bytes g \<le> rejected_cache_budget st" "rejected_cache_budget st < u64_max" using kp g(1) by (simp_all add: kept_def)
  show ?thesis
  proof (cases "n = 0")
    case False
    then have "sat_add (retention_charge g) n \<le> rejected_cache_budget st"
      using s g(2) by (auto simp: secure_green_retention_def Let_def split: if_splits)
    then have "retention_charge g + n \<le> rejected_cache_budget st" using g'(2) by (simp add: sat_add_def min_def split: if_splits)
    moreover have "g_history_bytes g \<le> retention_charge g" using g' by (simp add: retention_charge_def sat_add_def)
    ultimately show ?thesis by linarith
  qed (use g' in simp)
qed

lemma judge_standing:
  assumes ch: "standing ev st" and g: "bt_get (sh_greens st) k = Some g" and fit: "head g < u64_max"
    and base: "g_folded_below g \<le> inc_base inc" "g_folded_below g \<le> head g" and acc: "accepted_ok g"
    and inc: "inc_ok inc" "length (inc_encode inc) \<le> u64_max" "sealed_doc (inc_doc inc)"
    and room: "g_history_bytes g + history_reservation g inc \<le> rejected_cache_budget st"
    and p: "partition_check (sh_partition st) (GreenAdvanced k (inc_encode inc)) = None"
    and j: "judge_submit ev work k inc (GreenAdvanced k (inc_encode inc)) st = (r, st')"
  shows "standing ev st'"
proof -
  have lg: "green_logged ev (chain_of st k) (origin_of st k) g" using ch g by (simp add: standing_def chained_def)
  have kp: "reachable (ev_xof ev) g" "rejected_cache_budget st < u64_max" using ch g by (simp_all add: standing_def kept_def)
  obtain out h where h: "submit inc g = (out, h)" by fastforce
  define s where "s = st\<lparr>sh_greens := bt_insert k h (sh_greens st)\<rparr>"
  have sc: "chain_of s = chain_of st" "origin_of s = origin_of st" by (simp_all add: s_def chain_of_def origin_of_def fun_eq_iff)
  show ?thesis
  proof (cases rule: submit_cases [of g inc])
    case (retry v)
    have "h = g" using retry(2) h by simp
    then have t: "trails ev st s" using trails_insert_same [OF g] by (simp add: s_def)
    have "v \<le> length (chain_of s k)" using acc retry(1) lg by (auto simp: accepted_ok_def green_logged_def sc)
    moreover have "finish_accept ev work k (GreenAdvanced k (inc_encode inc)) v s = (r, st')"
      using j retry(2) h by (simp add: judge_submit_def g s_def)
    ultimately have "trails ev s st'" using trails_finish_accept [of ev work k _ v s r st' s] by simp
    then show ?thesis by (rule trails_standing [OF trails_trans [OF t] ch])
  next
    case (conflict ws h')
    have "trails ev st s" unfolding s_def
      by (rule trails_engine [OF g quiet_conflict [OF conflict(2,3) fit]]) (use conflict(2) h in simp_all)
    moreover have "st' = settle_after_conflict ev k (inc_id inc) s" using j conflict(2) h by (simp add: judge_submit_def g s_def)
    ultimately show ?thesis using trails_trans [OF _ trails_after_conflict] by (auto intro: trails_standing [OF _ ch])
  next
    case (accept es h')
    have out: "out = Accepted (Suc (length (chain_of st k)))" "green_logged ev (chain_of st k @ [inc_encode inc]) (origin_of st k) h"
      using accept_logged [OF lg _ accept(1) base fit inc(1,2)] accept(5) h by auto
    note hk = accept_kept [OF kp(1) fit inc(3) _ accept(1) room kp(2), of _ h, unfolded h out(1), OF refl]
    obtain s' where s': "db_mutate (GreenAdvanced k (inc_encode inc)) s = Inr s'"
      using p by (simp add: db_mutate_def s_def del: partition_check.simps)
    have "finish_accept ev work k (GreenAdvanced k (inc_encode inc)) (Suc (length (chain_of s k))) s = (r, st')"
      using j h out(1) by (simp add: judge_submit_def g s_def [symmetric] sc)
    then have "trails ev s' st'" using s' by (rule trails_finish_accept) simp_all
    moreover have "chained ev s'" using ch out(2) advanced_chain [OF s', unfolded sc]
      by (auto simp: standing_def chained_def s_def split: if_splits)
    moreover have "kept ev s'"
    proof -
      have b: "rejected_cache_budget s' = rejected_cache_budget st"
        using db_mutate_frame(6) [OF s'] by (simp add: rejected_cache_budget_def s_def)
      have "bt_get (sh_greens s') i = (if i = k then Some h else bt_get (sh_greens st) i)" for i
        by (simp add: advanced_chain(3) [OF s'] s_def)
      then show ?thesis using ch hk unfolding standing_def kept_def b by (metis option.inject)
    qed
    ultimately show ?thesis using trails_standing [of ev s' st'] by (simp add: standing_def)
  qed
qed

lemma folded_tables:
  "g_content (snd (fold_budget_loop xof f n r g)) = g_content g \<and> g_specials (snd (fold_budget_loop xof f n r g)) = g_specials g
   \<and> g_accepted (snd (fold_budget_loop xof f n r g)) = g_accepted g"
proof (induction xof f n r g rule: fold_budget_loop.induct)
  case (1 xof f n r g)
  then show ?case
    by (subst (1 2 3) fold_budget_loop.simps) (auto simp: Let_def fold_history_before_def fold_identity_def split: prod.split)
qed

lemma folded_reservation: "history_reservation (snd (fold_history_to_budget xof f n g)) inc = history_reservation g inc"
  by (simp add: history_reservation_def fold_history_to_budget_def folded_tables)

lemma built_sealed:
  assumes "build_increment ev st work evidence = Inr (k, inc)" "length (doc_paths (inc_doc inc)) \<le> Suc u16_max"
  shows "sealed_doc (inc_doc inc)"
  using assms composed_sealed
  by (auto simp: build_increment_def seal_increment_def Let_def split: option.splits sum.splits if_splits)

lemma submit_standing:
  assumes inv: "shard_inv ev H st" and fit: "heads_fit st" "words_fit ev (ReqSubmit who work evidence) st" and ch: "standing ev st"
  shows "standing ev (snd (submit_verb ev who work evidence st))"
proof -
  obtain r st' where e: "submit_verb ev who work evidence st = (r, st')" by fastforce
  from submit_stages [OF e] have "standing ev st'"
  proof cases
    case (3 k inc n st2 g)
    note f = secure_frame [OF 3(2)]
    let ?s = "snd (settle_green_retention ev k st)"
    have gs: "greens_sound ev H st" "bt_ok (sh_works st)" "bt_ok (sh_pins st)" "readers_ok st"
      using inv by (simp_all add: shard_inv_def)
    have t: "trails ev st ?s" "trails ev ?s st2" using trails_settle trails_same [of st2 ?s] f by simp_all
    have kp: "keeps ev H (reader st) st st2" using keeps_trans [OF settle_keeps [OF gs(1)] keeps_same] f by simp
    obtain w where w: "bt_get (sh_works st) work = Some w" "k = ws_green w" "inc_base inc = ws_base w"
      by (rule build_based [OF 3(1)])
    have rd: "reader st k (inc_base inc)" using w gs by (auto simp: reader_iff)
    obtain g2 where g2: "bt_get (sh_greens st2) k = Some g2" using 3(5) f by (simp add: settle_greens)
    have so: "green_sound ev H g2" using keeps_greens_sound [OF kp gs(1)] g2 by (simp add: greens_sound_def)
    have b: "g_folded_below g2 \<le> inc_base inc" by (rule keeps_version [OF kp g2 rd]) (use gs(4) rd in \<open>auto simp: readers_ok_def\<close>)
    have hd: "head g2 = head g" using settle_heads [of ev k st k] g2 f(4) 3(5) by simp
    have g2s: "bt_get (sh_greens ?s) k = Some g2" using g2 f by simp
    have "g2 = snd (fold_history_to_budget (ev_xof ev) (reachable_floor st k) (rejected_cache_budget st) g)"
      using g2s 3(5) by (simp add: settle_greens)
    then have "history_reservation g2 inc = n" using 3(6) by (simp add: folded_reservation)
    moreover have "kept ev ?s" using trails_standing [OF t(1) ch] by (simp add: standing_def)
    ultimately have room: "g_history_bytes g2 + history_reservation g2 inc \<le> rejected_cache_budget st2"
      using secured_room [OF _ g2s settle_charged [OF 3(7) g2s] 3(2)] f by (simp add: rejected_cache_budget_def)
    show ?thesis
      by (rule judge_standing [OF trails_standing [OF t(2) trails_standing [OF t(1) ch]] g2 _ b _ _ _ _ built_sealed [OF 3(1)] room _ 3(3)])
        (use so fit 3 f hd in \<open>auto simp: green_sound_def heads_fit_def simp del: partition_check.simps\<close>)
  qed (use ch trails_standing [OF trails_settle] in auto)
  then show ?thesis by (simp add: e)
qed

section \<open>Every run\<close>

lemma seeded_kept: "n < u64_max \<Longrightarrow> reachable (ev_xof ev) (set_rejected_budget n (seeded ev seed))
    \<and> g_history_bytes (set_rejected_budget n (seeded ev seed)) = 0"
proof -
  assume n: "n < u64_max"
  have "reachable (ev_xof ev) (seeded ev seed)"
    using reachable.seeded by (auto simp: seeded_def green_new_origin [of "ev_xof ev"] split: option.split)
  moreover have "g_history_bytes (seeded ev seed) = 0"
    by (simp add: seeded_def green_new_origin [of "ev_xof ev"] with_origin_shape split: option.split)
  moreover have "g_history_bytes (set_rejected_budget n g) = g_history_bytes g" for g
    using arg_cong [OF budget_chain, of g_history_bytes n g] by (simp add: chain_state_def del: budget_chain)
  ultimately show ?thesis using n reachable.budgeted by simp
qed

lemma installed_standing:
  assumes "standing ev st" "chain_of st v = []" "origin_of st v = seed"
  shows "standing ev (install_green v (seeded ev seed) st)"
proof -
  let ?s = "install_green v (seeded ev seed) st"
  have "chained ev ?s" using assms seeded_logged [of ev seed]
    by (auto simp: standing_def chained_def install_green_def enqueue_record_def chain_of_def origin_of_def split: if_splits)
  moreover have "kept ev ?s" using assms(1) seeded_kept [of "rejected_cache_budget st" ev seed]
    by (auto simp: standing_def kept_def install_green_def enqueue_record_def rejected_cache_budget_def split: if_splits)
  ultimately show ?thesis by (simp add: standing_def)
qed

lemma create_green_standing:
  assumes ch: "standing ev st" and v: "pred_option (fresh_id st) fresh"
  shows "standing ev (snd (create_green ev who name require_evidence seed fresh st))"
proof -
  obtain r st' where e: "create_green ev who name require_evidence seed fresh st = (r, st')" by fastforce
  consider "st' = st" | v x where "db_mutate (VolumeCreated v x) st = Inr st'"
    | v x s sd s' where "fresh = Some v" "db_mutate (VolumeCreated v x) st = Inr s" "db_mutate (GreenOriginHeld v sd) s = Inr s'"
        "st' = install_green v (seeded ev (Some sd)) s'"
    | v x s where "fresh = Some v" "db_mutate (VolumeCreated v x) st = Inr s" "st' = install_green v (seeded ev None) s"
    using e unfolding create_green_def by (auto simp: seeded_def split: option.splits sum.splits)
  then have "standing ev st'"
  proof cases
    case (2 v x)
    show ?thesis by (rule trails_standing [OF trails_db [OF 2] ch]) simp
  next
    case (3 v x s sd s')
    note f = db_mutate_frame [OF 3(2)] db_mutate_frame [OF 3(3)]
    have c: "chain_of s' = chain_of st" "origin_of s' k = (if k = v then Some sd else origin_of st k)" for k
      using f by (simp_all add: chain_of_def origin_of_def fun_eq_iff)
    have n: "bt_get (sh_greens st) v = None" "chain_of st v = []" using v 3(1) by (simp_all add: fresh_id_def chain_of_def)
    have "standing ev s'" using ch n(1) f c by (auto simp: standing_def chained_def kept_def rejected_cache_budget_def)
    then show ?thesis unfolding 3(4) by (rule installed_standing) (simp_all add: c n)
  next
    case (4 v x s)
    note f = db_mutate_frame [OF 4(2)]
    have c: "chain_of s = chain_of st" "origin_of s = origin_of st" using f by (simp_all add: chain_of_def origin_of_def fun_eq_iff)
    have n: "chain_of st v = []" "origin_of st v = None" using v 4(1) by (simp_all add: fresh_id_def chain_of_def origin_of_def)
    have "standing ev s" by (rule trails_standing [OF trails_db [OF 4(2)] ch]) simp
    then show ?thesis unfolding 4(3) by (rule installed_standing) (simp_all add: c n)
  qed (use ch in simp)
  then show ?thesis by (simp add: e)
qed

lemma trails_create_work: "trails ev st (snd (create_work who k name fresh st))"
proof -
  have "trails ev st (s\<lparr>sh_works := x\<rparr>)" if "db_mutate (VolumeCreated v y) st = Inr s" for v x y s
    by (rule trails_trans [OF trails_db [OF that] trails_same]) simp_all
  then show ?thesis unfolding create_work_def by (auto split: sum.split option.split)
qed

lemma trails_settle_after:
  assumes "sh_greens s = sh_greens st" "sh_partition s = sh_partition st"
  shows "trails ev st (snd (settle_green_retention ev k s))"
proof -
  have "trails ev st s" using assms by (intro trails_same) simp_all
  then show ?thesis by (rule trails_trans [OF _ trails_settle])
qed

lemma trails_forget: "trails ev st (forget_attachment ev a st)"
  by (auto simp: forget_attachment_def intro: trails_settle_after split: option.split)

lemma trails_advance: "trails ev st (snd (advance ev a target st))"
  by (auto simp: advance_def Let_def intro: trails_settle_after split: option.split prod.split)

lemma retire_frame: "sh_partition (retire_volume ev v st) = sh_partition st" "bt_get (sh_greens (retire_volume ev v st)) v = None"
  "trails ev st (retire_volume ev v st)"
proof -
  define s where "s = (case bt_get (sh_works st) v of None \<Rightarrow> st
      | Some w \<Rightarrow> snd (settle_green_retention ev (ws_green w)
          (charge_release (ws_charged w) (st\<lparr>sh_works := bt_remove v (sh_works st)\<rparr>))))"
  have s: "sh_partition s = sh_partition st" "trails ev st s"
    by (auto simp: s_def charge_release_def intro: trails_settle_after split: option.split)
  have r: "sh_greens (release_green_retention v x) = sh_greens x" "sh_partition (release_green_retention v x) = sh_partition x" for x
    by (simp_all add: release_green_retention_def split: option.split)
  show "sh_partition (retire_volume ev v st) = sh_partition st" "bt_get (sh_greens (retire_volume ev v st)) v = None"
    using s unfolding retire_volume_def Let_def s_def [symmetric] by (auto simp: r split: option.split)
  have "trails ev s x" if "sh_greens x = bt_remove v (sh_greens s)" "sh_partition x = sh_partition s" for x
    using that by (auto simp: trails_def chain_of_def origin_of_def split: if_splits)
  then show "trails ev st (retire_volume ev v st)"
    using s(2) unfolding retire_volume_def Let_def s_def [symmetric]
    by (auto simp: r intro: trails_trans split: option.split)
qed

lemma trails_destroy: "trails ev st (snd (destroy_merge_volume ev who v st))"
proof -
  let ?s = "st\<lparr>sh_pins := filter (\<lambda>(_, pin). fst pin \<noteq> v) (sh_pins st)\<rparr>"
  have s: "trails ev st ?s" by (rule trails_same) simp_all
  have m: "trails ev st x" if "db_mutate (VolumeStateChanged v Destroying) ?s = Inr x" for x
    by (rule trails_trans [OF s trails_db [OF that]]) simp
  have d: "trails ev x (retire_volume ev v y)" if "db_mutate (VolumeDestroyed v) x = Inr y" for x y
  proof -
    note f = db_mutate_frame [OF that] and rt = retire_frame [where ev = ev and v = v and st = y]
    have "chain_of y k = chain_of x k" "origin_of y k = origin_of x k" if "k \<noteq> v" for k
      using f(6) that by (simp_all add: chain_of_def origin_of_def log_of_def remove_volume_def Let_def split: option.split)
    moreover have "pt_merge_cap (sh_partition y) = pt_merge_cap (sh_partition x)"
      using f(6) by (simp add: remove_volume_def Let_def split: option.split)
    moreover have "k \<noteq> v" if "bt_get (sh_greens (retire_volume ev v y)) k = Some g" for k g using rt(2) that by auto
    ultimately show ?thesis using rt(3) unfolding trails_def f(1) by metis
  qed
  show ?thesis
    using s m trails_trans [OF m d] unfolding destroy_merge_volume_def Let_def by (auto split: option.split sum.split)
qed

lemma dispatch_standing:
  assumes "shard_inv ev H st" "heads_fit st" "words_fit ev rq st" "standing ev st"
  shows "standing ev (snd (dispatch ev rq st))"
proof (cases rq)
  case (ReqSubmit who work evidence)
  then show ?thesis using submit_standing [OF assms(1,2) _ assms(4)] assms(3) by simp
qed (simp_all add: trails_standing [OF _ assms(4)] trails_changes [OF edit_changes] trails_changes [OF declare_changes] trails_rebase)

lemma run_standing:
  assumes "service_run ev H st" "inj_on (ev_blake3 ev) H"
  shows "standing ev st"
  using assms(1)
proof (induction rule: service_run.induct)
  case (started st)
  then show ?case by (simp add: standing_def chained_def kept_def rejected_cache_budget_def)
next
  case (served st rq)
  then show ?case by (intro dispatch_standing [OF run_inv [OF served.hyps(1) assms(2)]]) (simp_all add: fits_def)
next
  case (elsewhere st pt b)
  then show ?case by (intro trails_standing [OF trails_same elsewhere.IH]) (simp_all add: keeps_merge_def)
next
  case (green_made st fresh who name require_evidence seed)
  then show ?case by (intro create_green_standing)
next
  case (work_made st fresh who k name)
  then show ?case by (intro trails_standing [OF trails_create_work])
next
  case (attached st a k)
  have "trails ev st (pin_head a k st)" by (rule trails_same) (simp_all add: pin_head_def split: option.split)
  then show ?case by (rule trails_standing [OF _ attached.IH])
next
  case (detached st a)
  then show ?case by (intro trails_standing [OF trails_forget])
next
  case (advanced st a target)
  then show ?case by (intro trails_standing [OF trails_advance])
next
  case (destroyed st who v)
  then show ?case by (intro trails_standing [OF trails_destroy])
qed

end
