(* ===== verification/Service_Logs.thy ===== *)
theory Service_Logs
  imports Service_Chains
begin

text \<open>
  The durable log of a work against the work: through every run, the log the partition holds for a
  work replays, over any green that reads like the work's own at its base, to the work's base, its
  files and its journal.
\<close>

section \<open>Reading the base\<close>

lemma wf_base_cong:
  assumes "base_file b = base_file b'"
  shows "wf_get w b = wf_get w b'" "wf_splice b = wf_splice b'" "wf_removal w b = wf_removal w b'" "wf_declare b = wf_declare b'"
    "apply_edit wj b = apply_edit wj b'" "apply_declare wj b = apply_declare wj b'"
proof -
  show get: "wf_get x b = wf_get x b'" for x unfolding fun_eq_iff wf_get_def assms by simp
  show splice: "wf_splice b = wf_splice b'" unfolding fun_eq_iff wf_splice_def assms by simp
  show removal: "wf_removal x b = wf_removal x b'" for x unfolding fun_eq_iff wf_removal_def get assms by simp
  show declared: "wf_declare b = wf_declare b'"
  proof (intro ext)
    fix op x show "wf_declare b op x = wf_declare b' op x" by (cases op) (simp_all add: get removal)
  qed
  show "apply_edit wj b = apply_edit wj b'" by (simp add: fun_eq_iff apply_edit_def splice)
  show "apply_declare wj b = apply_declare wj b'" by (simp add: fun_eq_iff apply_declare_def declared)
qed

lemma base_file_same:
  assumes "\<And>p. content_at g p v = content_at g' p v"
  shows "base_file \<lparr>wb_green = Some g, wb_version = v\<rparr> = base_file \<lparr>wb_green = Some g', wb_version = v\<rparr>"
  using assms by (simp add: fun_eq_iff base_file_def)

section \<open>One work\<close>

definition work_logged :: "byte list list \<Rightarrow> ver \<Rightarrow> green \<Rightarrow> work_state \<Rightarrow> bool" where
  "work_logged entries c g w \<longleftrightarrow> bt_ok (ws_files w) \<and>
     (\<forall>g'. (\<forall>p. content_at g' p (ws_base w) = content_at g p (ws_base w)) \<longrightarrow>
        replay (Some g') c entries = Inr (ws_base w, ws_files w, ws_journal w))"

lemma replay_from_append: "replay_from g st (xs @ ys) = rbind (replay_from g st xs) (\<lambda>st. replay_from g st ys)"
  by (induction g st xs rule: replay_from.induct) (auto simp: rbind_def split: sum.split)

lemma replay_snoc:
  assumes "replay g c entries = Inr st" "log_entry_ok e"
  shows "replay g c (entries @ [entry_encode e]) = replay_entry g st e"
proof -
  have "wire_from_bytes entry_decode (entry_encode e) = Inr e" using assms(2) entryw.from_bytes_iff by blast
  then show ?thesis using assms(1) by (cases "replay_entry g st e") (simp_all add: replay_def replay_from_append)
qed

lemma replay_single: "log_entry_ok e \<Longrightarrow> replay g c [entry_encode e] = replay_entry g (c, [], []) e"
  using replay_snoc [of g c "[]" "(c, [], [])" e] by (simp add: replay_def)

lemma edit_logged:
  assumes w: "work_logged entries c g w" and e: "log_entry_ok (LogEdit p at del bytes)"
    and b: "wf_get (ws_files w) \<lparr>wb_green = Some g, wb_version = ws_base w\<rparr> p = Inr old"
      "apply_edit (ws_files w, ws_journal w) \<lparr>wb_green = Some g, wb_version = ws_base w\<rparr> (p, at, del, bytes)
        (edit_ops p old (at, del, length bytes)) = Inr (fs, js)"
    and x: "ws_files x = fs" "ws_journal x = js" "ws_base x = ws_base w"
  shows "work_logged (entries @ [entry_encode (LogEdit p at del bytes)]) c g x"
proof -
  have "bt_ok fs" using b(2) w by (auto simp: apply_edit_def wf_splice_def work_logged_def rbind_Inr_iff Let_def split: if_splits)
  moreover have "replay (Some g') c (entries @ [entry_encode (LogEdit p at del bytes)]) = Inr (ws_base w, fs, js)"
    if g': "\<And>p. content_at g' p (ws_base w) = content_at g p (ws_base w)" for g'
  proof -
    have "replay (Some g') c entries = Inr (ws_base w, ws_files w, ws_journal w)" using w g' by (simp add: work_logged_def)
    then show ?thesis using replay_snoc [OF _ e] wf_base_cong [OF base_file_same [OF g']] b by (simp add: or_gone_def)
  qed
  ultimately show ?thesis by (simp add: work_logged_def x)
qed

lemma decode_encode_node: "node_ok n \<Longrightarrow> decode_node (encode_node n) = Inr n"
  using decode_node_iff [of "encode_node n" n] by (simp add: encoded_bytes_def u64_max_def)

lemma logged_round_trip: "op_fits v \<Longrightarrow> logged_volume_op (logged_of v) = Inr v"
  by (cases v) (simp_all add: op_fits_def decode_encode_node)

lemma declare_logged:
  assumes w: "work_logged entries c g w" and v: "op_fits v"
    and b: "apply_declare (ws_files w, ws_journal w) \<lparr>wb_green = Some g, wb_version = ws_base w\<rparr> v = Inr (fs, js)"
    and x: "ws_files x = fs" "ws_journal x = js" "ws_base x = ws_base w"
  shows "work_logged (entries @ [entry_encode (LogDeclared (logged_of v))]) c g x"
proof -
  have "bt_ok fs" if "wf_declare b v f = Inr fs" "bt_ok f" for b f
    using that by (cases v) (auto simp: rbind_Inr_iff split: if_splits option.splits)
  then have "bt_ok fs" using b w by (auto simp: apply_declare_def work_logged_def rbind_Inr_iff)
  moreover have "replay (Some g') c (entries @ [entry_encode (LogDeclared (logged_of v))]) = Inr (ws_base w, fs, js)"
    if g': "\<And>p. content_at g' p (ws_base w) = content_at g p (ws_base w)" for g'
  proof -
    have "replay (Some g') c entries = Inr (ws_base w, ws_files w, ws_journal w)" using w g' by (simp add: work_logged_def)
    moreover have "log_entry_ok (LogDeclared (logged_of v))" using v by (simp add: op_fits_def)
    ultimately show ?thesis
      using replay_snoc [of "Some g'" c entries _ "LogDeclared (logged_of v)"] wf_base_cong [OF base_file_same [OF g']] b
      by (simp add: or_gone_def logged_round_trip [OF v])
  qed
  ultimately show ?thesis by (simp add: work_logged_def x)
qed

lemma collect_logged: "list_all op_fits vs \<Longrightarrow> collect_ops (map logged_of vs) = Inr vs"
  by (induction vs) (simp_all add: logged_round_trip)

lemma restated_logged:
  assumes "bt_ok (ws_files x)" "log_entry_ok (restated (ws_base x) (ws_files x) (ws_journal x))" "list_all op_fits (ws_journal x)"
  shows "work_logged [entry_encode (restated (ws_base x) (ws_files x) (ws_journal x))] c g x"
proof -
  have "map (\<lambda>f. (own_path f, own_bytes f)) (map (\<lambda>(p, b). \<lparr>own_path = p, own_bytes = b\<rparr>) m) = m" for m :: work_files
    by (simp add: comp_def case_prod_unfold)
  then show ?thesis
    using assms replay_single [OF assms(2)] by (simp add: work_logged_def restated_def collect_logged bt_of_list_id)
qed

section \<open>The logs of a shard\<close>

definition log_at :: "shard \<Rightarrow> vid \<Rightarrow> byte list list" where
  "log_at st v = log_of (pt_logs (sh_partition st)) v"

abbreviation volumes :: "shard \<Rightarrow> (vid, volume_record) btmap" where
  "volumes st \<equiv> pt_volumes (sh_partition st)"

definition role_of :: "shard \<Rightarrow> vid \<Rightarrow> role option" where
  "role_of st v = map_option vr_role (bt_get (pt_volumes (sh_partition st)) v)"

lemma roles_of_volumes: "volumes a = volumes b \<Longrightarrow> role_of a = role_of b"
  by (simp add: role_of_def fun_eq_iff)

definition logged_at :: "shard \<Rightarrow> vid \<Rightarrow> work_state \<Rightarrow> bool" where
  "logged_at st v w \<longleftrightarrow> (\<exists>c s. role_of st v = Some (RWork (ws_green w) c s)
     \<and> (\<forall>g. bt_get (sh_greens st) (ws_green w) = Some g \<longrightarrow> work_logged (log_at st v) c g w))"

definition logged :: "shard \<Rightarrow> bool" where
  "logged st \<longleftrightarrow> (\<forall>v w. bt_get (sh_works st) v = Some w \<longrightarrow> logged_at st v w)"

text \<open>The greens of \<open>st'\<close> are greens of \<open>st\<close> that read alike at the version.\<close>

definition reads_alike :: "vid \<Rightarrow> ver \<Rightarrow> shard \<Rightarrow> shard \<Rightarrow> bool" where
  "reads_alike k b st st' \<longleftrightarrow> (\<forall>g'. bt_get (sh_greens st') k = Some g' \<longrightarrow>
     (\<exists>g. bt_get (sh_greens st) k = Some g \<and> (\<forall>p. content_at g' p b = content_at g p b)))"

lemma reads_alike_same: "sh_greens st' = sh_greens st \<Longrightarrow> reads_alike k b st st'"
  by (simp add: reads_alike_def)

lemma reads_alike_keeps:
  assumes "keeps ev H R st st'" "R k b" "\<And>g. bt_get (sh_greens st) k = Some g \<Longrightarrow> g_folded_below g \<le> b \<and> b \<le> head g"
  shows "reads_alike k b st st'"
  unfolding reads_alike_def
proof (intro allI impI)
  fix g' assume "bt_get (sh_greens st') k = Some g'"
  then obtain g where g: "bt_get (sh_greens st) k = Some g" "later_green ev H (R k) g g'" using keepsD [OF assms(1)] by blast
  then show "\<exists>g. bt_get (sh_greens st) k = Some g \<and> (\<forall>p. content_at g' p b = content_at g p b)"
    using assms(2,3) by (auto simp: later_green_def)
qed

lemma logged_at_keep:
  assumes "logged_at st v w" "w'\<lparr>ws_charged := 0\<rparr> = w\<lparr>ws_charged := 0\<rparr>" "role_of st' v = role_of st v" "log_at st' v = log_at st v"
    and "reads_alike (ws_green w) (ws_base w) st st'"
  shows "logged_at st' v w'"
proof -
  note e = arg_cong [OF assms(2)]
  have w': "ws_green w' = ws_green w" "ws_base w' = ws_base w" "ws_files w' = ws_files w" "ws_journal w' = ws_journal w"
    using e [of ws_green] e [of ws_base] e [of ws_files] e [of ws_journal] by simp_all
  obtain c s where c: "role_of st v = Some (RWork (ws_green w) c s)"
    "\<And>g. bt_get (sh_greens st) (ws_green w) = Some g \<Longrightarrow> work_logged (log_at st v) c g w"
    using assms(1) by (auto simp: logged_at_def)
  have "work_logged (log_at st' v) c g' w'" if g': "bt_get (sh_greens st') (ws_green w) = Some g'" for g'
  proof -
    obtain g where "bt_get (sh_greens st) (ws_green w) = Some g" "\<And>p. content_at g' p (ws_base w) = content_at g p (ws_base w)"
      using assms(5) g' by (auto simp: reads_alike_def)
    then show ?thesis using c(2) by (simp add: work_logged_def w' assms(4))
  qed
  then show ?thesis using c(1) assms(3) by (auto simp: logged_at_def w')
qed

text \<open>A step that writes no log but \<open>work\<close>'s.\<close>

definition writes :: "vid \<Rightarrow> shard \<Rightarrow> shard \<Rightarrow> bool" where
  "writes work st st' \<longleftrightarrow> volumes st' = volumes st \<and> (\<forall>v. v \<noteq> work \<longrightarrow> log_at st' v = log_at st v)"

lemma writes_trans: "writes work a b \<Longrightarrow> writes work b c \<Longrightarrow> writes work a c"
  by (simp add: writes_def)

lemma writes_same: "sh_partition st' = sh_partition st \<Longrightarrow> writes work st st'"
  by (simp add: writes_def role_of_def log_at_def fun_eq_iff)

lemma log_of_insert [simp]: "log_of (bt_insert k x m) j = (if j = k then x else log_of m j)"
  by (simp add: log_of_def)

lemma db_logs:
  assumes "db_mutate p st = Inr st'"
  shows "p = WorkLogged work e \<Longrightarrow> log_at st' = (log_at st)(work := log_at st work @ [e]) \<and> volumes st' = volumes st"
    "p = WorkRestated work e \<Longrightarrow> log_at st' = (log_at st)(work := [e]) \<and> volumes st' = volumes st"
    "p = GreenAdvanced k e \<Longrightarrow> log_at st' = log_at st \<and> volumes st' = volumes st"
  using db_mutate_frame(6) [OF assms] by (auto simp: log_at_def role_of_def fun_eq_iff)

text \<open>An edit or a declaration, on the work it names.\<close>

lemma recorded_logs:
  assumes "record_work_change ev work added entry st = (r, st')"
  shows "r = Inr () \<Longrightarrow> log_at st' = (log_at st)(work := log_at st work @ [entry_encode entry])"
    "r \<noteq> Inr () \<Longrightarrow> log_at st' = log_at st" "volumes st' = volumes st"
  using record_partition [OF assms] by (auto simp: log_at_def role_of_def fun_eq_iff)

lemma changes_writes:
  assumes "changes ev work st st'"
  shows "writes work st st'"
proof -
  have r: "writes work st s" if "record_work_change ev work added entry st = (q, s)" for added entry q s
    using recorded_logs [OF that] by (cases "q = Inr ()") (auto simp: writes_def)
  show ?thesis using assms unfolding changes_def
  proof (elim disjE exE conjE)
    fix added entry st1 amounts change answer q
    assume c: "record_work_change ev work added entry st = (Inr (), st1)" "finish_change work amounts change answer st1 = (q, st')"
    have "writes work st1 st'" using finish_change_frame(2) [OF c(2)] by (rule writes_same)
    then show ?thesis by (rule writes_trans [OF r [OF c(1)]])
  qed (simp_all add: r writes_same)
qed

lemma finish_change_work:
  assumes "finish_change work amounts change answer st = (r, st')" "bt_get (sh_works st) work = Some w" "bt_get (sh_works st') work = Some x"
  shows "ws_green x = ws_green w" "ws_base x = ws_base w"
    "change (ws_files w, ws_journal w) (base_of_work st w) = Inr (fs, js) \<Longrightarrow> ws_files x = fs \<and> ws_journal x = js"
  using assms by (auto simp: finish_change_def charge_shrink_def Let_def case_prod_unfold split: sum.splits)

lemma change_acting:
  assumes rec: "record_work_change ev work added entry st = (Inr (), st1)" and fin: "finish_change work amounts change answer st1 = (r, st')"
    and w: "bt_get (sh_works st) work = Some w" "bt_get (sh_works st') work = Some x" "logged_at st work w"
    and ok: "\<And>g c. bt_get (sh_greens st) (ws_green w) = Some g \<Longrightarrow> work_logged (log_at st work) c g w \<Longrightarrow>
      \<exists>fs js. change (ws_files w, ws_journal w) \<lparr>wb_green = Some g, wb_version = ws_base w\<rparr> = Inr (fs, js)
        \<and> (ws_files x = fs \<and> ws_journal x = js \<and> ws_base x = ws_base w \<longrightarrow> work_logged (log_at st work @ [entry_encode entry]) c g x)"
  shows "logged_at st' work x"
proof -
  note f = record_work_change_frame [OF rec] and l = recorded_logs [OF rec] and p = finish_change_frame [OF fin]
  obtain w1 where w1: "bt_get (sh_works st1) work = Some w1" using fun_cong [OF f(3), of work] w(1) by (auto simp: core_def)
  have e: "ws_green w1 = ws_green w" "ws_base w1 = ws_base w" "ws_files w1 = ws_files w" "ws_journal w1 = ws_journal w"
    by (rule recorded_work [OF rec w1]; use w(1) in simp)+
  note c = finish_change_work [OF fin w1 w(2), unfolded e base_of_work_def f(1)]
  have pt: "log_at st' work = log_at st work @ [entry_encode entry]" "role_of st' = role_of st" "sh_greens st' = sh_greens st"
    using l f(1) p by (simp_all add: log_at_def role_of_def fun_eq_iff)
  obtain cr s where cr: "role_of st work = Some (RWork (ws_green w) cr s)"
    "\<And>g. bt_get (sh_greens st) (ws_green w) = Some g \<Longrightarrow> work_logged (log_at st work) cr g w"
    using w(3) by (auto simp: logged_at_def)
  have "work_logged (log_at st work @ [entry_encode entry]) cr g x" if g: "bt_get (sh_greens st) (ws_green w) = Some g" for g
    using ok [OF g cr(2) [OF g]] c g by auto
  then show ?thesis using cr(1) c(1) by (auto simp: logged_at_def pt)
qed

lemma refused_acting:
  assumes "logged st" "bt_get (sh_works st) work = Some w" "record_work_change ev work added entry st = (Inl q, st')"
    "bt_get (sh_works st') work = Some x"
  shows "logged_at st' work x"
proof -
  note f = record_work_change_frame [OF assms(3)] and l = recorded_logs [OF assms(3)]
  have "x\<lparr>ws_charged := 0\<rparr> = w\<lparr>ws_charged := 0\<rparr>" using fun_cong [OF f(3), of work] assms(2,4) by (simp add: core_def)
  moreover have "logged_at st work w" using assms(1,2) by (simp add: logged_def)
  ultimately show ?thesis using l roles_of_volumes [OF l(3)] reads_alike_same [OF f(1)] logged_at_keep by fastforce
qed

lemma edit_acting:
  assumes "logged st" "log_entry_ok (LogEdit (canonical_path p) at del bytes)"
    and "bt_get (sh_works (snd (edit_verb ev who work p at del bytes st))) work = Some x"
  shows "logged_at (snd (edit_verb ev who work p at del bytes st)) work x"
proof -
  let ?p = "canonical_path p"
  obtain r st' where e: "edit_verb ev who work p at del bytes st = (r, st')" by fastforce
  consider "st' = st" | w amounts q where "bt_get (sh_works st) work = Some w"
      "record_work_change ev work amounts (LogEdit ?p at del bytes) st = (Inl q, st')"
    | w old amounts st1 where "bt_get (sh_works st) work = Some w" "wf_get (ws_files w) (base_of_work st w) ?p = Inr old"
      "record_work_change ev work (fst amounts) (LogEdit ?p at del bytes) st = (Inr (), st1)"
      "finish_change work amounts (\<lambda>wj b. apply_edit wj b (?p, at, del, bytes) (edit_ops ?p old (at, del, length bytes))) Edited st1 = (r, st')"
    using e unfolding edit_verb_def Let_def by (auto split: sum.splits option.splits prod.splits)
  then have "logged_at st' work x" if x: "bt_get (sh_works st') work = Some x"
  proof cases
    case 1
    then show ?thesis using assms(1) x by (simp add: logged_def)
  next
    case (2 w amounts q)
    then show ?thesis using x by (rule refused_acting [OF assms(1)])
  next
    case (3 w old amounts st1)
    have lg: "logged_at st work w" using assms(1) 3(1) by (simp add: logged_def)
    show ?thesis
    proof (rule change_acting [OF 3(3,4,1) x lg])
      fix g c assume g: "bt_get (sh_greens st) (ws_green w) = Some g" "work_logged (log_at st work) c g w"
      let ?b = "\<lparr>wb_green = Some g, wb_version = ws_base w\<rparr>"
      have old: "wf_get (ws_files w) ?b ?p = Inr old" using 3(2) g(1) by (simp add: base_of_work_def)
      have "\<exists>y. wf_splice ?b ?p (at, del) bytes (ws_files w) = Inr y"
        by (simp add: wf_splice_def base_file_def Let_def)
      then obtain fs js where a: "apply_edit (ws_files w, ws_journal w) ?b (?p, at, del, bytes) (edit_ops ?p old (at, del, length bytes)) = Inr (fs, js)"
        by (auto simp: apply_edit_def)
      then show "\<exists>fs js. apply_edit (ws_files w, ws_journal w) ?b (?p, at, del, bytes) (edit_ops ?p old (at, del, length bytes)) = Inr (fs, js)
        \<and> (ws_files x = fs \<and> ws_journal x = js \<and> ws_base x = ws_base w \<longrightarrow>
           work_logged (log_at st work @ [entry_encode (LogEdit ?p at del bytes)]) c g x)"
        using edit_logged [OF g(2) assms(2) old a] by blast
    qed
  qed
  then show ?thesis using assms(3) by (simp add: e)
qed

lemma declare_acting:
  assumes "logged st" "op_fits (declared_op p)"
    and "bt_get (sh_works (snd (declare_verb ev who work p st))) work = Some x"
  shows "logged_at (snd (declare_verb ev who work p st)) work x"
proof -
  let ?v = "declared_op p"
  obtain r st' where e: "declare_verb ev who work p st = (r, st')" by fastforce
  consider "st' = st" | w amounts q where "bt_get (sh_works st) work = Some w"
      "record_work_change ev work amounts (LogDeclared (logged_of ?v)) st = (Inl q, st')"
    | w amounts st1 where "bt_get (sh_works st) work = Some w"
      "record_work_change ev work (fst amounts) (LogDeclared (logged_of ?v)) st = (Inr (), st1)"
      "finish_change work amounts (\<lambda>wj b. apply_declare wj b ?v) Declared st1 = (r, st')"
    using e unfolding declare_verb_def Let_def by (auto split: sum.splits option.splits prod.splits)
  then have "logged_at st' work x" if x: "bt_get (sh_works st') work = Some x"
  proof cases
    case 1
    then show ?thesis using assms(1) x by (simp add: logged_def)
  next
    case (2 w amounts q)
    then show ?thesis using x by (rule refused_acting [OF assms(1)])
  next
    case (3 w amounts st1)
    have lg: "logged_at st work w" using assms(1) 3(1) by (simp add: logged_def)
    show ?thesis
    proof (rule change_acting [OF 3(2,3,1) x lg])
      fix g c assume g: "bt_get (sh_greens st) (ws_green w) = Some g" "work_logged (log_at st work) c g w"
      let ?b = "\<lparr>wb_green = Some g, wb_version = ws_base w\<rparr>"
      have "\<exists>y. wf_declare ?b ?v (ws_files w) = Inr y"
        by (cases ?v) (auto simp: wf_removal_def wf_get_def base_file_def split: option.split)
      then obtain fs js where a: "apply_declare (ws_files w, ws_journal w) ?b ?v = Inr (fs, js)" by (auto simp: apply_declare_def)
      then show "\<exists>fs js. apply_declare (ws_files w, ws_journal w) ?b ?v = Inr (fs, js)
        \<and> (ws_files x = fs \<and> ws_journal x = js \<and> ws_base x = ws_base w \<longrightarrow>
           work_logged (log_at st work @ [entry_encode (LogDeclared (logged_of ?v))]) c g x)"
        using declare_logged [OF g(2) assms(2) a] by blast
    qed
  qed
  then show ?thesis using assms(3) by (simp add: e)
qed

text \<open>A submit, on the work it names.\<close>

lemma settle_after_conflict_partition: "sh_partition (settle_after_conflict ev k i st) = sh_partition st"
proof -
  obtain q s where q: "settle_green_retention ev k st = (q, s)" by fastforce
  have "sh_partition s = sh_partition st" using settle_frame(3) [of ev k st] by (simp add: q)
  then show ?thesis by (auto simp: settle_after_conflict_def Let_def q split: sum.split option.split)
qed

text \<open>An accept leaves the work, its log and the greens, or resets the work with its log and settles.\<close>

lemma finish_accept_effect:
  assumes "finish_accept ev work k (GreenAdvanced k bytes) v s = (r, st')"
  obtains (same) "sh_works st' = sh_works s" "sh_greens st' = sh_greens s" "log_at st' = log_at s" "volumes st' = volumes s"
  | (reset) x where "sh_works x = sh_works s" "sh_greens x = sh_greens s" "sh_pins x = sh_pins s"
      "log_at x = (log_at s)(work := [entry_encode (accepted_restatement v)])" "volumes x = volumes s"
      "st' = snd (settle_green_retention ev k (enqueue_record k v (reset_accepted_work ev work v x)))"
proof -
  define rec where "rec = (if length (log_of (pt_chains (sh_partition s)) k) < v then db_mutate (GreenAdvanced k bytes) s else Inr s)"
  show thesis
  proof (cases rec)
    case (Inl e)
    then have "st' = s" using assms by (simp add: finish_accept_def rec_def)
    then show ?thesis by (intro same) simp_all
  next
    case (Inr y)
    have y: "sh_works y = sh_works s" "sh_greens y = sh_greens s" "sh_pins y = sh_pins s" "log_at y = log_at s" "volumes y = volumes s"
    proof -
      consider "y = s" | "db_mutate (GreenAdvanced k bytes) s = Inr y" using Inr unfolding rec_def by (cases "length (log_of (pt_chains (sh_partition s)) k) < v") simp_all
      then show "sh_works y = sh_works s" "sh_greens y = sh_greens s" "sh_pins y = sh_pins s" "log_at y = log_at s" "volumes y = volumes s"
        using db_mutate_frame(1,2,3) db_logs(3) [OF _ refl] by (cases; blast)+
    qed
    show ?thesis
    proof (cases "db_mutate (restatement work (accepted_restatement v)) y")
      case (Inl e)
      then have "st' = y" using assms Inr by (simp add: finish_accept_def rec_def)
      then show ?thesis using y by (intro same) simp_all
    next
      case (Inr x)
      note f = db_mutate_frame [OF Inr] and l = db_logs(2) [OF Inr [unfolded restatement_def] refl]
      have "st' = snd (settle_green_retention ev k (enqueue_record k v (reset_accepted_work ev work v x)))"
        using assms Inr \<open>rec = Inr y\<close> by (simp add: finish_accept_def rec_def)
      then show ?thesis using f l y by (intro reset [of x]) simp_all
    qed
  qed
qed

lemma reset_work:
  assumes "bt_get (sh_works st) work = Some w" "bt_get (sh_works (reset_accepted_work ev work v st)) work = Some x"
  shows "ws_green x = ws_green w" "ws_base x = v" "ws_files x = []" "ws_journal x = []"
    "sh_partition (reset_accepted_work ev work v st) = sh_partition st"
proof -
  let ?s = "reset_accepted_work ev work v st"
  have c: "core ?s work = Some (w\<lparr>ws_base := v, ws_journal := [], ws_files := [], ws_revision := wrapping_succ (ws_revision w), ws_charged := 0\<rparr>)"
    using assms(1) by (simp add: reset_accepted_work_def Let_def) (simp add: core_def)
  then have "x\<lparr>ws_charged := 0\<rparr> = w\<lparr>ws_base := v, ws_journal := [], ws_files := [], ws_revision := wrapping_succ (ws_revision w), ws_charged := 0\<rparr>"
    using assms(2) by (simp add: core_def)
  note e = arg_cong [OF this]
  show "ws_green x = ws_green w" "ws_base x = v" "ws_files x = []" "ws_journal x = []"
    using e [of ws_green] e [of ws_base] e [of ws_files] e [of ws_journal] by simp_all
  show "sh_partition ?s = sh_partition st" using assms(1) by (simp add: reset_accepted_work_def Let_def)
qed

lemma restated_at:
  assumes "role_of st work = Some (RWork (ws_green x) c s)" "log_at st work = [entry_encode (restated (ws_base x) (ws_files x) (ws_journal x))]"
    "bt_ok (ws_files x)" "log_entry_ok (restated (ws_base x) (ws_files x) (ws_journal x))" "list_all op_fits (ws_journal x)"
  shows "logged_at st work x"
  using restated_logged [OF assms(3-5)] by (simp add: logged_at_def assms(1,2))

lemma finish_accept_acting:
  assumes f: "finish_accept ev work k (GreenAdvanced k bytes) v s = (r, st')" and v: "v < 256 ^ 8"
    and w: "bt_get (sh_works s) work = Some w" "logged_at s work w" and x: "bt_get (sh_works st') work = Some x"
  shows "logged_at st' work x"
  using f
proof (cases rule: finish_accept_effect)
  case same
  then have "x = w" using w(1) x by simp
  then show ?thesis using logged_at_keep [OF w(2)] same roles_of_volumes [OF same(4)] reads_alike_same by simp
next
  case (reset y)
  have st': "bt_get (sh_works (reset_accepted_work ev work v y)) work = Some x" using x by (simp add: reset(6) enqueue_record_def)
  note e = reset_work [OF _ st', unfolded reset(1), OF w(1)]
  have p: "sh_partition st' = sh_partition y" by (simp add: reset(6) e(5) enqueue_record_def)
  obtain c q where "role_of s work = Some (RWork (ws_green w) c q)" using w(2) by (auto simp: logged_at_def)
  then have r: "role_of st' work = Some (RWork (ws_green x) c q)" using p reset(5) e(1) by (simp add: role_of_def fun_eq_iff)
  have "accepted_restatement v = restated (ws_base x) (ws_files x) (ws_journal x)"
    using e by (simp add: accepted_restatement_def restated_def)
  moreover have "log_at st' work = [entry_encode (accepted_restatement v)]" using p fun_cong [OF reset(4), of work] by (simp add: log_at_def)
  ultimately show ?thesis using r e v by (intro restated_at) (simp_all add: restated_def)
qed

lemma finish_accept_writes:
  assumes "finish_accept ev work k (GreenAdvanced k bytes) v s = (r, st')"
  shows "writes work s st'"
  using assms
proof (cases rule: finish_accept_effect)
  case (reset y)
  have "sh_partition (reset_accepted_work ev work v y) = sh_partition y"
    by (simp add: reset_accepted_work_def Let_def split: option.split)
  then have "writes work y st'" by (intro writes_same) (simp add: reset(6) enqueue_record_def)
  then show ?thesis using reset(4,5) by (simp add: writes_def)
qed (simp add: writes_def)

text \<open>A step that keeps the works, the tables and every version read.\<close>

lemma logged_still:
  assumes inv: "shard_inv ev H st" and kp: "keeps ev H (reader st) st st'" and "sh_works st' = sh_works st"
    "sh_partition st' = sh_partition st" and w: "logged_at st v w" "bt_get (sh_works st) v = Some w"
  shows "logged_at st' v w"
proof -
  have ok: "bt_ok (sh_works st)" "bt_ok (sh_pins st)" "readers_ok st" using inv by (simp_all add: shard_inv_def)
  have "reader st (ws_green w) (ws_base w)" using w(2) ok by (auto simp: reader_iff)
  then have "reads_alike (ws_green w) (ws_base w) st st'"
    using ok(3) by (intro reads_alike_keeps [OF kp]) (auto simp: readers_ok_def)
  then show ?thesis using assms(4) by (intro logged_at_keep [OF w(1)]) (simp_all add: role_of_def log_at_def)
qed

lemma judge_acting:
  assumes inv: "shard_inv ev H st" and fit: "heads_fit st" and k: "based st work = Some (k, b)"
    and i: "inc_id inc = ev_blake3 ev (work @ le_bytes 8 b @ rest)" "work @ le_bytes 8 b @ rest \<in> H"
    and w: "bt_get (sh_works st) work = Some w" "logged_at st work w"
    and j: "judge_submit ev work k inc (GreenAdvanced k bytes) st = (r, st')"
  shows "pred_option (logged_at st' work) (bt_get (sh_works st') work) \<and> writes work st st'"
proof (cases "bt_get (sh_greens st) k")
  case None
  then show ?thesis using j w by (simp add: judge_submit_def writes_same)
next
  case (Some g)
  have ok: "bt_ok (sh_works st)" "bt_ok (sh_pins st)" "greens_sound ev H st" "green_sound ev H g" "head g < u64_max"
    using inv fit Some by (auto simp: shard_inv_def heads_fit_def greens_sound_def)
  have "reader st k b" using k ok by (auto simp: reader_based)
  then have b: "b \<le> head g" using inv Some by (auto simp: shard_inv_def readers_ok_def)
  have len: "length work = 16" using inv k by (auto simp: based_def shard_inv_def)
  have sp: "stamped ev H (inc_id inc) (Suc (head g))"
    unfolding stamped_def using len b ok(5) i by (intro exI [of _ work] exI [of _ b] exI [of _ rest]) (simp add: u64_max_def)
  obtain out h where h: "submit inc g = (out, h)" by fastforce
  note l = submit_later [OF ok(4,5) sp, unfolded h snd_conv]
  define s where "s = st\<lparr>sh_greens := bt_insert k h (sh_greens st)\<rparr>"
  have s: "keeps ev H (reader st) st s" "sh_works s = sh_works st" "sh_partition s = sh_partition st" "sh_pins s = sh_pins st"
    using keeps_insert [of st k g ev H "reader st" h, OF Some l(1)] by (simp_all add: s_def)
  have ls: "logged_at s work w" by (rule logged_still [OF inv s(1,2,3) w(2,1)])
  show ?thesis
  proof (cases out)
    case (Accepted v)
    have f: "finish_accept ev work k (GreenAdvanced k bytes) v s = (r, st')"
      using j by (simp add: judge_submit_def Some h Accepted s_def)
    have "v \<le> Suc (head g)"
    proof (cases "bt_get (g_accepted g) (inc_id inc)")
      case None
      then show ?thesis using l(3) [of v h] h Accepted by simp
    next
      case (Some u)
      then show ?thesis using ok(4) h Accepted by (auto simp: submit_def green_sound_def accepted_ok_def intro: le_SucI)
    qed
    then have "v < 256 ^ 8" using ok(5) by (simp add: u64_max_def)
    then show ?thesis
      using finish_accept_acting [OF f _ _ ls] w(1) s writes_trans [OF writes_same finish_accept_writes [OF f]]
      by (cases "bt_get (sh_works st') work") simp_all
  next
    case (OutConflict ws)
    then have st': "st' = settle_after_conflict ev k (inc_id inc) s" using j by (simp add: judge_submit_def Some h s_def)
    note c = settle_after_conflict_keeps [OF keeps_greens_sound [OF s(1) ok(3)], of k "inc_id inc"]
    have r: "reader s = reader st" by (rule same_readers) (simp_all add: s)
    have p: "sh_partition st' = sh_partition st" by (simp add: st' settle_after_conflict_partition s)
    have "keeps ev H (reader st) st st'" using keeps_trans [OF s(1)] c(1) by (simp add: r st')
    then have "logged_at st' work w" by (rule logged_still [OF inv _ _ p w(2,1)]) (simp add: st' c s)
    then show ?thesis using writes_same [OF p] w(1) by (simp add: st' c s)
  qed
qed

lemma submit_acting:
  assumes inv: "shard_inv ev H st" and fit: "heads_fit st" and h: "sealed_input ev st work evidence \<subseteq> H" and lg: "logged st"
    and e: "submit_verb ev who work evidence st = (r, st')"
  shows "pred_option (logged_at st' work) (bt_get (sh_works st') work) \<and> writes work st st'"
proof -
  have gs: "greens_sound ev H st" using inv by (simp add: shard_inv_def)
  have still: "pred_option (logged_at s work) (bt_get (sh_works s) work) \<and> writes work st s"
    if "keeps ev H (reader st) st s" "sh_works s = sh_works st" "sh_partition s = sh_partition st" for s
    using logged_still [OF inv that] lg writes_same [OF that(3)]
    by (cases "bt_get (sh_works st) work") (simp_all add: logged_def that(2))
  from submit_stages [OF e] show ?thesis
  proof cases
    case 1
    then show ?thesis using still [of st] by simp
  next
    case (2 k)
    then show ?thesis using still [OF settle_keeps [OF gs]] by simp
  next
    case (3 k inc n st2 g)
    note f = secure_frame [OF 3(2)]
    obtain w where w: "bt_get (sh_works st) work = Some w" "k = ws_green w"
      "inc_id inc = ev_blake3 ev (work @ le_bytes 8 (ws_base w) @ encode (inc_doc inc) @ inc_post inc)"
      "work @ le_bytes 8 (ws_base w) @ encode (inc_doc inc) @ inc_post inc \<in> H"
    proof (rule build_based [OF 3(1)])
      fix w assume "bt_get (sh_works st) work = Some w" "k = ws_green w" "inc_base inc = ws_base w"
        "inc_id inc = ev_blake3 ev (work @ le_bytes 8 (ws_base w) @ encode (inc_doc inc) @ inc_post inc)"
      then show thesis using h by (intro that [of w]) (simp_all add: sealed_input_def 3(1))
    qed
    have s: "keeps ev H (reader st) st st2" "sh_works st2 = sh_works st" "sh_pins st2 = sh_pins st" "sh_partition st2 = sh_partition st"
      using keeps_trans [OF settle_keeps [OF gs] keeps_same] f by simp_all
    have l2: "logged_at st2 work w" "writes work st st2" using still [OF s(1,2,4)] w(1) s(2) by simp_all
    have m: "moves ev H work st st2" using s inv by (intro moves_still [OF inv] core_same) (simp_all add: shard_inv_def)
    have "map_option head (bt_get (sh_greens st2) j) = map_option head (bt_get (sh_greens st) j)" for j
      using settle_heads [of ev k st] f(4) by simp
    note fit2 = heads_fit_same [OF this fit]
    have b2: "based st2 work = Some (k, ws_base w)" "bt_get (sh_works st2) work = Some w" using w s(2) by (simp_all add: based_def)
    note a = judge_acting [OF moves_inv [OF inv m] fit2 b2(1) w(3,4) b2(2) l2(1) 3(3)]
    show ?thesis using a writes_trans [OF l2(2)] by simp
  qed
qed

text \<open>A rebase, on the work it names.\<close>

lemma rebased_ok:
  assumes "rebase inc g = (Rebased v changed journal, g')"
  shows "bt_ok changed"
proof -
  have "bt_ok (fold rebase_change es m)" if "bt_ok m" for es m
    using that
  proof (induction es arbitrary: m)
    case (Cons e es)
    then show ?case by (cases e) simp_all
  qed simp
  then have "bt_ok (filter P (fold rebase_change es []))" for P es
    unfolding bt_ok_def by (metis bt_ok_Nil bt_ok_def sorted_wrt_filter sorted_wrt_map)
  then show ?thesis using assms by (auto simp: rebase_def rebased_from_def Let_def split: prod.splits sum.splits)
qed

lemma finish_rebase_effect:
  assumes "finish_rebase ev work k v changed journal st = (r, st')"
  obtains (same) "core st' = core st" "sh_greens st' = sh_greens st" "sh_partition st' = sh_partition st"
  | (moved) x where "core x = core st" "sh_greens x = sh_greens st" "sh_pins x = sh_pins st" "volumes x = volumes st"
      "log_at x = (log_at st)(work := [entry_encode (restated v changed journal)])"
      "st' = snd (settle_green_retention ev k (case bt_get (sh_works x) work of None \<Rightarrow> x
         | Some w \<Rightarrow> x\<lparr>sh_works := bt_insert work (w\<lparr>ws_files := changed, ws_base := v, ws_journal := journal,
             ws_revision := wrapping_succ (ws_revision w)\<rparr>) (sh_works x)\<rparr>))"
proof -
  let ?p = "restatement work (restated v changed journal)"
  obtain q y where q: "charge_set_to ev work (work_footprint (ev_op_size ev) changed journal) st = (q, y)" by fastforce
  have y: "sh_greens y = sh_greens st" "sh_pins y = sh_pins st" "sh_partition y = sh_partition st" "core y = core st"
    using charge_set_to_frame(1,2,3,5) [of ev work "work_footprint (ev_op_size ev) changed journal" st] by (simp_all add: q)
  consider "st' = st" | "st' = y" | n where "st' = snd (charge_set_to ev work n y)"
    | x where "db_mutate ?p y = Inr x" "st' = snd (settle_green_retention ev k (case bt_get (sh_works x) work of None \<Rightarrow> x
         | Some w \<Rightarrow> x\<lparr>sh_works := bt_insert work (w\<lparr>ws_files := changed, ws_base := v, ws_journal := journal,
             ws_revision := wrapping_succ (ws_revision w)\<rparr>) (sh_works x)\<rparr>))"
    using assms unfolding finish_rebase_def Let_def q
    by (auto simp del: partition_check.simps split: option.splits sum.splits)
  then show thesis
  proof cases
    case (4 x)
    note f = db_mutate_frame [OF 4(1)] and l = db_logs(2) [OF 4(1) [unfolded restatement_def] refl]
    have "volumes y = volumes st" "log_at y = log_at st" using y(3) by (simp_all add: role_of_def log_at_def fun_eq_iff)
    then show ?thesis using moved [OF _ _ _ _ _ 4(2)] f l y core_same [OF f(3)] by simp
  qed (use same y in simp_all)
qed

lemma finish_rebase_acting:
  assumes e: "finish_rebase ev work k v changed journal st = (r, st')"
    and w: "bt_get (sh_works st) work = Some w" "logged_at st work w"
    and ok: "bt_ok changed" "log_entry_ok (restated v changed journal)" "list_all op_fits journal"
  shows "pred_option (logged_at st' work) (bt_get (sh_works st') work) \<and> writes work st st'"
  using e
proof (cases rule: finish_rebase_effect)
  case same
  have "logged_at st' work y" if "bt_get (sh_works st') work = Some y" for y
  proof (rule logged_at_keep [OF w(2)])
    show "y\<lparr>ws_charged := 0\<rparr> = w\<lparr>ws_charged := 0\<rparr>" using fun_cong [OF same(1), of work] that w(1) by (simp add: core_def)
  qed (use same reads_alike_same in \<open>simp_all add: role_of_def log_at_def\<close>)
  then show ?thesis using writes_same [OF same(3)] by (cases "bt_get (sh_works st') work") simp_all
next
  case (moved x)
  obtain w1 where w1: "bt_get (sh_works x) work = Some w1" "w1\<lparr>ws_charged := 0\<rparr> = w\<lparr>ws_charged := 0\<rparr>"
    using fun_cong [OF moved(1), of work] w(1) by (auto simp: core_def)
  define y where "y = w1\<lparr>ws_files := changed, ws_base := v, ws_journal := journal, ws_revision := wrapping_succ (ws_revision w1)\<rparr>"
  have st': "bt_get (sh_works st') work = Some y" "sh_partition st' = sh_partition x" by (simp_all add: moved(6) w1(1) y_def)
  obtain c s where c: "role_of st work = Some (RWork (ws_green w) c s)" using w(2) by (auto simp: logged_at_def)
  have "ws_green y = ws_green w" using arg_cong [OF w1(2), of ws_green] by (simp add: y_def)
  then have "role_of st' work = Some (RWork (ws_green y) c s)" using c moved(4) st'(2) by (simp add: role_of_def fun_eq_iff)
  moreover have "log_at st' work = [entry_encode (restated v changed journal)]"
    using fun_cong [OF moved(5), of work] st'(2) by (simp add: log_at_def)
  ultimately have "logged_at st' work y" using ok by (intro restated_at) (simp_all add: y_def)
  moreover have "writes work st st'" using moved(4,5) writes_same [OF st'(2), of work] by (simp add: writes_def)
  ultimately show ?thesis using st'(1) by simp
qed

lemma rebase_acting:
  assumes lg: "logged st" and fit: "words_fit ev (ReqRebase who work) st" and e: "rebase_verb ev who work st = (r, st')"
  shows "pred_option (logged_at st' work) (bt_get (sh_works st') work) \<and> writes work st st'"
proof -
  have self: "pred_option (logged_at s work) (bt_get (sh_works s) work) \<and> writes work st s"
    if "sh_works s = sh_works st" "sh_partition s = sh_partition st" "\<And>j. bt_get (sh_greens s) j = bt_get (sh_greens st) j" for s
    using lg that writes_same [OF that(2)]
    by (cases "bt_get (sh_works st) work") (simp_all add: logged_def logged_at_def role_of_def log_at_def)
  show ?thesis
  proof (cases "(\<exists>q. require_work st who work False = Inl q) \<or> (\<exists>q. build_increment ev st work [] = Inl q)
      \<or> (\<exists>k inc. build_increment ev st work [] = Inr (k, inc) \<and> bt_get (sh_greens st) k = None)")
    case True
    then have "st' = st" using e by (auto simp: rebase_verb_def split: sum.splits option.splits)
    then show ?thesis using self by simp
  next
    case False
    then obtain q k inc g where q: "require_work st who work False = Inr q" "build_increment ev st work [] = Inr (k, inc)"
      "bt_get (sh_greens st) k = Some g" by (metis not_None_eq old.sum.exhaust surj_pair)
    obtain out g' where out: "rebase inc g = (out, g')" by fastforce
    note g' = rebase_result(1) [OF out]
    let ?s = "st\<lparr>sh_greens := bt_insert k g (sh_greens st)\<rparr>"
    have s: "pred_option (logged_at ?s work) (bt_get (sh_works ?s) work) \<and> writes work st ?s" using self [of ?s] q(3) by simp
    show ?thesis
    proof (cases out)
      case (RebaseConflict ws)
      then have "st' = ?s" using e by (simp add: rebase_verb_def q out g')
      then show ?thesis using s by simp
    next
      case (Rebased v c j)
      have f: "finish_rebase ev work k v c j ?s = (r, st')" using e by (simp add: rebase_verb_def q out g' Rebased)
      obtain w where w: "bt_get (sh_works st) work = Some w" by (rule build_based [OF q(2)])
      have "log_entry_ok (restated v c j)" "list_all op_fits j" using fit by (simp_all add: q out Rebased)
      then show ?thesis
        using finish_rebase_acting [OF f _ _ rebased_ok [OF out [unfolded Rebased]]] w s writes_trans [of work st ?s st'] by simp
    qed
  qed
qed

section \<open>A run\<close>

lemma dispatch_acting:
  assumes inv: "shard_inv ev H st" and fit: "fits ev rq st" and h: "hashed ev rq st \<subseteq> H" and lg: "logged st"
    and st': "st' = snd (dispatch ev rq st)"
  shows "pred_option (logged_at st' (acts_on rq)) (bt_get (sh_works st') (acts_on rq)) \<and> writes (acts_on rq) st st'"
proof -
  obtain r where e: "dispatch ev rq st = (r, st')" unfolding st' by (metis prod.collapse)
  show ?thesis
  proof (cases rq)
    case (ReqEdit who work p at del bytes)
    then show ?thesis
      using edit_acting [OF lg, of p at del bytes ev who work] changes_writes [OF edit_changes [of ev work st who p at del bytes]] fit st'
      by (cases "bt_get (sh_works st') work") (simp_all add: fits_def)
  next
    case (ReqDeclare who work p)
    then show ?thesis
      using declare_acting [OF lg, of p ev who work] changes_writes [OF declare_changes [of ev work st who p]] fit st'
      by (cases "bt_get (sh_works st') work") (simp_all add: fits_def)
  next
    case (ReqSubmit who work evidence)
    then show ?thesis using submit_acting [OF inv _ _ lg, of work evidence who r st'] fit h e by (simp add: fits_def)
  next
    case (ReqRebase who work)
    then show ?thesis using rebase_acting [OF lg, of ev who work r st'] fit e by (simp add: fits_def)
  qed
qed

lemma dispatch_logged:
  assumes run: "service_run ev H st" and inj: "inj_on (ev_blake3 ev) H" and fit: "fits ev rq st" and h: "hashed ev rq st \<subseteq> H"
    and lg: "logged st" and st': "st' = snd (dispatch ev rq st)"
  shows "logged st'"
  unfolding logged_def
proof (intro allI impI)
  fix v x assume x: "bt_get (sh_works st') v = Some x"
  have hf: "heads_fit st" using fit by (simp add: fits_def)
  note a = dispatch_acting [OF run_inv [OF run inj] fit h lg st'] and o = dispatch_others [OF run hf inj h st']
  show "logged_at st' v x"
  proof (cases "v = acts_on rq")
    case True
    then show ?thesis using a x by simp
  next
    case False
    then obtain w where w: "bt_get (sh_works st) v = Some w" "x\<lparr>ws_charged := 0\<rparr> = w\<lparr>ws_charged := 0\<rparr>"
      using o(1) [OF False] x by (cases "bt_get (sh_works st) v") (simp_all add: core_def)
    have R: "others_read (acts_on rq) st (ws_green w) (ws_base w)" using False w(1) by (auto simp: others_read_def based_def)
    have "logged_at st v w" using lg w(1) by (simp add: logged_def)
    then show ?thesis
      by (rule logged_at_keep [OF _ w(2) _ _ reads_alike_keeps [OF o(3) R o(4) [OF _ R]]])
        (use a False in \<open>simp_all add: writes_def role_of_def\<close>)
  qed
qed

text \<open>A step that changes no work's own state, and of the greens only what no reader sees.\<close>

lemma logged_step:
  assumes inv: "shard_inv ev H st" and lg: "logged st"
    and w: "\<And>v x. bt_get (sh_works st') v = Some x \<Longrightarrow> \<exists>w. bt_get (sh_works st) v = Some w \<and> x\<lparr>ws_charged := 0\<rparr> = w\<lparr>ws_charged := 0\<rparr>
      \<and> role_of st' v = role_of st v \<and> log_at st' v = log_at st v"
    and g: "\<And>k g'. (\<exists>w. reader st k w) \<Longrightarrow> bt_get (sh_greens st') k = Some g' \<Longrightarrow>
      \<exists>g. bt_get (sh_greens st) k = Some g \<and> later_green ev H (reader st k) g g'"
  shows "logged st'"
  unfolding logged_def
proof (intro allI impI)
  fix v x assume "bt_get (sh_works st') v = Some x"
  then obtain w where x: "bt_get (sh_works st) v = Some w" "x\<lparr>ws_charged := 0\<rparr> = w\<lparr>ws_charged := 0\<rparr>"
    "role_of st' v = role_of st v" "log_at st' v = log_at st v" using w by blast
  have ok: "bt_ok (sh_works st)" "bt_ok (sh_pins st)" "readers_ok st" using inv by (simp_all add: shard_inv_def)
  have r: "reader st (ws_green w) (ws_base w)" using x(1) ok by (auto simp: reader_iff)
  have "reads_alike (ws_green w) (ws_base w) st st'"
    unfolding reads_alike_def
  proof (intro allI impI)
    fix g' assume "bt_get (sh_greens st') (ws_green w) = Some g'"
    then obtain h where h: "bt_get (sh_greens st) (ws_green w) = Some h" "later_green ev H (reader st (ws_green w)) h g'" using g r by blast
    then show "\<exists>g. bt_get (sh_greens st) (ws_green w) = Some g \<and> (\<forall>p. content_at g' p (ws_base w) = content_at g p (ws_base w))"
      using r ok(3) by (auto simp: later_green_def readers_ok_def)
  qed
  moreover have "logged_at st v w" using lg x(1) by (simp add: logged_def)
  ultimately show "logged_at st' v x" using x(2-4) logged_at_keep by blast
qed

lemma logged_same:
  assumes "shard_inv ev H st" "logged st" "sh_works st' = sh_works st" "sh_greens st' = sh_greens st"
    "\<And>v. v \<in> set (bt_keys (sh_works st)) \<Longrightarrow> role_of st' v = role_of st v \<and> log_at st' v = log_at st v"
  shows "logged st'"
  using assms(3-5) by (intro logged_step [OF assms(1,2)]) (auto simp: set_bt_keys bt_contains_def)

lemma logged_settle:
  assumes inv: "shard_inv ev H st" and lg: "logged st"
  shows "logged (snd (settle_green_retention ev k st))"
proof (rule logged_step [OF inv lg])
  have "keeps ev H (reader st) st (snd (settle_green_retention ev k st))" using inv by (intro settle_keeps) (simp add: shard_inv_def)
  then show "\<exists>g. bt_get (sh_greens st) j = Some g \<and> later_green ev H (reader st j) g g'"
    if "bt_get (sh_greens (snd (settle_green_retention ev k st))) j = Some g'" for j g'
    using keepsD that by blast
qed (simp add: role_of_def log_at_def)

end
