(* ===== verification/Service_Catalog.thy ===== *)
theory Service_Catalog
  imports Service_Logs
begin

text \<open>
  Every run keeps the catalog and the logs a restart reads: each work's record and log restore the
  work over its green, and each green's record says that it is one.
\<close>

section \<open>The works\<close>

lemma created_roles:
  assumes "db_mutate (VolumeCreated v r) st = Inr st'"
  shows "role_of st' = (role_of st)(v := Some (vr_role r))" "log_at st' = log_at st"
  using db_mutate_frame(6) [OF assms] by (simp_all add: role_of_def log_at_def fun_eq_iff)

lemma held_roles:
  assumes "db_mutate (GreenOriginHeld v s) st = Inr st'"
  shows "role_of st' = role_of st" "log_at st' = log_at st"
  using db_mutate_frame(6) [OF assms] by (simp_all add: role_of_def log_at_def fun_eq_iff)

lemma state_roles:
  assumes "db_mutate (VolumeStateChanged v q) st = Inr st'"
  shows "role_of st' = role_of st" "log_at st' = log_at st"
  using db_mutate_frame(6) [OF assms] by (auto simp: role_of_def log_at_def fun_eq_iff split: option.split)

lemma destroyed_roles:
  assumes "db_mutate (VolumeDestroyed v) st = Inr st'" "u \<noteq> v"
  shows "role_of st' u = role_of st u" "log_at st' u = log_at st u"
  using db_mutate_frame(6) [OF assms(1)] assms(2)
  by (simp_all add: role_of_def log_at_def log_of_def remove_volume_def Let_def split: option.split)

text \<open>The outcomes of the verbs that create a volume.\<close>

lemma new_record_role [simp]: "vr_role (new_record name r who) = r"
  by (simp add: new_record_def)

lemma create_green_cases:
  assumes "create_green ev who name require_evidence seed fresh st = (r, st')"
  obtains "st' = st"
  | v s where "fresh = Some v" "db_mutate (VolumeCreated v (new_record name (RGreen require_evidence 0) who)) st = Inr s" "st' = s"
  | v s s' where "fresh = Some v" "db_mutate (VolumeCreated v (new_record name (RGreen require_evidence 0) who)) st = Inr s"
      "s' = s \<or> db_mutate (GreenOriginHeld v (the seed)) s = Inr s'" "st' = install_green v (seeded ev seed) s'"
  using assms unfolding create_green_def
  by (auto simp: seeded_def split: option.splits sum.splits)

lemma create_work_cases:
  assumes "create_work who k name fresh st = (r, st')"
  obtains "st' = st"
  | v g s where "fresh = Some v" "bt_get (sh_greens st) k = Some g"
      "db_mutate (VolumeCreated v (new_record name (RWork k (head g) False) who)) st = Inr s"
      "st' = s\<lparr>sh_works := bt_insert v (fresh_work k (head g)) (sh_works s)\<rparr>"
  using assms unfolding create_work_def by (auto split: option.splits sum.splits)

lemma create_green_logged:
  assumes inv: "shard_inv ev H st" and lg: "logged st" and v: "pred_option (fresh_id st) fresh"
    and e: "create_green ev who name require_evidence seed fresh st = (r, st')"
  shows "logged st'"
proof -
  have made: "logged s'" if "fresh = Some u" "db_mutate (VolumeCreated u x) st = Inr s"
      "sh_works s' = sh_works s" "sh_greens s' = sh_greens s \<or> sh_greens s' = bt_insert u g (sh_greens s)"
      "role_of s' = role_of s" "log_at s' = log_at s" for u x s s' g
  proof (rule logged_step [OF inv lg])
    note f = db_mutate_frame [OF that(2)] and c = created_roles [OF that(2)]
    have n: "bt_get (sh_works st) u = None" "\<And>w. \<not> reader st u w" using v that(1) by (simp_all add: fresh_id_def)
    show "\<exists>w. bt_get (sh_works st) j = Some w \<and> y\<lparr>ws_charged := 0\<rparr> = w\<lparr>ws_charged := 0\<rparr> \<and> role_of s' j = role_of st j \<and> log_at s' j = log_at st j"
      if "bt_get (sh_works s') j = Some y" for j y
      using that \<open>sh_works s' = sh_works s\<close> \<open>role_of s' = role_of s\<close> \<open>log_at s' = log_at s\<close> f(3) c n(1) by auto
    show "\<exists>h. bt_get (sh_greens st) k = Some h \<and> later_green ev H (reader st k) h g'"
      if "\<exists>w. reader st k w" "bt_get (sh_greens s') k = Some g'" for k g'
      using that n(2) f(1) \<open>_ \<or> _\<close> by (cases "k = u") auto
  qed
  from e show ?thesis
  proof (cases rule: create_green_cases)
    case (2 v s)
    then show ?thesis using made [OF 2(1,2)] by simp
  next
    case (3 v s s')
    have s': "sh_works s' = sh_works s" "sh_greens s' = sh_greens s" "role_of s' = role_of s" "log_at s' = log_at s"
      using 3(3) held_roles db_mutate_frame(1,3) by blast+
    show ?thesis
      by (rule made [OF 3(1,2), where g = "set_rejected_budget (rejected_cache_budget s') (seeded ev seed)"])
        (use s' 3(4) in \<open>simp_all add: install_green_def enqueue_record_def role_of_def log_at_def fun_eq_iff\<close>)
  qed (use lg in simp)
qed

lemma create_work_logged:
  assumes inv: "shard_inv ev H st" and lg: "logged st" and v: "pred_option (fresh_id st) fresh"
    and e: "create_work who k name fresh st = (r, st')"
  shows "logged st'"
  using e
proof (cases rule: create_work_cases)
  case (2 v g s)
  note f = db_mutate_frame [OF 2(3)] and c = created_roles [OF 2(3)]
  have n: "bt_get (sh_works st) v = None" "log_at st v = []" using v 2(1) by (simp_all add: fresh_id_def log_at_def)
  have s: "logged s" by (rule logged_same [OF inv lg]) (use f c n(1) in \<open>auto simp: set_bt_keys bt_contains_def\<close>)
  have same: "role_of st' = role_of s" "log_at st' = log_at s" "sh_greens st' = sh_greens s" using 2(4) by (simp_all add: role_of_def log_at_def fun_eq_iff)
  have "logged_at st' v (fresh_work k (head g))"
    using c n(2) by (auto simp: logged_at_def same work_logged_def fresh_work_def replay_def)
  moreover have "logged_at st' u w" if "logged_at s u w" for u w using that by (simp add: logged_at_def same)
  ultimately show ?thesis using s 2(4) by (auto simp: logged_def split: if_splits)
qed (use lg in simp)

text \<open>The pins move, and then one green settles.\<close>

lemma logged_pins:
  assumes inv: "shard_inv ev H st" and lg: "logged st"
    and s: "sh_works s = sh_works st" "sh_greens s = sh_greens st" "sh_partition s = sh_partition st"
  shows "logged s"
  by (rule logged_same [OF inv lg s(1,2)]) (simp add: role_of_def log_at_def s(3))

lemma retire_logged:
  assumes inv: "shard_inv ev H st"
    and lg: "\<And>u w. u \<noteq> v \<Longrightarrow> bt_get (sh_works st) u = Some w \<Longrightarrow> logged_at st u w"
    and v: "bt_get (sh_works st) v = None \<Longrightarrow> logged st"
  shows "logged (retire_volume ev v st)"
proof -
  define s where "s = (case bt_get (sh_works st) v of None \<Rightarrow> st
      | Some w \<Rightarrow> snd (settle_green_retention ev (ws_green w)
          (charge_release (ws_charged w) (st\<lparr>sh_works := bt_remove v (sh_works st)\<rparr>))))"
  let ?x = "\<lambda>n. charge_release n (st\<lparr>sh_works := bt_remove v (sh_works st)\<rparr>)"
  have x: "shard_inv ev H (?x n)" for n
    by (rule fewer_inv [OF inv]) (use inv in \<open>auto simp: shard_inv_def charge_release_def split: if_splits\<close>)
  have "logged (?x n)" for n
    using lg by (auto simp: logged_def logged_at_def charge_release_def role_of_def log_at_def split: if_splits)
  then have s: "logged s" "shard_inv ev H s"
    using logged_settle [OF x] settle_inv [OF x] v inv by (auto simp: s_def split: option.split)
  have r: "sh_works (release_green_retention v y) = sh_works y" "sh_greens (release_green_retention v y) = sh_greens y"
    "sh_partition (release_green_retention v y) = sh_partition y" for y
    by (simp_all add: release_green_retention_def split: option.split)
  have "logged y" if "sh_works y = sh_works s" "sh_greens y = bt_remove v (sh_greens s)" "sh_partition y = sh_partition s" for y
    by (rule logged_step [OF s(2,1)]) (use that in \<open>auto simp: role_of_def log_at_def split: if_splits\<close>)
  then show ?thesis
    using s(1) unfolding retire_volume_def Let_def s_def [symmetric] by (auto simp: r split: option.split)
qed

lemma destroy_cases:
  assumes "destroy_merge_volume ev who v st = (r, st')"
  obtains "st' = st"
  | "st' = st\<lparr>sh_pins := filter (\<lambda>(_, pin). fst pin \<noteq> v) (sh_pins st)\<rparr>"
  | "db_mutate (VolumeStateChanged v Destroying) (st\<lparr>sh_pins := filter (\<lambda>(_, pin). fst pin \<noteq> v) (sh_pins st)\<rparr>) = Inr st'"
  | s s' where "db_mutate (VolumeStateChanged v Destroying) (st\<lparr>sh_pins := filter (\<lambda>(_, pin). fst pin \<noteq> v) (sh_pins st)\<rparr>) = Inr s"
      "db_mutate (VolumeDestroyed v) s = Inr s'" "st' = retire_volume ev v s'"
  using assms unfolding destroy_merge_volume_def Let_def by (auto split: option.splits sum.splits if_splits)

lemma unpinned_inv:
  assumes inv: "shard_inv ev H st"
  shows "shard_inv ev H (st\<lparr>sh_pins := filter (\<lambda>(_, pin). fst pin \<noteq> v) (sh_pins st)\<rparr>)" (is "shard_inv ev H ?s")
proof (rule fewer_inv [OF inv])
  have ok: "bt_ok (sh_pins st)" using inv by (simp add: shard_inv_def)
  show "bt_ok (sh_pins ?s)" using ok unfolding bt_ok_def by (simp add: sorted_wrt_map sorted_wrt_filter)
  show "bt_get (sh_pins ?s) a = Some x \<Longrightarrow> bt_get (sh_pins st) a = Some x" for a x
    using bt_get_filter [OF ok, of "\<lambda>_ pin. fst pin \<noteq> v" a] by (simp split: option.splits if_splits)
qed (use inv in \<open>simp_all add: shard_inv_def\<close>)

lemma destroy_logged:
  assumes inv: "shard_inv ev H st" and lg: "logged st" and e: "destroy_merge_volume ev who v st = (r, st')"
  shows "logged st'"
proof -
  let ?s = "st\<lparr>sh_pins := filter (\<lambda>(_, pin). fst pin \<noteq> v) (sh_pins st)\<rparr>"
  note i = unpinned_inv [OF inv, of v]
  have s: "logged ?s" by (rule logged_pins [OF inv lg]) simp_all
  have m: "logged x \<and> shard_inv ev H x" if "db_mutate (VolumeStateChanged v Destroying) ?s = Inr x" for x
  proof -
    note f = db_mutate_frame [OF that]
    have "shard_inv ev H x" by (rule inv_same [OF i f(1,3,2)])
    moreover have "logged x" by (rule logged_same [OF i s f(3,1)]) (simp add: state_roles [OF that])
    ultimately show ?thesis by simp
  qed
  from e show ?thesis
  proof (cases rule: destroy_cases)
    case (4 x y)
    note f = db_mutate_frame [OF 4(2)] and x = m [OF 4(1)]
    have "shard_inv ev H y" by (rule inv_same [OF conjunct2 [OF x] f(1,3,2)])
    moreover have at: "logged_at y u w" if "u \<noteq> v" "bt_get (sh_works y) u = Some w" for u w
    proof -
      have "logged_at x u w" using x that(2) f(3) by (simp add: logged_def)
      then show ?thesis using destroyed_roles [OF 4(2) that(1)] f(1) by (simp add: logged_at_def)
    qed
    moreover have "logged y" if "bt_get (sh_works y) v = None"
      unfolding logged_def
    proof (intro allI impI)
      fix u w assume "bt_get (sh_works y) u = Some w"
      then show "logged_at y u w" using at [of u w] that by (cases "u = v") simp_all
    qed
    ultimately show ?thesis unfolding 4(3) by (rule retire_logged)
  qed (use s lg m in auto)
qed

lemma run_logged:
  assumes "service_run ev H st" "inj_on (ev_blake3 ev) H"
  shows "logged st"
  using assms(1)
proof (induction rule: service_run.induct)
  case (started st)
  then show ?case by (simp add: logged_def)
next
  case (served st rq)
  show ?case by (rule dispatch_logged [OF served.hyps(1) assms(2) served.hyps(2,3) served.IH refl])
next
  case (elsewhere st pt b)
  show ?case
    by (rule logged_same [OF run_inv [OF elsewhere.hyps(1) assms(2)] elsewhere.IH])
      (use elsewhere.hyps(2) in \<open>auto simp: keeps_merge_def role_of_def log_at_def\<close>)
next
  case (green_made st fresh who name require_evidence seed)
  note inv = run_inv [OF green_made.hyps(1) assms(2)]
  show ?case by (rule create_green_logged [OF inv green_made.IH green_made.hyps(2)]) (rule prod.collapse [symmetric])
next
  case (work_made st fresh who k name)
  note inv = run_inv [OF work_made.hyps(1) assms(2)]
  show ?case by (rule create_work_logged [OF inv work_made.IH work_made.hyps(2)]) (rule prod.collapse [symmetric])
next
  case (attached st a k)
  show ?case by (rule logged_pins [OF run_inv [OF attached.hyps(1) assms(2)] attached.IH]) (simp_all add: pin_head_def split: option.split)
next
  case (detached st a)
  note inv = run_inv [OF detached.hyps(1) assms(2)]
  have "shard_inv ev H (st\<lparr>sh_pins := bt_remove a (sh_pins st)\<rparr>)"
    by (rule fewer_inv [OF inv]) (use inv in \<open>auto simp: shard_inv_def split: if_splits\<close>)
  then have "logged (snd (settle_green_retention ev k (st\<lparr>sh_pins := bt_remove a (sh_pins st)\<rparr>)))" for k
    by (rule logged_settle) (rule logged_pins [OF inv detached.IH], simp_all)
  then show ?case using detached.IH by (simp add: forget_attachment_def split: option.split)
next
  case (advanced st a target)
  note inv = run_inv [OF advanced.hyps(1) assms(2)]
  have "logged (snd (settle_green_retention ev k (st\<lparr>sh_pins := bt_insert a (k, u) (sh_pins st)\<rparr>)))"
    if "bt_get (sh_greens st) k = Some g" "\<not> (head g < u \<or> u < g_folded_below g)" for k u g
    by (rule logged_settle [OF pin_inv [OF inv that(1)]], use that in simp_all) (rule logged_pins [OF inv advanced.IH], simp_all)
  then show ?case using advanced.IH by (auto simp: advance_def Let_def split: option.split prod.split)
next
  case (destroyed st who v)
  note inv = run_inv [OF destroyed.hyps(1) assms(2)]
  show ?case by (rule destroy_logged [OF inv destroyed.IH]) (rule prod.collapse [symmetric])
qed

end
