(* ===== verification/Restart_Laws.thy ===== *)
theory Restart_Laws
  imports Service_Catalog
begin

text \<open>
  The steps of a restart over the state a run left: a replayed green folds no further than the green
  the run held, a catalogued green comes back as its twin, and a catalogued work comes back as it was.
\<close>

section \<open>Folding a replayed green\<close>

lemma twin_retained:
  assumes "twin g h" "twin x h" "g_folded_below x = g_folded_below g"
  shows "retained_exact x = retained_exact g"
  using assms by (simp add: twin_def retained_exact_def vd_retained_def dim_defs)

lemma reachable_head: "reachable xof g \<Longrightarrow> head g \<le> u64_max"
proof (induction rule: reachable.induct)
  case (submitted g inc)
  show ?case
  proof (cases rule: submit_cases [of g inc])
    case (conflict ws h)
    then show ?thesis using chain_accounting(4) [OF conflict(3)] submitted.IH by simp
  next
    case (accept es h)
    have "green_ok xof h" "head h = head g"
      using green_ok_chain [OF no_hits_chain [OF accept(4)], of xof] reachable_ok [OF submitted.hyps(1)]
        chain_accounting(4) [OF no_hits_chain [OF accept(4)]] by simp_all
    then have "head (snd (submit inc g)) = Suc (head g)"
      using green_ok_commit(2) [of xof h es] submitted.hyps(2) by (simp add: accept(5) sat_add_small head_def)
    then show ?thesis using submitted.hyps(2) by simp
  qed (use submitted.IH in simp)
next
  case (rebased g inc)
  then show ?case using chain_accounting(4) [of "snd (rebase inc g)" g] by (simp add: rebase_green)
next
  case (folded_to_budget g floor n)
  have "g_deltas (snd (fold_budget_loop xof f m r x)) = g_deltas x" for f m r x
  proof (induction xof f m r x rule: fold_budget_loop.induct)
    case (1 xof f m r x)
    then show ?case
      by (subst fold_budget_loop.simps) (auto simp: Let_def fold_history_before_def fold_identity_def split: prod.split)
  qed
  then show ?case using folded_to_budget by (simp add: fold_history_to_budget_def head_def)
next
  case (identified g digest)
  then show ?case by (simp add: head_identity_def Let_def fold_identity_def head_def)
qed (simp_all add: with_origin_ok chain_accounting(4) [OF budget_chain] chain_accounting(4) [OF forget_chain] fold_history_frame)

text \<open>Folded to a budget the held green is within, the twin stops at its floor or before, within the budget.\<close>

lemma refold_stops:
  assumes "twin x h" "accounted x" "retained_exact x \<le> u64_max" "g_folded_below x \<le> g_folded_below g"
    and "twin g h" "accounted g" "g_history_bytes g \<le> n" "g_folded_below g \<le> min f u64_max"
  shows "g_folded_below (snd (fold_budget_loop xof f n r x)) \<le> g_folded_below g
    \<and> g_history_bytes (snd (fold_budget_loop xof f n r x)) \<le> n"
  using assms
proof (induction xof f n r x rule: fold_budget_loop.induct)
  case (1 xof f n r x)
  let ?f = "fold_history_before xof (sat_add (g_folded_below x) 1) x"
  have eq: "g_history_bytes x \<le> n" if "g_folded_below x = g_folded_below g"
    using twin_retained [OF "1.prems"(5,1) that] "1.prems"(2,6,7) by (simp add: accounted_def)
  show ?case
  proof (cases "g_history_bytes x > n \<and> g_folded_below x < min f u64_max")
    case True
    then have below: "g_folded_below x < g_folded_below g" using eq "1.prems"(4) by linarith
    note a = fold_history_accounted [OF "1.prems"(2,3), of xof "sat_add (g_folded_below x) 1"]
    have "g_folded_below (snd ?f) \<le> g_folded_below g"
      using below True by (simp add: folded_below_after sat_add_small)
    moreover have "retained_exact (snd ?f) \<le> u64_max" using a(2) "1.prems"(3) by linarith
    ultimately show ?thesis
      using "1.IH" [OF True refl refl prod.collapse twin_fold [OF "1.prems"(1)] a(1) _ _ "1.prems"(5-8)] True
      by (subst (1 2) fold_budget_loop.simps) (simp add: Let_def case_prod_unfold)
  next
    case False
    then have "fold_budget_loop xof f n r x = (r, x)" by (subst fold_budget_loop.simps) auto
    moreover have "g_history_bytes x \<le> n" using False eq "1.prems"(4,8) by linarith
    ultimately show ?thesis using "1.prems"(4) by simp
  qed
qed

section \<open>The budget\<close>

lemma admitted:
  assumes "backed (sb_ledger b)" "m \<le> budget_admittable b"
  shows "\<exists>b'. budget_grow m b = Inr (m, b') \<and> backed (sb_ledger b') \<and> budget_admittable b' = budget_admittable b - m"
    "\<exists>b'. charge_retention m b = Inr b' \<and> backed (sb_ledger b') \<and> budget_admittable b' = budget_admittable b - m"
    "snd (make_room claim m b) = b"
proof -
  have m: "m \<le> ledger_admittable (sb_ledger b)" using assms(2) by (simp add: budget_admittable_def)
  note t = backed_take [OF assms(1) m]
  show "\<exists>b'. budget_grow m b = Inr (m, b') \<and> backed (sb_ledger b') \<and> budget_admittable b' = budget_admittable b - m"
    "\<exists>b'. charge_retention m b = Inr b' \<and> backed (sb_ledger b') \<and> budget_admittable b' = budget_admittable b - m"
    using m t by (simp_all add: budget_grow_def charge_retention_def ledger_take_def budget_admittable_def ledger_admittable_def)
  have "budget_deficit b m = 0" if "m \<noteq> 0"
    using m that by (auto simp: budget_deficit_def ledger_admittable_def sat_add_def min_def)
  then show "snd (make_room claim m b) = b" by (cases "m = 0") (simp_all add: make_room_def)
qed

section \<open>One green\<close>

definition revived :: "env \<Rightarrow> green \<Rightarrow> green \<Rightarrow> bool" where
  "revived ev g g' \<longleftrightarrow> g_folded_below g' \<le> g_folded_below g \<and> green_ok (ev_xof ev) g' \<and> (\<exists>h. twin g h \<and> twin g' h)"

lemma revived_reads: "revived ev g g' \<Longrightarrow> g_folded_below g \<le> w \<Longrightarrow> content_at g' p w = content_at g p w"
  using twin_content_at by (fastforce simp: revived_def)

lemma revived_identity:
  assumes "revived ev g g'" "green_ok (ev_xof ev) g"
  shows "fst (head_identity (ev_xof ev) digest g') = fst (head_identity (ev_xof ev) digest g)"
proof -
  have "scratch_entries g' = scratch_entries g" using assms(1) by (auto simp: revived_def twin_def scratch_entries_def)
  then show ?thesis using assms head_identity_scratch by (simp add: revived_def head_identity_from_scratch_def)
qed

text \<open>The origins a restart walks give the origins they held, and the histories of a whole chain fit their count.\<close>

definition walks :: "origin_walk \<Rightarrow> shard \<Rightarrow> bool" where
  "walks walk st \<longleftrightarrow> (\<forall>k s. bt_get (pt_origins (sh_partition st)) k = Some s \<longrightarrow> walk s = Inr s)"

definition chains_fit :: "env \<Rightarrow> shard \<Rightarrow> bool" where
  "chains_fit ev st \<longleftrightarrow> (\<forall>k h. replay_chain 0 (chain_of st k) (seeded ev (origin_of st k)) = Inr h \<longrightarrow> retained_exact h \<le> u64_max)"

lemma replayed:
  assumes st: "standing ev st" "walks walk st" "chains_fit ev st" and g: "bt_get (sh_greens st) k = Some g"
    and s: "sh_partition s = sh_partition st"
  obtains x h where "replay_green ev walk k s = Inr x" "twin g h" "twin x h" "green_ok (ev_xof ev) x" "accounted x"
    "retained_exact x \<le> u64_max" "g_folded_below x = 0" "g_rejected_bytes x = 0"
proof -
  obtain h where h: "replay_chain 0 (chain_of st k) (seeded ev (origin_of st k)) = Inr h" "whole (ev_xof ev) h" "twin g h"
    using st(1) g by (auto simp: standing_def chained_def green_logged_def)
  let ?x = "set_rejected_budget (rejected_cache_budget s) h"
  have c: "chain_state ?x = chain_state h" by simp
  have fb: "g_folded_below h = 0" "g_rejected_bytes h = 0" "green_ok (ev_xof ev) h" "tallied h" using h(2) by (simp_all add: whole_def)
  have r: "retained_exact h \<le> u64_max" using st(3) h(1) by (simp add: chains_fit_def)
  have "replay_green ev walk k s = Inr ?x"
    using h(1) st(2) s by (cases "origin_of st k") (auto simp: replay_green_def chain_of_def origin_of_def walks_def seeded_def)
  moreover have "twin ?x h" by (rule twin_chain [OF c twin_refl [OF fb(1)]])
  moreover have "accounted ?x" "retained_exact ?x \<le> u64_max" using chain_accounting [OF c] tallied_accounted [OF r] fb(4) r by simp_all
  moreover have "green_ok (ev_xof ev) ?x" using green_ok_chain [OF c] fb(3) by simp
  moreover have "?x = h\<lparr>g_rejected_budget := rejected_cache_budget s\<rparr>"
    using fb(2) by (simp add: set_rejected_budget_def evict_while.simps)
  ultimately show thesis using that h(3) fb(1,2) by simp
qed

lemma settled:
  assumes x: "bt_get (sh_greens s) k = Some x" and s: "sh_works s = []" "sh_pins s = []" "bt_get (sh_retention s) k = None"
    and b: "backed (sb_ledger (sh_budget s))" "retention_charge g \<le> m" "m \<le> budget_admittable (sh_budget s)"
    and g: "g = snd (fold_history_to_budget (ev_xof ev) (head x) (rejected_cache_budget s) x)"
  shows "\<exists>b'. settle_green_retention ev k s = (Inr (), s\<lparr>sh_greens := bt_insert k g (sh_greens s),
      sh_retention := bt_insert k (retention_charge g) (sh_retention s), sh_budget := b'\<rparr>)
    \<and> backed (sb_ledger b') \<and> budget_admittable (sh_budget s) - m \<le> budget_admittable b'"
proof -
  have "reachable_floor s k = head x" using x s by (simp add: reachable_floor_def reader_versions_def bt_values_def)
  note e = settle_green_retention_def x s(3) this g [symmetric] Let_def
  show ?thesis
  proof (cases "retention_charge g = 0")
    case True
    then show ?thesis using b by (intro exI [of _ "sh_budget s"]) (simp add: e)
  next
    case False
    obtain b' where b': "charge_retention (retention_charge g) (sh_budget s) = Inr b'" "backed (sb_ledger b')"
      "budget_admittable b' = budget_admittable (sh_budget s) - retention_charge g"
      using admitted(2) [OF b(1), of "retention_charge g"] b(2,3) by auto
    then show ?thesis using False b(2) by (intro exI [of _ b']) (simp add: e)
  qed
qed

lemma fold_budget_cache: "cache_view (snd (fold_budget_loop xof f n r g)) = cache_view g"
proof (induction xof f n r g rule: fold_budget_loop.induct)
  case (1 xof f n r g)
  then show ?case using fold_history_frame(1) [of xof "sat_add (g_folded_below g) 1" g]
    by (subst fold_budget_loop.simps) (auto simp: Let_def split: prod.split)
qed

lemma green_back:
  assumes st: "standing ev st" "walks walk st" "chains_fit ev st"
    and g: "bt_get (sh_greens st) k = Some g" "g_folded_below g \<le> head g"
    and s: "sh_partition s = sh_partition st" "sh_works s = []" "sh_pins s = []" "bt_get (sh_retention s) k = None"
    and b: "backed (sb_ledger (sh_budget s))" "rejected_cache_budget st \<le> budget_admittable (sh_budget s)"
    and rc: "rc_shard rc = s"
  shows "\<exists>g' m n b'. rebuild_green ev walk k rc = rc\<lparr>rc_shard := s\<lparr>sh_greens := m, sh_retention := bt_insert k n (sh_retention s), sh_budget := b'\<rparr>\<rparr>
    \<and> (\<forall>j. bt_get m j = (if j = k then Some g' else bt_get (sh_greens s) j)) \<and> revived ev g g'
    \<and> backed (sb_ledger b') \<and> budget_admittable (sh_budget s) - rejected_cache_budget st \<le> budget_admittable b'"
proof -
  let ?n = "rejected_cache_budget st"
  obtain x h where x: "replay_green ev walk k s = Inr x" "twin g h" "twin x h" "green_ok (ev_xof ev) x" "accounted x"
    "retained_exact x \<le> u64_max" "g_folded_below x = 0" "g_rejected_bytes x = 0" by (rule replayed [OF st g(1) s(1)])
  have kp: "g_history_bytes g \<le> ?n" "reachable (ev_xof ev) g" "?n < u64_max" using st(1) g(1) by (simp_all add: standing_def kept_def)
  have acc: "accounted g" using reachable_inv [OF kp(2)] by (simp add: green_inv_def)
  have hd: "head x = head g" using twin_head [OF x(2)] twin_head [OF x(3)] by simp
  have f: "g_folded_below g \<le> min (head x) u64_max" using g(2) reachable_head [OF kp(2)] hd by simp
  define y where "y = snd (fold_budget_loop (ev_xof ev) (head x) ?n 0 x)"
  have y: "g_folded_below y \<le> g_folded_below g" "g_history_bytes y \<le> ?n" "twin y h" "green_ok (ev_xof ev) y" "g_rejected_bytes y = 0"
    using refold_stops [OF x(3,5,6) _ x(2) acc kp(1) f, where r = 0 and xof = "ev_xof ev"] twin_fold_budget [OF x(3)] fold_budget_green_ok [OF x(4)]
      fold_budget_cache [of "ev_xof ev" "head x" ?n 0 x] x(7,8) by (simp_all add: y_def cache_view_def)
  let ?s = "s\<lparr>sh_greens := bt_insert k x (sh_greens s)\<rparr>"
  have cap: "rejected_cache_budget ?s = ?n" by (simp add: rejected_cache_budget_def s(1))
  obtain b' where b': "settle_green_retention ev k ?s = (Inr (), ?s\<lparr>sh_greens := bt_insert k y (sh_greens ?s),
      sh_retention := bt_insert k (retention_charge y) (sh_retention ?s), sh_budget := b'\<rparr>)"
    "backed (sb_ledger b')" "budget_admittable (sh_budget s) - ?n \<le> budget_admittable b'"
    using settled [of ?s k x y ?n ev] s b y(2,5) kp(3) cap
    by (auto simp: y_def fold_history_to_budget_def retention_charge_def sat_add_def)
  have "revived ev g y" using y x(2) by (auto simp: revived_def)
  then show ?thesis using b' x(1) rc
    by (intro exI [of _ y] exI [of _ "bt_insert k y (bt_insert k x (sh_greens s))"] exI [of _ "retention_charge y"] exI [of _ b'])
      (simp add: rebuild_green_def)
qed

section \<open>One work\<close>

definition same_work :: "work_state \<Rightarrow> work_state \<Rightarrow> bool" where
  "same_work w x \<longleftrightarrow> ws_green x = ws_green w \<and> ws_base x = ws_base w \<and> ws_files x = ws_files w \<and> ws_journal x = ws_journal w"

lemma work_back:
  assumes w: "logged_at st v w" "bt_get (sh_greens st) (ws_green w) = Some g" "g_folded_below g \<le> ws_base w"
    and r: "bt_get (volumes st) v = Some r"
    and s: "sh_partition s = sh_partition st" "bt_get (sh_greens s) (ws_green w) = Some g'" "revived ev g g'"
    and b: "backed (sb_ledger (sh_budget s))" "work_footprint (ev_op_size ev) (ws_files w) (ws_journal w) \<le> budget_admittable (sh_budget s)"
    and rc: "rc_shard rc = s"
  shows "\<exists>x b'. rebuild_work ev v r (ws_green w) rc = rc\<lparr>rc_shard := s\<lparr>sh_budget := b', sh_works := bt_insert v x (sh_works s)\<rparr>\<rparr>
    \<and> same_work w x \<and> backed (sb_ledger b')
    \<and> budget_admittable b' = budget_admittable (sh_budget s) - work_footprint (ev_op_size ev) (ws_files w) (ws_journal w)"
proof -
  let ?m = "work_footprint (ev_op_size ev) (ws_files w) (ws_journal w)"
  obtain c q where c: "vr_role r = RWork (ws_green w) c q" "work_logged (log_at st v) c g w"
    using w(1,2) r by (auto simp: logged_at_def role_of_def)
  have "replay (Some g') c (log_at st v) = Inr (ws_base w, ws_files w, ws_journal w)"
    using c(2) revived_reads [OF s(3) w(3)] by (simp add: work_logged_def)
  then have "replay (Some g') c (log_of (pt_logs (sh_partition s)) v) = Inr (ws_base w, ws_files w, ws_journal w)"
    by (simp add: log_at_def s(1))
  moreover obtain b' where b': "budget_grow ?m (sh_budget s) = Inr (?m, b')" "backed (sb_ledger b')"
    "budget_admittable b' = budget_admittable (sh_budget s) - ?m" using admitted(1) [OF b] by blast
  ultimately show ?thesis
    using c(1) s(2) rc admitted(3) [OF b, of "ev_claim ev"]
    by (intro exI [of _ "\<lparr>ws_green = ws_green w, ws_base = ws_base w, ws_journal = ws_journal w, ws_files = ws_files w,
        ws_revision = 0, ws_charged = ?m\<rparr>"] exI [of _ b']) (simp add: rebuild_work_def Let_def same_work_def)
qed

end
