(* ===== verification/Service_Restart.thy ===== *)
theory Service_Restart
  imports Restart_Laws Service_Props
begin

text \<open>
  A restart over the state a run left. Through every run the catalog says of each green that it is
  one; rebuilt from the catalog, the chains, the origins and the logs with room in the budget, every
  green and every work comes back, and nothing is fenced or refused.
\<close>

section \<open>The catalog of a run\<close>










section \<open>The records in their order\<close>














section \<open>Retention and restarts\<close>

text \<open>
  C38: Through any run of the merge plane whose hashed inputs do not collide, every green is one its
  engine can reach, its retained bytes are counted exactly, and they stay within the budget of a
  green: no accept, whatever it supersedes, takes the histories past it.
\<close>

theorem run_within_budget:
  assumes "service_run ev H st" "inj_on (ev_blake3 ev) H" "bt_get (sh_greens st) k = Some g"
  shows "reachable (ev_xof ev) g \<and> g_history_bytes g = retained_exact g \<and> g_history_bytes g \<le> rejected_cache_budget st"
  using run_standing [OF assms(1,2)] assms(3) reachable_inv
  by (fastforce simp: standing_def kept_def green_inv_def accounted_def)

theorem run_within_budget_witness:
  "\<exists>g. bt_get (sh_greens demo_shard) green_id = Some g \<and> g_history_bytes g \<le> 1000"
proof -
  have g: "bt_get (sh_greens demo_shard) green_id = Some (set_rejected_budget 1000 demo_green)"
    "rejected_cache_budget demo_shard = 1000"
    by (simp_all add: demo_shard_is demo_holds_def demo_start_def rejected_cache_budget_def)
  show ?thesis using run_within_budget [OF demo_run(1) demo_inj [of "{}"] g(1)] g by simp
qed








end
