(* ===== verification/Spec2Isabelle.thy ===== *)
theory Spec2Isabelle
  imports Prelude Ordered_Maps Verdict Codec Ops_Doc Position_Map Splice Derive
    Special Origin Increments Identity Versioned Volume_Ops Green_State Merge Commit Retention Rebase
    Entities Deriver Seal Work_Files Engine_Props Findings Wire_Codec Wire_Crc Wire_Frame Wire_Window Work_Laws
    Work_Log_Laws Service_Props Service_Findings Seal_Laws Recovery Service_Catalog Service_Restart
begin

text \<open>
  The merge plane of slates: the engine that judges and commits the increments of many agents on one
  versioned tree (\<open>crates/merge\<close>), the service a shard runs over it (the merge verbs of
  \<open>crates/server\<close>), the tables it records in (\<open>crates/db\<close>), the capacity it claims
  (\<open>crates/mem\<close>) and the framing its messages travel in (\<open>crates/wire\<close>).

  \<^bold>\<open>How the parts interact.\<close> A \<^emph>\<open>green\<close> is a tree with a history of numbered versions. A \<^emph>\<open>work\<close> is
  an agent's private delta over one version of a green, its base, with a journal of what the agent
  declared. \<open>edit\<close> and \<open>declare\<close> change a work and append to its durable log. \<open>submit\<close> seals the
  journal into an \<^emph>\<open>increment\<close> (an ops document and a post-state), secures the memory its acceptance
  may keep, and hands it to the green, which maps it through the versions accepted since the base and
  either commits the next version or answers the conflict windows. An accepted increment is appended
  to the green's durable chain and the work restarts at the new version. \<open>rebase\<close> moves a work to
  the head without committing. Attachments pin a version. A green folds its oldest histories to stay
  in its budget, never past a version a work or an attachment reads. After a restart the greens are
  replayed from their origins and chains and the works from their logs.

  \<^bold>\<open>Conventions.\<close> A \<open>u64\<close> or \<open>usize\<close> is a \<open>nat\<close> and every saturating, checked or wrapping operation
  is written out (\<open>sat_add\<close>, \<open>checked_add\<close>, \<open>wrapping_succ\<close>; subtraction of \<open>nat\<close> is
  \<open>saturating_sub\<close>); a byte is an \<open>8 word\<close>, checksums and node fields are words. A \<open>Result\<close> is a sum
  with the error left and \<open>?\<close> is \<open>rbind\<close>. A \<open>BTreeMap\<close> is a sorted association list and a \<open>BTreeSet\<close>
  a sorted list, because their order is seen in the effects, the windows and the encodings; the locale
  \<open>ordered_map\<close> states what their clients rely on. A path is a \<open>string\<close>. A method that takes
  \<open>&mut self\<close> returns its answer with the new state. The body of a loop or of a closure that has its
  own definition is named after what it does, beside the definition that calls it.

  \<^bold>\<open>The merge crate.\<close>
  \<^item> \<open>Ranges\<close>, \<open>Verdict\<close>, \<open>Position_Map\<close>, \<open>Content\<close>, \<open>Splice\<close>, \<open>Derive\<close>: \<open>range.rs\<close>, \<open>verdict.rs\<close>,
    \<open>map.rs\<close>, the stateless half of \<open>engine.rs\<close>, \<open>splice.rs\<close>, \<open>derive.rs\<close>. Over the algebra of edits
    in \<open>Edits\<close>: the sweep equals the quadratic comparison, the mapping reports an overlap exactly when
    there is one and otherwise follows the bytes, two deltas that do not touch commute unless one
    truncates a file the other adds to at its end, the splice of extents refines the splice of bytes,
    and the composed net operations rebuild the file the journal wrote.
  \<^item> \<open>Codec\<close>, \<open>Ops_Doc\<close>, \<open>Special\<close>, \<open>Origin\<close>, \<open>Increments\<close>: \<open>ops_doc.rs\<close>, \<open>special.rs\<close>, \<open>origin.rs\<close>
    and the encoding of \<open>engine.rs\<close>. Every encoding is read back; the node encoding is exact in both
    directions; the canonical form of a document or an origin does not depend on the order of
    declaration.
  \<^item> \<open>Volume_Ops\<close>, \<open>Entities\<close>, \<open>Deriver\<close>, \<open>Seal\<close>: \<open>increment.rs\<close>, the journal of a work composed per
    dimension and sealed, with its refusals. \<open>Seal_Laws\<close> shows that the replay of a journal has one
    live file per path, and that a sealed document names every path by its index and creates none it
    also renames to.
  \<^item> \<open>Identity\<close>, \<open>Versioned\<close>, \<open>Green_State\<close>, \<open>Merge\<close>, \<open>Commit\<close>, \<open>Retention\<close>, \<open>Rebase\<close>:
    \<open>identity.rs\<close> and \<open>struct Green\<close> of \<open>engine.rs\<close> with every operation of it. The laws are in
    \<open>Commit_Laws\<close>, \<open>Submit_Laws\<close>, \<open>Identity_Laws\<close>, \<open>Cache_Laws\<close> and \<open>Retention_Laws\<close>; \<open>Reachable\<close> is the
    step relation of a green with its invariant, and \<open>Engine_Props\<close> holds the properties over every
    reachable green. \<open>Shadow\<close> relates a folded green to the same green kept whole; \<open>Reserve\<close> bounds
    what an acceptance adds to the histories by what the service reserved.
  \<^item> \<open>Findings\<close>: behaviours that lose an edit, each on a concrete input.

  \<^bold>\<open>The server.\<close>
  \<^item> \<open>Work_Files\<close>, \<open>Work_Log\<close>, \<open>Work_State\<close>: \<open>work_files.rs\<close>, \<open>work_charge.rs\<close>, \<open>work_log.rs\<close> and the
    sealing of \<open>verbs.rs\<close>; their laws are in \<open>Work_Laws\<close> (a delta implements a plain map of paths to
    bytes, its charges are exact) and \<open>Work_Log_Laws\<close>.
  \<^item> \<open>Budget\<close>: \<open>crates/mem/src/budget.rs\<close> and \<open>make_room\<close> of \<open>arena.rs\<close>, with the step relation of the
    ledger and its invariant.
  \<^item> \<open>Merge_Service\<close>, \<open>Merge_Verbs\<close>, \<open>Merge_Reads\<close>: the shard (\<open>record shard\<close>), the merge tables of the
    partition with the in-transaction branch of \<open>Db::mutate\<close> as their check and application, and the
    verbs of \<open>verbs.rs\<close> and \<open>merge_service.rs\<close>, whole, with every refusal but that of an origin whose
    snapshot is gone, which is not a table of the model.
  \<^item> \<open>Service_Reads\<close>, \<open>Service_Moves\<close>, \<open>Service_Run\<close>, \<open>Service_Edits\<close>, \<open>Service_Props\<close>: the step relation
    \<open>service_run\<close> of a shard, its invariant, and the properties over every run; \<open>Service_Findings\<close>
    holds concrete inputs where the code departs from its comments.
  \<^item> \<open>Recovery\<close>: \<open>rebuild_recovered\<close> and what it calls. \<open>Service_Chains\<close> shows that through every run
    the origin and chain of a green replay to it and its histories stay within its budget,
    \<open>Service_Logs\<close> and \<open>Service_Catalog\<close> that the log of a work replays to the work. \<open>Restart_Laws\<close> has
    the steps of a restart over such a state and \<open>Service_Restart\<close> the whole of it: the greens fold no
    further than they had, so every green and every work comes back.

  \<^bold>\<open>The wire.\<close> \<open>Wire_Codec\<close>, \<open>Wire_Crc\<close>, \<open>Wire_Frame\<close>, \<open>Wire_Window\<close>: the canonical encoding with the
  locale \<open>wire\<close> for its trait, CRC32C, the frames, credit and the completion window.

  \<^bold>\<open>Parameters.\<close> BLAKE3 (its output stream and its digest), the instructions of the hardware checksum,
  what the arena's pool grants, a minted volume id, the walk of a base snapshot into an origin and the
  reads of a plain volume are arguments. What a theorem needs of one is a hypothesis in its statement:
  the hash is injective on the inputs a run fed it, a minted id names nothing yet.

  \<^bold>\<open>Bounds and termination.\<close> Every definition is total. The loops that are not structural have a
  measure: the readout of the deriver by the pieces left, the fold to a budget by the distance of its
  floor. No fuel is used. The hypotheses of the runs say that versions and lengths fit their 64 bits,
  that log entries and increments fit their wire forms and that a document names no more paths than its
  16-bit index can; a restart also needs the histories of a chain replayed whole to be counted in 64
  bits and the budget to have room for what the shard held.

  \<^bold>\<open>Not modelled.\<close> The model is one host, where the owner of a green is its quorum: the cluster plane,
  the transport between hosts, the take-over of another owner's green and deferred acceptances are left
  out. Plain volumes (\<open>crates/vfs\<close>), the mounts over them, the landing engine, archives and disk images
  share no state with the merge plane but the byte budget. Allocators, rings and the runtime are unsafe
  code over machine memory and system calls. Command line, bindings, tests and telemetry hold no state
  of their own.
\<close>

end
